(* ===== verification/Prelude.thy ===== *)
theory Prelude
  imports Complex_Main "HOL-Library.Word"
begin

text \<open>
  Shared vocabulary of the development: the machine integers of the C++ code, the
  truncating division of C++, and generic lemmas on maps, lists and finite sums that more
  than one component uses.

  \<^item> \<open>uint64_t\<close>, \<open>uint32_t\<close> and bytes are machine words: their arithmetic wraps, their
    comparison is unsigned.
  \<^item> \<open>int64_t\<close> (\<open>Price\<close>, \<open>Qty\<close>) is an \<open>int\<close>; each arithmetic result passes through
    \<open>i64\<close>, which keeps the low 64 bits as two's complement (what the compiled code
    computes; the C++ standard leaves signed overflow undefined, and every theorem that
    depends on the value asks for its absence).
\<close>

type_synonym u64 = "64 word"
type_synonym u32 = "32 word"
type_synonym byte = "8 word"

named_theorems wf_intros \<open>invariants that the operations of a component preserve\<close>
named_theorems map_sums \<open>sums over the entries of a finite map\<close>

section \<open>Signed 64-bit arithmetic\<close>

definition i64 :: "int \<Rightarrow> int" where
  "i64 x = (x + 2 ^ 63) mod 2 ^ 64 - 2 ^ 63"

abbreviation i64_min :: int where "i64_min \<equiv> - (2 ^ 63)"
abbreviation i64_max :: int where "i64_max \<equiv> 2 ^ 63 - 1"

lemma i64_id [simp]: "i64_min \<le> x \<Longrightarrow> x \<le> i64_max \<Longrightarrow> i64 x = x"
  by (simp add: i64_def)

lemma i64_lower: "i64_min \<le> i64 x" and i64_upper: "i64 x \<le> i64_max"
  by (simp_all add: i64_def)

lemma i64_idem [simp]: "i64 (i64 x) = i64 x"
  by (rule i64_id) (rule i64_lower i64_upper)+

text \<open>Division of C++: the quotient is rounded towards zero.\<close>

definition c_div :: "int \<Rightarrow> int \<Rightarrow> int" where
  "c_div a b = sgn a * sgn b * (\<bar>a\<bar> div \<bar>b\<bar>)"

lemma c_div_nonneg: "0 \<le> a \<Longrightarrow> 0 < b \<Longrightarrow> c_div a b = a div b"
  by (cases "a = 0") (simp_all add: c_div_def)

text \<open>Counters that stay below the wrap-around.\<close>

lemma unat_Suc_u64: "unat (w :: u64) + 1 < 2 ^ 64 \<Longrightarrow> unat (w + 1) = Suc (unat w)"
  by (simp add: unat_word_ariths)

lemma unat_ucast_u32: "unat (ucast (w :: u32) :: u64) = unat w"
proof -
  have "unat w < 2 ^ 64" using unsigned_less [of w, where 'a = nat] by simp
  then show ?thesis by (simp add: unsigned_ucast_eq take_bit_nat_eq_self)
qed

section \<open>Lists\<close>

lemma sum_list_filter_nonneg:
  fixes f :: "'a \<Rightarrow> int"
  shows "(\<And>x. 0 \<le> f x) \<Longrightarrow> sum_list (map f (filter P xs)) \<le> sum_list (map f xs)"
  by (induction xs) (auto intro: add_increasing)

section \<open>Finite maps\<close>

lemma sum_map_upd [map_sums]:
  fixes f :: "'v \<Rightarrow> int"
  assumes "finite (dom m)"
  shows "(\<Sum>k\<in>dom (m(k0 \<mapsto> v)). f (the ((m(k0 \<mapsto> v)) k)))
       = (\<Sum>k\<in>dom m. f (the (m k))) - (case m k0 of None \<Rightarrow> 0 | Some w \<Rightarrow> f w) + f v"
proof (cases "m k0")
  case None
  then have "k0 \<notin> dom m" by auto
  moreover have "(\<Sum>k\<in>dom m. f (the ((m(k0 \<mapsto> v)) k))) = (\<Sum>k\<in>dom m. f (the (m k)))"
    using \<open>k0 \<notin> dom m\<close> by (intro sum.cong) auto
  ultimately show ?thesis using assms None by simp
next
  case (Some w)
  then have k0: "k0 \<in> dom m" by auto
  have rest: "(\<Sum>k\<in>dom m - {k0}. f (the ((m(k0 \<mapsto> v)) k))) = (\<Sum>k\<in>dom m - {k0}. f (the (m k)))"
    by (intro sum.cong) auto
  have "(\<Sum>k\<in>dom m. f (the (m k))) = f w + (\<Sum>k\<in>dom m - {k0}. f (the (m k)))"
    using assms k0 Some by (simp add: sum.remove)
  moreover have "(\<Sum>k\<in>dom m. f (the ((m(k0 \<mapsto> v)) k)))
      = f v + (\<Sum>k\<in>dom m - {k0}. f (the (m k)))"
    using assms k0 rest by (simp add: sum.remove)
  ultimately show ?thesis using Some k0 by (simp add: insert_absorb)
qed

lemma sum_map_del [map_sums]:
  fixes f :: "'v \<Rightarrow> int"
  assumes "finite (dom m)"
  shows "(\<Sum>k\<in>dom (m(k0 := None)). f (the ((m(k0 := None)) k)))
       = (\<Sum>k\<in>dom m. f (the (m k))) - (case m k0 of None \<Rightarrow> 0 | Some w \<Rightarrow> f w)"
proof -
  have eq: "(\<Sum>k\<in>dom m - {k0}. f (the ((m(k0 := None)) k))) = (\<Sum>k\<in>dom m - {k0}. f (the (m k)))"
    by (intro sum.cong) auto
  show ?thesis
  proof (cases "m k0")
    case None
    then have "dom m - {k0} = dom m" by auto
    with eq None show ?thesis by simp
  next
    case (Some w)
    then have "k0 \<in> dom m" by auto
    with assms Some have "(\<Sum>k\<in>dom m. f (the (m k))) = f w + (\<Sum>k\<in>dom m - {k0}. f (the (m k)))"
      by (simp add: sum.remove)
    with eq Some show ?thesis by simp
  qed
qed

end
