(* ===== verification/Std_Map.thy ===== *)
theory Std_Map
  imports Prelude
begin

text \<open>
  \<open>std::map<K, V>\<close> of the C++ standard library, as the order book uses it: a strictly
  sorted association list, so that \<open>begin()\<close> is the head and \<open>rbegin()\<close> the last
  element.  The locale \<open>ordered_map\<close> is the contract the client relies on; the
  interpretation \<open>smap\<close> discharges it for the sorted lists.
\<close>

type_synonym ('k, 'v) smap = "('k \<times> 'v) list"

definition smap_wf :: "('k::linorder, 'v) smap \<Rightarrow> bool" where
  "smap_wf m \<longleftrightarrow> sorted_wrt (<) (map fst m)"

fun smap_put :: "'k::linorder \<Rightarrow> 'v \<Rightarrow> ('k, 'v) smap \<Rightarrow> ('k, 'v) smap" where
  "smap_put k v [] = [(k, v)]"
| "smap_put k v (kv # m) =
     (if fst kv < k then kv # smap_put k v m
      else if fst kv = k then (k, v) # m else (k, v) # kv # m)"

definition smap_erase :: "'k \<Rightarrow> ('k, 'v) smap \<Rightarrow> ('k, 'v) smap" where
  "smap_erase k m = filter (\<lambda>kv. fst kv \<noteq> k) m"

definition smap_first :: "('k, 'v) smap \<Rightarrow> 'k option" where
  "smap_first m = (case m of [] \<Rightarrow> None | kv # _ \<Rightarrow> Some (fst kv))"

definition smap_last :: "('k, 'v) smap \<Rightarrow> 'k option" where
  "smap_last m = (if m = [] then None else Some (fst (last m)))"

section \<open>The contract of an ordered map\<close>

locale ordered_map =
  fixes lookup :: "'m \<Rightarrow> 'k::linorder \<Rightarrow> 'v option"
    and put :: "'k \<Rightarrow> 'v \<Rightarrow> 'm \<Rightarrow> 'm"
    and erase :: "'k \<Rightarrow> 'm \<Rightarrow> 'm"
    and first :: "'m \<Rightarrow> 'k option"
    and final :: "'m \<Rightarrow> 'k option"
    and wf :: "'m \<Rightarrow> bool"
  assumes lookup_put: "wf m \<Longrightarrow> lookup (put k v m) = (lookup m)(k \<mapsto> v)"
    and lookup_erase: "wf m \<Longrightarrow> lookup (erase k m) = (lookup m)(k := None)"
    and wf_put: "wf m \<Longrightarrow> wf (put k v m)"
    and wf_erase: "wf m \<Longrightarrow> wf (erase k m)"
    and finite_keys: "wf m \<Longrightarrow> finite (dom (lookup m))"
    and first_is_least: "wf m \<Longrightarrow>
          first m = (if dom (lookup m) = {} then None else Some (Min (dom (lookup m))))"
    and final_is_greatest: "wf m \<Longrightarrow>
          final m = (if dom (lookup m) = {} then None else Some (Max (dom (lookup m))))"
begin

text \<open>Store when the new value is worth keeping, else remove: what a price level does.\<close>

lemma lookup_put_or_erase:
  "wf m \<Longrightarrow> lookup (if keep then put k v m else erase k m)
    = (lookup m)(k := (if keep then Some v else None))"
  by (simp add: lookup_put lookup_erase)

lemma wf_put_or_erase: "wf m \<Longrightarrow> wf (if keep then put k v m else erase k m)"
  by (simp add: wf_put wf_erase)

lemma first_lower: "wf m \<Longrightarrow> first m = Some k \<Longrightarrow> lookup m k' = Some v \<Longrightarrow> k \<le> k'"
  using finite_keys [of m] first_is_least [of m] by (auto split: if_splits intro: Min_le)

lemma final_upper: "wf m \<Longrightarrow> final m = Some k \<Longrightarrow> lookup m k' = Some v \<Longrightarrow> k' \<le> k"
  using finite_keys [of m] final_is_greatest [of m] by (auto split: if_splits intro: Max_ge)

lemma first_present: "wf m \<Longrightarrow> first m = Some k \<Longrightarrow> \<exists>v. lookup m k = Some v"
proof -
  assume a: "wf m" "first m = Some k"
  then have "dom (lookup m) \<noteq> {}" "k = Min (dom (lookup m))"
    by (auto simp: first_is_least split: if_splits)
  then have "k \<in> dom (lookup m)" using Min_in finite_keys a(1) by blast
  then show ?thesis by blast
qed

lemma final_present: "wf m \<Longrightarrow> final m = Some k \<Longrightarrow> \<exists>v. lookup m k = Some v"
proof -
  assume a: "wf m" "final m = Some k"
  then have "dom (lookup m) \<noteq> {}" "k = Max (dom (lookup m))"
    by (auto simp: final_is_greatest split: if_splits)
  then have "k \<in> dom (lookup m)" using Max_in finite_keys a(1) by blast
  then show ?thesis by blast
qed

lemma ends_agree: "wf m \<Longrightarrow> wf m' \<Longrightarrow> dom (lookup m) = dom (lookup m')
    \<Longrightarrow> first m = first m' \<and> final m = final m'"
  by (simp add: first_is_least final_is_greatest)

end

section \<open>Sorted lists meet the contract\<close>

lemma smap_wf_Nil [simp]: "smap_wf []"
  by (simp add: smap_wf_def)

lemma smap_wf_distinct: "smap_wf m \<Longrightarrow> distinct (map fst m)"
  by (simp add: smap_wf_def strict_sorted_iff)

lemma smap_wf_Cons: "smap_wf (kv # m) \<longleftrightarrow> (\<forall>x \<in> fst ` set m. fst kv < x) \<and> smap_wf m"
  by (auto simp: smap_wf_def)

lemma keys_smap_put: "fst ` set (smap_put k v m) = insert k (fst ` set m)"
  by (induction m) auto

lemma smap_put_wf: "smap_wf m \<Longrightarrow> smap_wf (smap_put k v m)"
proof (induction m)
  case (Cons kv m)
  then show ?case
    by (cases "fst kv" k rule: linorder_cases) (auto simp: smap_wf_Cons keys_smap_put)
qed (simp add: smap_wf_Cons)

lemma map_of_smap_put: "smap_wf m \<Longrightarrow> map_of (smap_put k v m) = (map_of m)(k \<mapsto> v)"
  by (induction m) (auto simp: smap_wf_Cons fun_eq_iff)

lemma smap_erase_wf: "smap_wf m \<Longrightarrow> smap_wf (smap_erase k m)"
  by (induction m) (auto simp: smap_wf_Cons smap_erase_def)

lemma map_of_smap_erase: "map_of (smap_erase k m) = (map_of m)(k := None)"
  by (induction m) (auto simp: smap_erase_def)

lemma dom_map_of_keys: "dom (map_of m) = fst ` set m"
  by (rule dom_map_of_conv_image_fst)

lemma smap_first_least:
  "smap_wf m \<Longrightarrow> smap_first m
     = (if dom (map_of m) = {} then None else Some (Min (dom (map_of m))))"
proof (cases m)
  case (Cons kv m')
  assume "smap_wf m"
  then have "Min (fst ` set m) = fst kv"
    using Cons by (intro Min_eqI) (auto simp: smap_wf_Cons intro: less_imp_le)
  then show ?thesis using Cons by (simp add: smap_first_def dom_map_of_keys)
qed (simp add: smap_first_def)

lemma smap_wf_append:
  "smap_wf (m @ [kv]) \<longleftrightarrow> smap_wf m \<and> (\<forall>x \<in> fst ` set m. x < fst kv)"
  by (auto simp: smap_wf_def sorted_wrt_append)

lemma smap_last_greatest:
  "smap_wf m \<Longrightarrow> smap_last m
     = (if dom (map_of m) = {} then None else Some (Max (dom (map_of m))))"
proof (cases m rule: rev_cases)
  case (snoc m' kv)
  assume "smap_wf m"
  then have "Max (fst ` set m) = fst kv"
    using snoc by (intro Max_eqI) (auto simp: smap_wf_append intro: less_imp_le)
  then show ?thesis using snoc by (simp add: smap_last_def dom_map_of_keys)
qed (simp add: smap_last_def)

interpretation smap: ordered_map "\<lambda>m. map_of m" smap_put smap_erase smap_first smap_last smap_wf
  by unfold_locales
    (auto simp: map_of_smap_put map_of_smap_erase smap_put_wf smap_erase_wf finite_dom_map_of
      smap_first_least smap_last_greatest)

lemma length_smap_put:
  "smap_wf m \<Longrightarrow> length (smap_put k v m) = length m + (if map_of m k = None then 1 else 0)"
  by (induction m) (auto simp: smap_wf_Cons map_of_eq_None_iff)

text \<open>A sorted list is determined by its lookups.\<close>

lemma smap_ext: "smap_wf m \<Longrightarrow> smap_wf m' \<Longrightarrow> map_of m = map_of m' \<Longrightarrow> m = m'"
proof (induction m arbitrary: m')
  case Nil
  then show ?case by (cases m') (auto dest: fun_cong split: if_splits)
next
  case (Cons kv m)
  then obtain kv' n where m': "m' = kv' # n"
    by (cases m') (auto dest: fun_cong split: if_splits)
  have "smap_first (kv # m) = smap_first m'"
    using Cons.prems smap.ends_agree by metis
  then have k: "fst kv' = fst kv" by (simp add: smap_first_def m')
  have v: "snd kv' = snd kv" using fun_cong [OF Cons.prems(3), of "fst kv"] k by (simp add: m')
  have notin: "map_of m (fst kv) = None" "map_of n (fst kv) = None"
    using Cons.prems(1,2) k by (auto simp: m' smap_wf_Cons map_of_eq_None_iff)
  have "map_of m x = map_of n x" for x
    using fun_cong [OF Cons.prems(3), of x] notin k by (cases "x = fst kv") (auto simp: m')
  then have "m = n" using Cons by (auto simp: m' smap_wf_Cons)
  then show ?case using k v by (simp add: m' prod_eq_iff)
qed

end
