(* ===== verification/Binary64.thy ===== *)
theory Binary64
  imports Prelude "HOL-Library.Log_Nat"
begin

text \<open>
  The C++ type \<open>double\<close>: IEEE-754 binary64 with round-to-nearest, ties to even, as the
  compiled code computes it (the build asks for strict ISO C++, so GCC does not contract
  multiplications and additions).  A finite value is the rational number it denotes; the two
  zeros are one value, because no operation of this program tells them apart (it never
  divides by a zero and never prints a sign for one that matters).

  Every operation is the exact rational result passed through \<open>round64\<close>.  \<open>rnd\<close>, the
  rounding with unbounded exponent range, is computed from the binary exponent; the lemmas
  give its characteristic facts: it is monotone and odd, it is the identity on the
  numbers with a 53-bit significand, and it moves a number by at most half a unit in the
  last place.
\<close>

section \<open>Binary exponent and rounding to an integer\<close>

definition pow2 :: "int \<Rightarrow> rat" where
  "pow2 k = 2 powi k"

text \<open>The exponent \<open>e\<close> of a positive number: \<open>2 ^ e \<le> x < 2 ^ (e + 1)\<close>.\<close>

definition expo :: "rat \<Rightarrow> int" where
  "expo x = (let (a, b) = quotient_of x;
                 e = int (floorlog 2 (nat a)) - int (floorlog 2 (nat b))
             in if pow2 e \<le> x then e else e - 1)"

text \<open>Round half to even.\<close>

definition rne :: "rat \<Rightarrow> int" where
  "rne y = (let f = \<lfloor>y\<rfloor>; d = y - of_int f
            in if d < 1 / 2 then f else if 1 / 2 < d then f + 1
               else if even f then f else f + 1)"

text \<open>One unit in the last place; below \<open>2 ^ (-1022)\<close> the spacing stays at \<open>2 ^ (-1074)\<close>.\<close>

definition ulp_exp :: "rat \<Rightarrow> int" where
  "ulp_exp x = max (expo \<bar>x\<bar> - 52) (- 1074)"

definition rnd :: "rat \<Rightarrow> rat" where
  "rnd x = (if x = 0 then 0
            else of_int (rne (x / pow2 (ulp_exp x))) * pow2 (ulp_exp x))"

text \<open>The numbers with a 53-bit significand (of any magnitude from \<open>2 ^ (-1074)\<close> up).\<close>

definition is_f53 :: "rat \<Rightarrow> bool" where
  "is_f53 x \<longleftrightarrow> (\<exists>m e. x = of_int m * pow2 e \<and> \<bar>m\<bar> \<le> 2 ^ 53 \<and> - 1074 \<le> e)"

section \<open>Facts about the exponent\<close>

lemma pow2_pos [simp]: "0 < pow2 k" and pow2_nz [simp]: "pow2 k \<noteq> 0"
    and pow2_nonneg [simp]: "0 \<le> pow2 k" and abs_pow2 [simp]: "\<bar>pow2 k\<bar> = pow2 k"
  by (simp_all add: pow2_def)

lemma pow2_0 [simp]: "pow2 0 = 1"
  by (simp add: pow2_def)

lemma pow2_add: "pow2 (a + b) = pow2 a * pow2 b"
  by (simp add: pow2_def power_int_add)

lemma pow2_diff: "pow2 (a - b) = pow2 a / pow2 b"
  by (simp add: pow2_def power_int_diff)

lemma pow2_Suc: "pow2 (a + 1) = 2 * pow2 a"
  by (simp add: pow2_def power_int_add)

lemma pow2_of_nat: "pow2 (int n) = of_int (2 ^ n)"
  by (simp add: pow2_def)

lemma pow2_less: "a < b \<Longrightarrow> pow2 a < pow2 b"
  unfolding pow2_def by (rule power_int_strict_increasing) simp_all

lemma pow2_less_iff [simp]: "pow2 a < pow2 b \<longleftrightarrow> a < b"
  using pow2_less [of a b] pow2_less [of b a] by (cases a b rule: linorder_cases) auto

lemma pow2_le_iff [simp]: "pow2 a \<le> pow2 b \<longleftrightarrow> a \<le> b"
  by (simp add: linorder_not_less [symmetric])

text \<open>A quotient of powers with a nonnegative exponent is an integer.\<close>

lemma pow2_div_int: "k \<le> e \<Longrightarrow> pow2 e / pow2 k = of_int (2 ^ nat (e - k))"
  by (metis pow2_diff pow2_of_nat diff_ge_0_iff_ge int_nat_eq)

lemma floorlog_pow2_bounds:
  assumes "0 < a"
  shows "pow2 (int (floorlog 2 (nat a)) - 1) \<le> of_int a" "of_int a < pow2 (int (floorlog 2 (nat a)))"
proof -
  let ?l = "floorlog 2 (nat a)"
  have b: "2 ^ (?l - 1) \<le> nat a" "nat a < 2 ^ ?l"
    using floorlog_bounds [of "nat a" 2] assms by auto
  have l: "0 < ?l" using assms by (simp add: floorlog_def)
  have "int (2 ^ (?l - 1)) \<le> a" "a < int (2 ^ ?l)" using b assms by linarith+
  then have "(of_int (2 ^ (?l - 1)) :: rat) \<le> of_int a" "(of_int a :: rat) < of_int (2 ^ ?l)"
    by (simp_all only: of_int_le_iff of_int_less_iff) simp_all
  moreover have "int ?l - 1 = int (?l - 1)" using l by simp
  ultimately show "pow2 (int ?l - 1) \<le> of_int a" "of_int a < pow2 (int ?l)"
    by (simp_all only: pow2_of_nat)
qed

lemma expo_bounds:
  assumes "0 < x"
  shows "pow2 (expo x) \<le> x" "x < pow2 (expo x + 1)"
proof -
  obtain a b where q: "quotient_of x = (a, b)" by fastforce
  have x: "x = of_int a / of_int b" and b: "0 < b"
    using q quotient_of_div quotient_of_denom_pos by auto
  have a: "0 < a" using assms x b by (simp add: zero_less_divide_iff)
  let ?la = "int (floorlog 2 (nat a))" and ?lb = "int (floorlog 2 (nat b))"
  note A = floorlog_pow2_bounds [OF a] and B = floorlog_pow2_bounds [OF b]
  have "x < pow2 ?la / pow2 (?lb - 1)"
    unfolding x using A B a b by (intro frac_less) auto
  then have up: "x < pow2 (?la - ?lb + 1)"
    by (simp only: pow2_diff [symmetric]) (simp add: algebra_simps)
  have "pow2 (?la - 1) / pow2 ?lb \<le> x"
    unfolding x using A B a b by (intro frac_le) auto
  then have lo: "pow2 (?la - ?lb - 1) \<le> x"
    by (simp only: pow2_diff [symmetric]) (simp add: algebra_simps)
  show "pow2 (expo x) \<le> x" "x < pow2 (expo x + 1)"
    using up lo by (auto simp: expo_def q Let_def)
qed

lemma expo_unique: "0 < x \<Longrightarrow> pow2 e \<le> x \<Longrightarrow> x < pow2 (e + 1) \<Longrightarrow> expo x = e"
proof -
  assume a: "0 < x" "pow2 e \<le> x" "x < pow2 (e + 1)"
  have "pow2 e < pow2 (expo x + 1)" "pow2 (expo x) < pow2 (e + 1)"
    using a expo_bounds [of x] by linarith+
  then show ?thesis by simp
qed

lemma expo_mono: "0 < x \<Longrightarrow> x \<le> y \<Longrightarrow> expo x \<le> expo y"
proof -
  assume "0 < x" "x \<le> y"
  then have "pow2 (expo x) < pow2 (expo y + 1)"
    using expo_bounds(1) [of x] expo_bounds(2) [of y] by linarith
  then show ?thesis by simp
qed

lemma expo_ge: "pow2 e \<le> x \<Longrightarrow> e \<le> expo x"
proof -
  assume a: "pow2 e \<le> x"
  then have "0 < x" using pow2_pos [of e] by linarith
  with a have "pow2 e < pow2 (expo x + 1)" using expo_bounds(2) [of x] by linarith
  then show ?thesis by simp
qed

section \<open>Facts about rounding to an integer\<close>

lemma rne_of_int [simp]: "rne (of_int n) = n"
  by (simp add: rne_def)

lemma rne_error: "\<bar>of_int (rne y) - y\<bar> \<le> 1 / 2"
proof -
  have "of_int \<lfloor>y\<rfloor> \<le> y" "y < of_int \<lfloor>y\<rfloor> + 1" by linarith+
  then show ?thesis by (simp add: rne_def Let_def abs_if; linarith)
qed

lemma rne_mono: "x \<le> y \<Longrightarrow> rne x \<le> rne y"
proof -
  assume xy: "x \<le> y"
  show ?thesis
  proof (cases "\<lfloor>x\<rfloor> = \<lfloor>y\<rfloor>")
    case True
    with xy show ?thesis by (auto simp: rne_def Let_def)
  next
    case False
    with xy have "\<lfloor>x\<rfloor> + 1 \<le> \<lfloor>y\<rfloor>" using floor_mono [of x y] by linarith
    then show ?thesis by (auto simp: rne_def Let_def)
  qed
qed

lemma rne_minus: "rne (- y) = - rne y"
proof (cases "of_int \<lfloor>y\<rfloor> = y")
  case True
  then show ?thesis by (metis of_int_minus rne_of_int)
next
  case False
  then have "\<lfloor>- y\<rfloor> = - \<lfloor>y\<rfloor> - 1" by linarith
  with False show ?thesis by (auto simp: rne_def Let_def; linarith)
qed

section \<open>Rounding to 53 bits\<close>

lemma rnd_0 [simp]: "rnd 0 = 0"
  by (simp add: rnd_def)

lemma rnd_minus: "rnd (- x) = - rnd x"
  by (simp add: rnd_def ulp_exp_def minus_divide_left [symmetric] rne_minus
      del: minus_divide_left)

lemma ulp_exp_minus [simp]: "ulp_exp (- x) = ulp_exp x"
  by (simp add: ulp_exp_def)

lemma ulp_exp_mono: "0 < x \<Longrightarrow> x \<le> y \<Longrightarrow> ulp_exp x \<le> ulp_exp y"
  using expo_mono [of x y] by (simp add: ulp_exp_def)

text \<open>A multiple of its own unit in the last place is not moved.\<close>

lemma rnd_multiple:
  assumes "x = of_int m * pow2 (ulp_exp x)"
  shows "rnd x = x"
proof (cases "x = 0")
  case False
  have "x / pow2 (ulp_exp x) = of_int m" by (subst assms) simp
  then have "rnd x = of_int m * pow2 (ulp_exp x)" using False by (simp add: rnd_def)
  with assms show ?thesis by simp
qed simp

lemma f53_multiple:
  assumes "is_f53 x" "x \<noteq> 0"
  obtains m where "x = of_int m * pow2 (ulp_exp x)"
proof -
  obtain m e where x: "x = of_int m * pow2 e" and m: "\<bar>m\<bar> \<le> 2 ^ 53" and e: "- 1074 \<le> e"
    using assms by (auto simp: is_f53_def)
  let ?E = "expo \<bar>x\<bar>" and ?u = "ulp_exp x"
  have "pow2 ?E \<le> \<bar>x\<bar>" using assms expo_bounds(1) [of "\<bar>x\<bar>"] by simp
  also have "\<bar>x\<bar> = of_int \<bar>m\<bar> * pow2 e" by (simp add: x abs_mult)
  also have "\<dots> \<le> of_int (2 ^ 53) * pow2 e"
    by (intro mult_right_mono) (simp_all only: of_int_le_iff m pow2_nonneg)
  also have "\<dots> = pow2 (53 + e)" using pow2_of_nat [of 53] by (simp add: pow2_add)
  finally have E: "?E \<le> 53 + e" by simp
  show ?thesis
  proof (cases "?u \<le> e")
    case True
    then have "x = of_int (m * 2 ^ nat (e - ?u)) * pow2 ?u"
      using pow2_div_int [OF True] by (simp add: x field_simps)
    then show ?thesis by (rule that)
  next
    case False
    with e E have u: "?u = ?E - 52" "?E = 53 + e" by (auto simp: ulp_exp_def)
    have "pow2 (53 + e) \<le> of_int \<bar>m\<bar> * pow2 e"
      using \<open>pow2 ?E \<le> \<bar>x\<bar>\<close> u(2) by (simp add: x abs_mult)
    then have "(of_int (2 ^ 53) :: rat) \<le> of_int \<bar>m\<bar>"
      using pow2_of_nat [of 53] by (simp add: pow2_add)
    then have "\<bar>m\<bar> = 2 ^ 53" using m by (simp only: of_int_le_iff)
    then have "even m" by (metis even_abs_add_iff even_numeral even_power zero_less_numeral
          abs_of_nonneg dvd_abs_iff)
    then obtain k where "m = 2 * k" by blast
    then have "x = of_int k * pow2 (e + 1)" by (simp add: x pow2_Suc)
    moreover have "?u = e + 1" using u by simp
    ultimately show ?thesis using that [of k] by metis
  qed
qed

lemma rnd_f53 [simp]: "is_f53 x \<Longrightarrow> rnd x = x"
  by (metis f53_multiple rnd_multiple rnd_0)

lemma rnd_error: "\<bar>rnd x - x\<bar> \<le> pow2 (ulp_exp x) / 2"
proof (cases "x = 0")
  case False
  let ?u = "pow2 (ulp_exp x)"
  have "rnd x - x = (of_int (rne (x / ?u)) - x / ?u) * ?u"
    using False by (simp add: rnd_def left_diff_distrib)
  then have "\<bar>rnd x - x\<bar> = \<bar>of_int (rne (x / ?u)) - x / ?u\<bar> * ?u"
    by (simp only: abs_mult abs_pow2)
  also have "\<dots> \<le> 1 / 2 * ?u" by (intro mult_right_mono rne_error pow2_nonneg)
  finally show ?thesis by simp
qed simp

lemma rnd_nonneg: "0 \<le> x \<Longrightarrow> 0 \<le> rnd x"
proof -
  assume "0 \<le> x"
  then have "rne 0 \<le> rne (x / pow2 (ulp_exp x))" by (intro rne_mono) simp
  then show ?thesis using rne_of_int [of 0] by (simp add: rnd_def)
qed

lemma rnd_mono_pos:
  assumes "0 < x" "x \<le> y"
  shows "rnd x \<le> rnd y"
proof (cases "ulp_exp x = ulp_exp y")
  case True
  have "rne (x / pow2 (ulp_exp y)) \<le> rne (y / pow2 (ulp_exp y))"
    using assms by (intro rne_mono divide_right_mono) simp_all
  then show ?thesis using True assms by (simp add: rnd_def)
next
  case False
  let ?ux = "ulp_exp x" and ?uy = "ulp_exp y" and ?E = "expo y"
  have less: "?ux < ?uy" using ulp_exp_mono [OF assms] False by simp
  then have uy: "?uy = ?E - 52" using assms by (auto simp: ulp_exp_def max_def split: if_splits)
  have "\<not> ?E \<le> expo x"
    using less expo_mono [OF assms] assms by (auto simp: ulp_exp_def)
  then have "pow2 (expo x + 1) \<le> pow2 ?E" by simp
  then have x: "x \<le> pow2 ?E" using expo_bounds(2) [OF assms(1)] by linarith
  have y: "pow2 ?E \<le> y" using assms expo_bounds(1) [of y] by simp
  have "rne (x / pow2 ?ux) \<le> rne (pow2 ?E / pow2 ?ux)"
    using x by (intro rne_mono divide_right_mono) simp_all
  moreover have "rne (pow2 ?E / pow2 ?uy) \<le> rne (y / pow2 ?uy)"
    using y by (intro rne_mono divide_right_mono) simp_all
  moreover have "pow2 ?E / pow2 ?ux = of_int (2 ^ nat (?E - ?ux))"
      "pow2 ?E / pow2 ?uy = of_int (2 ^ nat (?E - ?uy))"
    using less uy by (intro pow2_div_int; simp)+
  ultimately have "of_int (rne (x / pow2 ?ux)) \<le> (pow2 ?E / pow2 ?ux)"
      "(pow2 ?E / pow2 ?uy) \<le> of_int (rne (y / pow2 ?uy))"
    by (metis of_int_le_iff rne_of_int)+
  then show ?thesis using assms by (simp add: rnd_def pos_le_divide_eq pos_divide_le_eq)
qed

theorem rnd_mono: "x \<le> y \<Longrightarrow> rnd x \<le> rnd y"
proof -
  assume xy: "x \<le> y"
  consider "0 < x" | "x \<le> 0" "0 \<le> y" | "y < 0" by linarith
  then show ?thesis
  proof cases
    case 1
    then show ?thesis using xy by (rule rnd_mono_pos)
  next
    case 2
    then have "0 \<le> rnd (- x)" "0 \<le> rnd y" by (intro rnd_nonneg; simp)+
    then show ?thesis by (simp add: rnd_minus)
  next
    case 3
    then have "rnd (- y) \<le> rnd (- x)" using xy by (intro rnd_mono_pos) simp_all
    then show ?thesis by (simp add: rnd_minus)
  qed
qed

text \<open>The result of rounding has a 53-bit significand.\<close>

lemma is_f53_minus: "is_f53 x \<Longrightarrow> is_f53 (- x)"
proof -
  assume "is_f53 x"
  then obtain m e where "x = of_int m * pow2 e" "\<bar>m\<bar> \<le> 2 ^ 53" "- 1074 \<le> e"
    by (auto simp: is_f53_def)
  then have "- x = of_int (- m) * pow2 e \<and> \<bar>- m\<bar> \<le> 2 ^ 53 \<and> - 1074 \<le> e" by simp
  then show ?thesis unfolding is_f53_def by blast
qed

lemma is_f53_rnd: "is_f53 (rnd x)"
proof (cases "x = 0")
  case True
  have "(0 :: rat) = of_int 0 * pow2 0" by simp
  then show ?thesis unfolding is_f53_def using True
    by (intro exI [of _ 0] exI [of _ 0]) simp
next
  case False
  let ?u = "ulp_exp x"
  have u: "expo \<bar>x\<bar> + 1 \<le> 53 + ?u" "- 1074 \<le> ?u" by (simp_all add: ulp_exp_def)
  have "\<bar>x\<bar> < pow2 (expo \<bar>x\<bar> + 1)" using False by (intro expo_bounds(2)) simp
  also have "\<dots> \<le> pow2 (53 + ?u)" using u(1) by simp
  also have "\<dots> = of_int (2 ^ 53) * pow2 ?u" using pow2_of_nat [of 53] by (simp add: pow2_add)
  finally have "\<bar>x / pow2 ?u\<bar> \<le> of_int (2 ^ 53)"
    by (simp add: abs_divide pos_divide_le_eq)
  then have "x / pow2 ?u \<le> of_int (2 ^ 53)" "of_int (- (2 ^ 53)) \<le> x / pow2 ?u"
    by linarith+
  then have "rne (x / pow2 ?u) \<le> 2 ^ 53" "- (2 ^ 53) \<le> rne (x / pow2 ?u)"
    using rne_mono rne_of_int by metis+
  then have "\<bar>rne (x / pow2 ?u)\<bar> \<le> 2 ^ 53" by linarith
  then show ?thesis unfolding is_f53_def using False u(2)
    by (intro exI [of _ "rne (x / pow2 ?u)"] exI [of _ ?u]) (simp add: rnd_def)
qed

lemma is_f53_dyadic: "\<bar>m\<bar> \<le> 2 ^ 53 \<Longrightarrow> - 1074 \<le> e \<Longrightarrow> is_f53 (of_int m * pow2 e)"
  by (auto simp: is_f53_def)

lemma is_f53_int [simp]: "\<bar>m\<bar> \<le> 2 ^ 53 \<Longrightarrow> is_f53 (of_int m)"
  using is_f53_dyadic [of m 0] by simp

lemma is_f53_0 [simp]: "is_f53 0" and is_f53_1 [simp]: "is_f53 1"
  using is_f53_int [of 0] is_f53_int [of 1] by simp_all

section \<open>Doubles\<close>

datatype f64 = Fin rat | PosInf | NegInf | NaN

text \<open>The least power of two that is too large for a double.\<close>

definition f64_limit :: rat where
  "f64_limit = 2 ^ 1024"

lemma f64_limit_pos [simp]: "0 < f64_limit"
  by (simp add: f64_limit_def)

lemma le_f64_limit: "x \<le> 2 ^ n \<Longrightarrow> n < 1024 \<Longrightarrow> x < f64_limit"
  unfolding f64_limit_def by (rule order.strict_trans1, assumption, rule power_strict_increasing) simp_all

text \<open>Rounding a rational result to a double; what rounds to \<open>2 ^ 1024\<close> or more is an infinity.\<close>

definition round64 :: "rat \<Rightarrow> f64" where
  "round64 x = (let r = rnd x
                in if \<bar>r\<bar> < f64_limit then Fin r else if 0 < r then PosInf else NegInf)"

instantiation f64 :: "{zero, one, plus, minus, uminus, times, ord}"
begin

definition zero_f64 :: f64 where "0 = Fin 0"

definition one_f64 :: f64 where "1 = Fin 1"

fun uminus_f64 :: "f64 \<Rightarrow> f64" where
  "uminus_f64 (Fin a) = Fin (- a)"
| "uminus_f64 PosInf = NegInf"
| "uminus_f64 NegInf = PosInf"
| "uminus_f64 NaN = NaN"

fun plus_f64 :: "f64 \<Rightarrow> f64 \<Rightarrow> f64" where
  "plus_f64 (Fin a) (Fin b) = round64 (a + b)"
| "plus_f64 NaN _ = NaN"
| "plus_f64 _ NaN = NaN"
| "plus_f64 PosInf NegInf = NaN"
| "plus_f64 NegInf PosInf = NaN"
| "plus_f64 PosInf _ = PosInf"
| "plus_f64 _ PosInf = PosInf"
| "plus_f64 NegInf _ = NegInf"
| "plus_f64 _ NegInf = NegInf"

definition minus_f64 :: "f64 \<Rightarrow> f64 \<Rightarrow> f64" where
  "minus_f64 a b = a + - b"

fun times_f64 :: "f64 \<Rightarrow> f64 \<Rightarrow> f64" where
  "times_f64 (Fin a) (Fin b) = round64 (a * b)"
| "times_f64 NaN _ = NaN"
| "times_f64 _ NaN = NaN"
| "times_f64 (Fin a) PosInf = (if a = 0 then NaN else if 0 < a then PosInf else NegInf)"
| "times_f64 (Fin a) NegInf = (if a = 0 then NaN else if 0 < a then NegInf else PosInf)"
| "times_f64 PosInf (Fin b) = (if b = 0 then NaN else if 0 < b then PosInf else NegInf)"
| "times_f64 NegInf (Fin b) = (if b = 0 then NaN else if 0 < b then NegInf else PosInf)"
| "times_f64 PosInf PosInf = PosInf"
| "times_f64 NegInf NegInf = PosInf"
| "times_f64 _ _ = NegInf"

fun less_f64 :: "f64 \<Rightarrow> f64 \<Rightarrow> bool" where
  "less_f64 (Fin a) (Fin b) = (a < b)"
| "less_f64 NaN _ = False"
| "less_f64 _ NaN = False"
| "less_f64 PosInf _ = False"
| "less_f64 _ NegInf = False"
| "less_f64 _ _ = True"

definition less_eq_f64 :: "f64 \<Rightarrow> f64 \<Rightarrow> bool" where
  "less_eq_f64 a b = (a < b \<or> a = b \<and> a \<noteq> NaN)"

instance ..

end

text \<open>
  Division. A zero divisor is treated as \<open>+0\<close>; the program divides by counts, by
  \<open>kPriceScale\<close>, by standard deviations and by the clock frequency, all positive.
\<close>

fun f64_div :: "f64 \<Rightarrow> f64 \<Rightarrow> f64" where
  "f64_div (Fin a) (Fin b) =
     (if b = 0 then (if a = 0 then NaN else if 0 < a then PosInf else NegInf) else round64 (a / b))"
| "f64_div NaN _ = NaN"
| "f64_div _ NaN = NaN"
| "f64_div (Fin a) _ = Fin 0"
| "f64_div PosInf (Fin b) = (if b < 0 then NegInf else PosInf)"
| "f64_div NegInf (Fin b) = (if b < 0 then PosInf else NegInf)"
| "f64_div _ _ = NaN"

fun f64_abs :: "f64 \<Rightarrow> f64" where
  "f64_abs (Fin a) = Fin \<bar>a\<bar>"
| "f64_abs NegInf = PosInf"
| "f64_abs x = x"

text \<open>\<open>std::max(a, b)\<close> is \<open>(a < b) ? b : a\<close>.\<close>

definition std_max :: "f64 \<Rightarrow> f64 \<Rightarrow> f64" where
  "std_max a b = (if a < b then b else a)"

text \<open>Conversion from an integer (rounded), and truncation to \<open>int64_t\<close>; outside the range
  of \<open>int64_t\<close> the instruction used on x86-64 yields the least value.\<close>

definition f64_of_int :: "int \<Rightarrow> f64" where
  "f64_of_int n = round64 (of_int n)"

definition rat_trunc :: "rat \<Rightarrow> int" where
  "rat_trunc x = (if 0 \<le> x then \<lfloor>x\<rfloor> else \<lceil>x\<rceil>)"

fun f64_trunc :: "f64 \<Rightarrow> int" where
  "f64_trunc (Fin x) =
     (let n = rat_trunc x in if i64_min \<le> n \<and> n \<le> i64_max then n else i64_min)"
| "f64_trunc _ = i64_min"

text \<open>
  \<open>std::sqrt\<close>, correctly rounded. The scaled argument has an integer square root \<open>s\<close>
  of more than 53 bits; when the root is not exact, \<open>s + 1/2\<close> stands for it, which no
  rounding boundary separates from the true root.
\<close>

fun isqrt :: "nat \<Rightarrow> nat" where
  "isqrt n = (if n = 0 then 0
              else let r = 2 * isqrt (n div 4) in if (r + 1) * (r + 1) \<le> n then r + 1 else r)"

declare isqrt.simps [simp del]

definition sqrt_approx :: "rat \<Rightarrow> rat" where
  "sqrt_approx x =
     (let k = 60 - expo x div 2; y = x * pow2 (2 * k); s = int (isqrt (nat \<lfloor>y\<rfloor>))
      in (if of_int (s * s) = y then of_int s else of_int s + 1 / 2) / pow2 k)"

fun f64_sqrt :: "f64 \<Rightarrow> f64" where
  "f64_sqrt (Fin x) = (if x < 0 then NaN else if x = 0 then Fin 0 else Fin (rnd (sqrt_approx x)))"
| "f64_sqrt PosInf = PosInf"
| "f64_sqrt _ = NaN"

section \<open>Facts about doubles\<close>

text \<open>The values a \<open>double\<close> can take.\<close>

fun f64_ok :: "f64 \<Rightarrow> bool" where
  "f64_ok (Fin x) = (is_f53 x \<and> \<bar>x\<bar> < f64_limit)"
| "f64_ok _ = True"

lemma round64_ok [simp]: "f64_ok (round64 x)"
  by (simp add: round64_def Let_def is_f53_rnd)

lemma round64_f53 [simp]: "is_f53 x \<Longrightarrow> \<bar>x\<bar> < f64_limit \<Longrightarrow> round64 x = Fin x"
  by (simp add: round64_def)

lemma abs_lt_1024: "\<bar>m\<bar> \<le> 2 ^ 53 \<Longrightarrow> \<bar>of_int m :: rat\<bar> < f64_limit"
proof -
  assume "\<bar>m\<bar> \<le> 2 ^ 53"
  then have "(of_int \<bar>m\<bar> :: rat) \<le> of_int (2 ^ 53)" by (simp only: of_int_le_iff)
  also have "\<dots> < f64_limit" by (rule le_f64_limit [of _ 53]) simp_all
  finally show ?thesis by simp
qed

lemma round64_int [simp]: "\<bar>m\<bar> \<le> 2 ^ 53 \<Longrightarrow> round64 (of_int m) = Fin (of_int m)"
  by (simp add: abs_lt_1024)

lemma f64_of_int_exact [simp]: "\<bar>m\<bar> \<le> 2 ^ 53 \<Longrightarrow> f64_of_int m = Fin (of_int m)"
  by (simp add: f64_of_int_def)

lemma f64_add_int: "\<bar>m + n\<bar> \<le> 2 ^ 53 \<Longrightarrow> Fin (of_int m) + Fin (of_int n) = Fin (of_int (m + n))"
  by (simp flip: of_int_add)

lemma f64_sub_int: "\<bar>m - n\<bar> \<le> 2 ^ 53 \<Longrightarrow> Fin (of_int m) - Fin (of_int n) = Fin (of_int (m - n))"
  by (simp add: minus_f64_def flip: of_int_diff)

lemma f64_mult_int: "\<bar>m * n\<bar> \<le> 2 ^ 53 \<Longrightarrow> Fin (of_int m) * Fin (of_int n) = Fin (of_int (m * n))"
  by (simp flip: of_int_mult)

lemma f64_less_Fin [simp]: "Fin a < Fin b \<longleftrightarrow> a < b"
  by simp

lemma f64_le_Fin [simp]: "Fin a \<le> Fin b \<longleftrightarrow> a \<le> b"
  by (auto simp: less_eq_f64_def)

lemma not_less_NaN [simp]: "\<not> NaN < x" "\<not> x < NaN"
  by (cases x; simp)+

lemma f64_less_irrefl [simp]: "\<not> (x :: f64) < x"
  by (cases x) auto

lemma f64_less_trans: "(x :: f64) < y \<Longrightarrow> y < z \<Longrightarrow> x < z"
  by (cases x; cases y; cases z) auto

lemma f64_le_refl: "x \<noteq> NaN \<Longrightarrow> (x :: f64) \<le> x"
  by (simp add: less_eq_f64_def)

lemma f64_le_trans: "(x :: f64) \<le> y \<Longrightarrow> y \<le> z \<Longrightarrow> x \<le> z"
  by (auto simp: less_eq_f64_def dest: f64_less_trans)

lemma f64_le_less_trans: "(x :: f64) \<le> y \<Longrightarrow> y < z \<Longrightarrow> x < z"
  by (auto simp: less_eq_f64_def dest: f64_less_trans)

text \<open>Rounding keeps signs, and adding a nonpositive number never increases a double.\<close>

lemma round64_cases:
  obtains "round64 x = Fin (rnd x)" | "round64 x = PosInf" "0 < rnd x" | "round64 x = NegInf" "rnd x \<le> 0"
  unfolding round64_def Let_def by (metis linorder_not_less)

lemma round64_nonpos: "x \<le> 0 \<Longrightarrow> round64 x \<le> 0"
proof -
  assume "x \<le> 0"
  then have r: "rnd x \<le> 0" using rnd_mono [of x 0] by simp
  show ?thesis
    by (cases x rule: round64_cases) (use r in \<open>auto simp: zero_f64_def less_eq_f64_def\<close>)
qed

lemma round64_nonneg: "0 \<le> x \<Longrightarrow> 0 \<le> round64 x"
proof -
  assume "0 \<le> x"
  then have r: "0 \<le> rnd x" by (rule rnd_nonneg)
  moreover have "\<not> f64_limit \<le> 0" using f64_limit_pos by linarith
  ultimately show ?thesis
    by (auto simp: round64_def Let_def zero_f64_def less_eq_f64_def not_less)
qed

lemma round64_le: "f64_ok (Fin a) \<Longrightarrow> x \<le> a \<Longrightarrow> round64 x \<le> Fin a"
proof -
  assume a: "f64_ok (Fin a)" "x \<le> a"
  then have r: "rnd x \<le> a" using rnd_mono [of x a] by simp
  have "a < f64_limit" using a(1) by (auto simp: abs_less_iff)
  then have "rnd x < f64_limit" using r by linarith
  then show ?thesis using r
    by (auto simp: round64_def Let_def less_eq_f64_def)
qed

lemma f64_add_nonpos:
  assumes "f64_ok x" "x \<le> 0" "y \<le> 0"
  shows "f64_ok (x + y)" "x + y \<le> x" "x + y \<le> 0"
proof -
  have xy: "f64_ok (x + y) \<and> x + y \<le> x"
  proof (cases x)
    case (Fin a)
    show ?thesis
    proof (cases y)
      case (Fin b)
      then have "b \<le> 0" using assms(3) by (simp add: zero_f64_def)
      then show ?thesis using assms(1) \<open>x = Fin a\<close> Fin by (simp add: round64_le)
    qed (use assms Fin in \<open>auto simp: zero_f64_def less_eq_f64_def\<close>)
  next
    case NegInf
    then show ?thesis using assms(3) by (cases y) (auto simp: zero_f64_def less_eq_f64_def)
  qed (use assms in \<open>auto simp: zero_f64_def less_eq_f64_def\<close>)
  then show "f64_ok (x + y)" "x + y \<le> x" by simp_all
  then show "x + y \<le> 0" using assms(2) f64_le_trans by blast
qed

lemma f64_ok_0 [simp]: "f64_ok 0"
  using is_f53_int [of 0] by (simp add: zero_f64_def)

section \<open>Evaluation on literals\<close>

lemma round64_literal [simp]:
  "round64 0 = Fin 0" "round64 1 = Fin 1"
  "(numeral w :: int) \<le> 2 ^ 53 \<Longrightarrow> round64 (numeral w) = Fin (numeral w)"
  "(numeral w :: int) \<le> 2 ^ 53 \<Longrightarrow> round64 (- numeral w) = Fin (- numeral w)"
  using round64_int [of 0] round64_int [of 1] round64_int [of "numeral w"]
    round64_int [of "- numeral w"]
  by simp_all

lemma f64_ok_literal [simp]:
  "f64_ok (Fin 0)" "f64_ok (Fin 1)"
  "(numeral w :: int) \<le> 2 ^ 53 \<Longrightarrow> f64_ok (Fin (numeral w))"
  using is_f53_int [of 0] is_f53_int [of 1] is_f53_int [of "numeral w"] abs_lt_1024 [of "numeral w"]
    abs_lt_1024 [of 1]
  by simp_all

section \<open>Ranges\<close>

text \<open>\<open>x\<close> is finite and between \<open>l\<close> and \<open>u\<close>; rounding stays between doubles.\<close>

definition in_range :: "rat \<Rightarrow> rat \<Rightarrow> f64 \<Rightarrow> bool" where
  "in_range l u x \<longleftrightarrow> (case x of Fin a \<Rightarrow> l \<le> a \<and> a \<le> u | _ \<Rightarrow> False)"

definition is_double :: "rat \<Rightarrow> bool" where
  "is_double u \<longleftrightarrow> is_f53 u \<and> \<bar>u\<bar> < f64_limit"

lemma in_range_Fin [simp]: "in_range l u (Fin a) \<longleftrightarrow> l \<le> a \<and> a \<le> u"
  by (simp add: in_range_def)

lemma in_rangeE: "in_range l u x \<Longrightarrow> \<exists>a. x = Fin a \<and> l \<le> a \<and> a \<le> u"
  by (cases x) (simp_all add: in_range_def)

lemma in_range_not_NaN: "in_range l u x \<Longrightarrow> x \<noteq> NaN"
  by (auto simp: in_range_def)

lemma in_range_mono: "in_range l u x \<Longrightarrow> l' \<le> l \<Longrightarrow> u \<le> u' \<Longrightarrow> in_range l' u' x"
  by (cases x) (simp_all add: in_range_def)

lemma is_double_minus: "is_double u \<Longrightarrow> is_double (- u)"
  by (simp add: is_double_def is_f53_minus)

lemma is_double_scaled:
  "0 \<le> m \<Longrightarrow> m \<le> 2 ^ 53 \<Longrightarrow> 0 \<le> e \<Longrightarrow> e \<le> 900 \<Longrightarrow> is_double (of_int m * pow2 e)"
proof -
  assume a: "0 \<le> m" "m \<le> 2 ^ 53" "0 \<le> e" "e \<le> 900"
  have "(of_int m :: rat) \<le> of_int (2 ^ 53)" using a(2) by (simp only: of_int_le_iff)
  then have "of_int m * pow2 e \<le> of_int (2 ^ 53) * pow2 900"
    using a by (intro mult_mono) simp_all
  also have "\<dots> = of_int (2 ^ 53) * of_int (2 ^ 900)" using pow2_of_nat [of 900] by simp
  also have "\<dots> = 2 ^ 953" by (simp flip: power_add)
  finally have "of_int m * pow2 e < f64_limit" by (rule le_f64_limit) simp
  then show ?thesis using a is_f53_dyadic [of m e] by (simp add: is_double_def)
qed

lemma is_double_pow2: "0 \<le> e \<Longrightarrow> e \<le> 900 \<Longrightarrow> is_double (pow2 e)"
  using is_double_scaled [of 1 e] by simp

lemma is_double_0 [simp]: "is_double 0"
  by (simp add: is_double_def)

lemma in_range_round64:
  assumes "is_double l" "is_double u" "l \<le> a" "a \<le> u"
  shows "in_range l u (round64 a)"
proof -
  have "l \<le> rnd a" "rnd a \<le> u"
    using rnd_mono [OF assms(3)] rnd_mono [OF assms(4)] assms(1,2) by (simp_all add: is_double_def)
  moreover have "\<bar>rnd a\<bar> < f64_limit"
    using assms(1,2) calculation by (auto simp: is_double_def abs_less_iff)
  ultimately show ?thesis by (simp add: round64_def)
qed

section \<open>The square root of a positive double is positive\<close>

lemma expo_le: "0 < x \<Longrightarrow> x < pow2 (e + 1) \<Longrightarrow> expo x \<le> e"
proof -
  assume "0 < x" "x < pow2 (e + 1)"
  then have "pow2 (expo x) < pow2 (e + 1)" using expo_bounds(1) [of x] by linarith
  then show ?thesis by simp
qed

lemma isqrt_pos: "0 < n \<Longrightarrow> 0 < isqrt n"
proof (induction n rule: isqrt.induct)
  case (1 n)
  then show ?case
    using isqrt.simps [of 0] by (cases "4 \<le> n"; subst isqrt.simps) (auto simp: Let_def)
qed

lemma f53_least: "is_f53 x \<Longrightarrow> 0 < x \<Longrightarrow> pow2 (- 1074) \<le> x"
proof -
  assume "is_f53 x" "0 < x"
  then obtain m e where x: "x = of_int m * pow2 e" "- 1074 \<le> e" by (auto simp: is_f53_def)
  then have "0 < m" using \<open>0 < x\<close> pow2_pos [of e] by (auto simp: zero_less_mult_iff)
  then have "1 * pow2 (- 1074) \<le> of_int m * pow2 e" using x(2) by (intro mult_mono) simp_all
  then show ?thesis using x(1) by simp
qed

lemma sqrt_approx_lower:
  assumes "is_f53 x" "0 < x"
  shows "pow2 (- 600) \<le> sqrt_approx x"
proof -
  let ?k = "60 - expo x div 2"
  let ?y = "x * pow2 (2 * ?k)" and ?s = "int (isqrt (nat \<lfloor>x * pow2 (2 * (60 - expo x div 2))\<rfloor>))"
  have e: "- 1074 \<le> expo x" by (rule expo_ge [OF f53_least [OF assms]])
  have "pow2 0 \<le> pow2 (expo x + 2 * ?k)" unfolding pow2_le_iff by presburger
  also have "\<dots> = pow2 (expo x) * pow2 (2 * ?k)" by (rule pow2_add)
  also have "\<dots> \<le> ?y" using expo_bounds(1) [OF assms(2)] by (intro mult_right_mono) simp_all
  finally have "1 \<le> \<lfloor>?y\<rfloor>" by simp
  then have "1 \<le> ?s" using isqrt_pos [of "nat \<lfloor>?y\<rfloor>"] by simp
  then have s: "1 \<le> (if of_int (?s * ?s) = ?y then of_int ?s else of_int ?s + 1 / 2 :: rat)" by simp
  have "pow2 (- 600) \<le> pow2 (- ?k)" using e unfolding pow2_le_iff by linarith
  also have "\<dots> = 1 / pow2 ?k" using pow2_diff [of 0 ?k] by simp
  also have "\<dots> \<le> (if of_int (?s * ?s) = ?y then of_int ?s else of_int ?s + 1 / 2 :: rat) / pow2 ?k"
    using s by (intro divide_right_mono) simp_all
  finally show ?thesis by (simp only: sqrt_approx_def Let_def)
qed

lemma f64_sqrt_lower:
  assumes "is_f53 x" "0 < x"
  shows "\<exists>r. f64_sqrt (Fin x) = Fin r \<and> pow2 (- 600) \<le> r"
proof -
  have "is_f53 (pow2 (- 600))" using is_f53_dyadic [of 1 "- 600"] by simp
  then have "pow2 (- 600) \<le> rnd (sqrt_approx x)"
    using rnd_mono [OF sqrt_approx_lower [OF assms]] by simp
  then show ?thesis using assms(2) by simp
qed

section \<open>The integer square root\<close>

lemma isqrt_correct: "isqrt n * isqrt n \<le> n \<and> n < (isqrt n + 1) * (isqrt n + 1)"
proof (induction n rule: isqrt.induct)
  case (1 n)
  show ?case
  proof (cases "n = 0")
    case False
    let ?q = "isqrt (n div 4)"
    have IH: "?q * ?q \<le> n div 4" "n div 4 < (?q + 1) * (?q + 1)" using 1 False by simp_all
    have lo: "4 * (?q * ?q) \<le> n" using IH(1) by linarith
    have hi: "n < 4 * ((?q + 1) * (?q + 1))"
    proof -
      have "n div 4 + 1 \<le> (?q + 1) * (?q + 1)" using IH(2) by simp
      then show ?thesis by linarith
    qed
    show ?thesis
      by (subst (1 2 3 4) isqrt.simps) (use False lo hi in \<open>auto simp: Let_def algebra_simps\<close>)
  qed (simp add: isqrt.simps [of 0])
qed

lemma isqrt_square: "isqrt (m * m) = m"
proof -
  have "(isqrt (m * m))\<^sup>2 \<le> m\<^sup>2" "\<not> (isqrt (m * m) + 1)\<^sup>2 \<le> m\<^sup>2"
    using isqrt_correct [of "m * m"] unfolding power2_eq_square by linarith+
  then have "isqrt (m * m) \<le> m \<and> \<not> isqrt (m * m) + 1 \<le> m"
    unfolding power2_nat_le_eq_le by blast
  then show ?thesis by linarith
qed

lemma f64_sqrt_quarter: "f64_sqrt (Fin (1 / 4)) = Fin (1 / 2)"
proof -
  have e: "expo (1 / 4) = - 2" by (rule expo_unique) (simp_all add: pow2_def)
  have s: "isqrt (2 ^ 120) = 2 ^ 60" using isqrt_square [of "2 ^ 60"] by (simp flip: power_add)
  have "nat \<lfloor>1 / 4 * pow2 122\<rfloor> = 2 ^ 120" by (simp add: pow2_def)
  then have r: "sqrt_approx (1 / 4) = 1 / 2"
    using s by (simp add: sqrt_approx_def e Let_def pow2_def)
  have "is_f53 (1 / 2)" using is_f53_dyadic [of 1 "- 1"] by (simp add: pow2_def)
  then have "rnd (sqrt_approx (1 / 4)) = 1 / 2" unfolding r by (rule rnd_f53)
  then show ?thesis by simp
qed

section \<open>Relative error\<close>

lemma round64_moderate: "0 \<le> a \<Longrightarrow> a \<le> pow2 200 \<Longrightarrow> round64 a = Fin (rnd a)"
  using in_range_round64 [of 0 "pow2 200" a] is_double_pow2 [of 200]
  by (auto simp: round64_def Let_def in_range_def split: if_splits)

lemma rnd_between: "is_f53 l \<Longrightarrow> is_f53 u \<Longrightarrow> l \<le> a \<Longrightarrow> a \<le> u \<Longrightarrow> l \<le> rnd a \<and> rnd a \<le> u"
  using rnd_mono [of l a] rnd_mono [of a u] by simp

lemma is_f53_pow2: "- 1074 \<le> e \<Longrightarrow> is_f53 (pow2 e)"
  using is_f53_dyadic [of 1 e] by simp

lemma rnd_relative: "pow2 (- 1022) \<le> x \<Longrightarrow> \<bar>rnd x - x\<bar> \<le> x * pow2 (- 53)"
proof -
  assume x: "pow2 (- 1022) \<le> x"
  then have p: "0 < x" using pow2_pos [of "- 1022"] by linarith
  have "- 1022 \<le> expo x" using x by (rule expo_ge)
  then have "ulp_exp x = expo x - 52" using p by (simp add: ulp_exp_def)
  then have "pow2 (ulp_exp x) / 2 = pow2 (expo x) * pow2 (- 53)"
    using pow2_Suc [of "expo x - 53"] by (simp flip: pow2_add)
  also have "\<dots> \<le> x * pow2 (- 53)" using expo_bounds(1) [OF p] by (intro mult_right_mono) simp_all
  finally show ?thesis using rnd_error [of x] by linarith
qed

text \<open>The root of a double is at least the power of two of half its exponent.\<close>

lemma sqrt_approx_expo:
  assumes "0 < x"
  shows "pow2 (expo x div 2) \<le> sqrt_approx x"
proof -
  let ?k = "60 - expo x div 2"
  let ?y = "x * pow2 (2 * ?k)"
  let ?s = "isqrt (nat \<lfloor>?y\<rfloor>)"
  have "pow2 120 \<le> pow2 (expo x + 2 * ?k)" unfolding pow2_le_iff by presburger
  also have "\<dots> = pow2 (expo x) * pow2 (2 * ?k)" by (rule pow2_add)
  also have "\<dots> \<le> ?y" using expo_bounds(1) [OF assms] by (intro mult_right_mono) simp_all
  finally have "(of_int (2 ^ 120) :: rat) \<le> ?y" using pow2_of_nat [of 120] by simp
  then have "2 ^ 120 \<le> \<lfloor>?y\<rfloor>" by (simp only: le_floor_iff)
  then have "nat (2 ^ 60 * 2 ^ 60) \<le> nat \<lfloor>?y\<rfloor>" by (intro nat_mono) (simp only: power_add [symmetric], simp)
  then have "2 ^ 60 * 2 ^ 60 \<le> nat \<lfloor>?y\<rfloor>" by (simp add: nat_mult_distrib nat_power_eq)
  also have "\<dots> < (?s + 1) * (?s + 1)" using isqrt_correct by blast
  finally have "(2 ^ 60)\<^sup>2 < (?s + 1)\<^sup>2" unfolding power2_eq_square .
  then have "2 ^ 60 < ?s + 1" by (rule power_less_imp_less_base) simp
  then have "(of_int (2 ^ 60) :: rat) \<le> of_int (int ?s)" unfolding of_int_le_iff by simp
  then have s: "pow2 60 \<le> (if of_int (int ?s * int ?s) = ?y then of_int (int ?s) else of_int (int ?s) + 1 / 2 :: rat)"
    using pow2_of_nat [of 60] by simp
  have "pow2 (expo x div 2) = pow2 60 / pow2 ?k" using pow2_diff [of 60 ?k] by simp
  also have "\<dots> \<le> (if of_int (int ?s * int ?s) = ?y then of_int (int ?s) else of_int (int ?s) + 1 / 2 :: rat) / pow2 ?k"
    using s by (intro divide_right_mono) simp_all
  finally show ?thesis by (simp only: sqrt_approx_def Let_def)
qed

lemma f64_sqrt_at_least:
  assumes "pow2 (2 * e) \<le> x" "- 1074 \<le> e"
  shows "\<exists>r. f64_sqrt (Fin x) = Fin r \<and> pow2 e \<le> r"
proof -
  have pos: "0 < x" using assms(1) pow2_pos [of "2 * e"] by linarith
  have "2 * e \<le> expo x" using assms(1) by (rule expo_ge)
  then have "pow2 e \<le> pow2 (expo x div 2)" unfolding pow2_le_iff by presburger
  also have "\<dots> \<le> sqrt_approx x" by (rule sqrt_approx_expo [OF pos])
  finally have "pow2 e \<le> rnd (sqrt_approx x)"
    using rnd_mono [of "pow2 e" "sqrt_approx x"] rnd_f53 [OF is_f53_pow2 [OF assms(2)]] by simp
  then show ?thesis using pos by simp
qed

end
