(* ===== verification/Types.thy ===== *)
theory Types
  imports Binary64
begin

text \<open>
  \<open>include/smartquant/common/types.hpp\<close>: prices in ticks, the limit-order-book event,
  the trade signal and the order, with the source's fields and enumerators.
\<close>

section \<open>Prices\<close>

definition kPriceScale :: int where
  "kPriceScale = 100"

definition to_price :: "f64 \<Rightarrow> int" where
  "to_price d = f64_trunc (d * f64_of_int kPriceScale + Fin (1 / 2))"

definition from_price :: "int \<Rightarrow> f64" where
  "from_price p = f64_div (f64_of_int p) (f64_of_int kPriceScale)"

section \<open>Market-data events\<close>

datatype md_update_action = New | Change | Delete

datatype md_entry_type = Bid | Offer | Trade

record lob_event =
  ev_timestamp_ns :: u64
  ev_entry_id :: u64
  ev_price :: int
  ev_qty :: int
  ev_action :: md_update_action
  ev_side :: md_entry_type

section \<open>Signals and orders\<close>

datatype direction = DirNone | DirBuy | DirSell

record signal =
  sig_trigger_time_ns :: u64
  sig_l1_price :: int
  sig_delta_val :: f64
  sig_cancel_z :: f64
  sig_direction :: direction

definition signal_default :: signal where
  "signal_default = \<lparr> sig_trigger_time_ns = 0, sig_l1_price = 0, sig_delta_val = 0,
     sig_cancel_z = 0, sig_direction = DirNone \<rparr>"

datatype order_status = Pending | Sent | Filled | Rejected | Cancelled

datatype side = Buy | Sell

text \<open>\<open>clordid\<close> holds the characters of the \<open>char[32]\<close> array before its terminating zero.\<close>

record order =
  ord_clordid :: string
  ord_sent_ts_ns :: u64
  ord_fill_ts_ns :: u64
  ord_signal_l1 :: int
  ord_fill_price :: int
  ord_qty :: int
  ord_side :: side
  ord_status :: order_status

definition order_default :: order where
  "order_default = \<lparr> ord_clordid = [], ord_sent_ts_ns = 0, ord_fill_ts_ns = 0,
     ord_signal_l1 = 0, ord_fill_price = 0, ord_qty = 0, ord_side = Buy, ord_status = Pending \<rparr>"

section \<open>Prices survive the conversion to dollars and back\<close>

lemma f64_half: "\<bar>2 * m + 1\<bar> \<le> 2 ^ 53 \<Longrightarrow> Fin (of_int m) + Fin (1 / 2) = Fin (of_int m + 1 / 2)"
proof -
  assume m: "\<bar>2 * m + 1\<bar> \<le> 2 ^ 53"
  have "(of_int m + 1 / 2 :: rat) = of_int (2 * m + 1) * pow2 (- 1)"
    by (simp add: pow2_def field_simps)
  then have "is_f53 (of_int m + 1 / 2)" using is_f53_dyadic [OF m, of "- 1"] by simp
  moreover have "\<bar>of_int m + 1 / 2 :: rat\<bar> < f64_limit"
  proof -
    have "\<bar>m\<bar> \<le> 2 ^ 53 - 1" using m by (auto simp: abs_le_iff)
    then have "(of_int \<bar>m\<bar> :: rat) \<le> of_int (2 ^ 53 - 1)" by (simp only: of_int_le_iff)
    then have "\<bar>of_int m + 1 / 2 :: rat\<bar> \<le> 2 ^ 53" by (simp add: abs_le_iff)
    then show ?thesis by (rule le_f64_limit) simp
  qed
  ultimately show ?thesis by simp
qed

lemma to_price_int: "0 \<le> m \<Longrightarrow> m \<le> 2 ^ 45 \<Longrightarrow> to_price (Fin (of_int m)) = 100 * m"
proof -
  assume m: "0 \<le> m" "m \<le> 2 ^ 45"
  have "Fin (of_int m) * f64_of_int kPriceScale = Fin (of_int (m * 100))"
    using m f64_mult_int [of m 100] by (simp add: kPriceScale_def)
  moreover have "Fin (of_int (m * 100)) + Fin (1 / 2) = Fin (of_int (m * 100) + 1 / 2)"
    using m by (intro f64_half) simp
  moreover have "\<lfloor>of_int (m * 100) + 1 / 2 :: rat\<rfloor> = m * 100" by (rule floor_unique) simp_all
  ultimately show ?thesis using m by (simp add: to_price_def rat_trunc_def)
qed

text \<open>Quarters of ticks are exact, so rounding cannot push a result past one.\<close>

lemma rnd_between_quarters:
  assumes "\<bar>4 * a\<bar> + 4 \<le> 2 ^ 53" "of_int (4 * a + i) / 4 \<le> x" "x \<le> of_int (4 * a + j) / 4"
    "\<bar>i\<bar> \<le> 4" "\<bar>j\<bar> \<le> 4"
  shows "of_int (4 * a + i) / 4 \<le> rnd x \<and> rnd x \<le> of_int (4 * a + j) / 4"
proof -
  have q: "of_int n / 4 = of_int n * pow2 (- 2)" for n by (simp add: pow2_def)
  have "is_f53 (of_int (4 * a + i) / 4)" "is_f53 (of_int (4 * a + j) / 4)"
    unfolding q using assms(1,4,5) by (intro is_f53_dyadic; simp)+
  then show ?thesis using rnd_mono [OF assms(2)] rnd_mono [OF assms(3)] by simp
qed

lemma round64_small: "\<bar>rnd x\<bar> \<le> 2 ^ 53 \<Longrightarrow> round64 x = Fin (rnd x)"
  using le_f64_limit [of "\<bar>rnd x\<bar>" 53] by (simp add: round64_def)

lemma scaled_price_near:
  assumes "\<bar>p\<bar> \<le> 2 ^ 50"
  shows "\<bar>100 * rnd (of_int p / 100) - of_int p\<bar> \<le> 1 / 4"
proof (cases "p = 0")
  case False
  let ?x = "of_int p / 100 :: rat"
  have "ulp_exp ?x \<le> - 9"
  proof -
    have "(of_int \<bar>p\<bar> :: rat) \<le> of_int (2 ^ 50)" using assms by (simp only: of_int_le_iff)
    then have "\<bar>?x\<bar> < pow2 44" by (simp add: pow2_def)
    moreover have "pow2 (expo \<bar>?x\<bar>) \<le> \<bar>?x\<bar>" using False by (intro expo_bounds(1)) simp
    ultimately have "pow2 (expo \<bar>?x\<bar>) < pow2 44" by (rule order.strict_trans1 [rotated])
    then have "expo \<bar>?x\<bar> < 44" by simp
    then show ?thesis by (simp add: ulp_exp_def)
  qed
  then have "pow2 (ulp_exp ?x) \<le> pow2 (- 9)" by simp
  then have "pow2 (ulp_exp ?x) \<le> 1 / 512" by (simp add: pow2_def)
  then have "\<bar>rnd ?x - ?x\<bar> \<le> 1 / 1024" using rnd_error [of ?x] by linarith
  then show ?thesis by linarith
qed simp

lemma price_conversion:
  assumes "\<bar>p\<bar> \<le> 2 ^ 50"
  shows "\<exists>y. to_price (from_price p) = f64_trunc (Fin y) \<and> of_int p + 1 / 4 \<le> y \<and> y \<le> of_int p + 3 / 4"
proof -
  let ?x = "rnd (of_int p / 100)" and ?z = "rnd (100 * rnd (of_int p / 100))"
  have pb: "\<bar>4 * p\<bar> + 4 \<le> 2 ^ 53" using assms by simp
  have "(of_int \<bar>p\<bar> :: rat) \<le> of_int (2 ^ 50)" using assms by (simp only: of_int_le_iff)
  then have p50: "(of_int p :: rat) \<le> 1125899906842624" "- 1125899906842624 \<le> (of_int p :: rat)"
    by (simp_all add: abs_le_iff)
  have x: "\<bar>100 * ?x - of_int p\<bar> \<le> 1 / 4" by (rule scaled_price_near [OF assms])
  then have xl: "\<bar>?x\<bar> \<le> 2 ^ 53" using p50 by (simp add: abs_le_iff, linarith?)
  have z: "of_int (4 * p + - 1) / 4 \<le> ?z \<and> ?z \<le> of_int (4 * p + 1) / 4"
  proof -
    have "of_int p - 1 / 4 \<le> 100 * ?x" "100 * ?x \<le> of_int p + 1 / 4" using x by linarith+
    then show ?thesis by (intro rnd_between_quarters pb) simp_all
  qed
  then have zl: "\<bar>?z\<bar> \<le> 2 ^ 53" using p50 by (auto simp: abs_le_iff field_simps)
  let ?y = "rnd (?z + 1 / 2)"
  have y: "of_int (4 * p + 1) / 4 \<le> ?y \<and> ?y \<le> of_int (4 * p + 3) / 4"
    using z by (intro rnd_between_quarters pb) (simp_all add: field_simps)
  then have yl: "\<bar>?y\<bar> \<le> 2 ^ 53" using p50 by (auto simp: abs_le_iff field_simps)
  have "from_price p = Fin ?x"
    using assms xl by (simp add: from_price_def kPriceScale_def round64_small)
  then have "to_price (from_price p) = f64_trunc (Fin ?y)"
    using zl yl by (simp add: to_price_def kPriceScale_def round64_small mult.commute)
  then show ?thesis using y by (intro exI [of _ ?y]) (simp add: field_simps)
qed

text \<open>
  Every price of a nonnegative number of ticks up to \<open>2 ^ 50\<close> survives the conversion to
  dollars in floating point and back.
\<close>

theorem price_round_trip:
  assumes "0 \<le> p" "p \<le> 2 ^ 50"
  shows "to_price (from_price p) = p"
proof -
  obtain y where y: "to_price (from_price p) = f64_trunc (Fin y)"
      "of_int p + 1 / 4 \<le> y" "y \<le> of_int p + 3 / 4"
    using price_conversion [of p] assms by auto
  then have "\<lfloor>y\<rfloor> = p" by (intro floor_unique) linarith+
  moreover have "0 \<le> y" using y(2) assms(1) by (simp add: order_trans [of 0 "of_int p + 1 / 4"])
  ultimately show ?thesis using y(1) assms by (simp add: rat_trunc_def)
qed

theorem price_round_trip_witness: "to_price (from_price 264537) = 264537"
  by (rule price_round_trip) simp_all

text \<open>
  A negative price comes back one tick too high: the added half rounds up while the
  conversion truncates towards zero.
\<close>

theorem negative_price_shifts:
  assumes "p < 0" "- (2 ^ 50) \<le> p"
  shows "to_price (from_price p) = p + 1"
proof -
  obtain y where y: "to_price (from_price p) = f64_trunc (Fin y)"
      "of_int p + 1 / 4 \<le> y" "y \<le> of_int p + 3 / 4"
    using price_conversion [of p] assms by auto
  then have c: "\<lceil>y\<rceil> = p + 1" by (intro ceiling_unique) (simp_all add: field_simps)
  have "(of_int p :: rat) \<le> of_int (- 1)" using assms(1) by (simp only: of_int_le_iff)
  then have "y < 0" using y(3) by simp
  then show ?thesis using y(1) c assms by (simp add: rat_trunc_def)
qed

theorem negative_price_shifts_witness: "to_price (from_price (- 500)) = - 499"
  using negative_price_shifts [of "- 500"] by simp

end
