(* ===== verification/Order_Book.thy ===== *)
theory Order_Book
  imports Std_Map Types
begin

text \<open>
  \<open>OrderBook\<close> (\<open>include/smartquant/md/order_book.hpp\<close>, \<open>src/md/order_book.cpp\<close>): the
  aggregated price levels of both sides (\<open>bids_\<close>, \<open>asks_\<close>), the live entries by id
  (\<open>entries_\<close>), one update per event and the queries.  A callback invocation is a value in
  the list that an update returns; \<open>ob_on_trade\<close> and \<open>ob_on_cancel\<close> say whether the
  optional callback is set.

  The abstract view of a book is its map of live entries: \<open>agg\<close> sums their quantities
  per side and price, and \<open>book_consistent\<close> says that the levels are these sums.
\<close>

section \<open>State\<close>

record entry_info =
  ei_side :: md_entry_type
  ei_price :: int
  ei_qty :: int

record order_book =
  ob_bids :: "(int, int) smap"
  ob_asks :: "(int, int) smap"
  ob_entries :: "u64 \<rightharpoonup> entry_info"
  ob_on_trade :: bool
  ob_on_cancel :: bool

datatype book_call = TradeCall lob_event | CancelCall lob_event

definition book_empty :: order_book where
  "book_empty = \<lparr> ob_bids = [], ob_asks = [], ob_entries = Map.empty,
     ob_on_trade = False, ob_on_cancel = False \<rparr>"

section \<open>Queries\<close>

definition best_bid :: "order_book \<Rightarrow> int" where
  "best_bid b = (case smap_last (ob_bids b) of None \<Rightarrow> 0 | Some p \<Rightarrow> p)"

definition best_ask :: "order_book \<Rightarrow> int" where
  "best_ask b = (case smap_first (ob_asks b) of None \<Rightarrow> 0 | Some p \<Rightarrow> p)"

definition spread :: "order_book \<Rightarrow> int" where
  "spread b = (if best_bid b > 0 \<and> best_ask b > 0 then i64 (best_ask b - best_bid b) else 0)"

definition qty_at :: "(int, int) smap \<Rightarrow> int \<Rightarrow> int" where
  "qty_at levels p = (case map_of levels p of None \<Rightarrow> 0 | Some q \<Rightarrow> q)"

definition bid_qty_at :: "order_book \<Rightarrow> int \<Rightarrow> int" where
  "bid_qty_at b p = qty_at (ob_bids b) p"

definition ask_qty_at :: "order_book \<Rightarrow> int \<Rightarrow> int" where
  "ask_qty_at b p = qty_at (ob_asks b) p"

definition book_is_empty :: "order_book \<Rightarrow> bool" where
  "book_is_empty b \<longleftrightarrow> ob_bids b = [] \<and> ob_asks b = []"

definition bid_depth :: "order_book \<Rightarrow> nat" where
  "bid_depth b = length (ob_bids b)"

definition ask_depth :: "order_book \<Rightarrow> nat" where
  "ask_depth b = length (ob_asks b)"

definition lookup_entry :: "order_book \<Rightarrow> u64 \<Rightarrow> entry_info option" where
  "lookup_entry b eid = ob_entries b eid"

section \<open>Operations\<close>

text \<open>\<open>level_add\<close>: add to a level, removing it when nothing is left.\<close>

definition level_add :: "(int, int) smap \<Rightarrow> int \<Rightarrow> int \<Rightarrow> (int, int) smap" where
  "level_add book px delta =
     (let slot = i64 (qty_at book px + delta)
      in if slot \<le> 0 then smap_erase px book else smap_put px slot book)"

definition side_add :: "order_book \<Rightarrow> md_entry_type \<Rightarrow> int \<Rightarrow> int \<Rightarrow> order_book" where
  "side_add b s px delta =
     (case s of
        Bid \<Rightarrow> b\<lparr>ob_bids := level_add (ob_bids b) px delta\<rparr>
      | Offer \<Rightarrow> b\<lparr>ob_asks := level_add (ob_asks b) px delta\<rparr>
      | Trade \<Rightarrow> b)"

definition entry_of :: "lob_event \<Rightarrow> entry_info" where
  "entry_of ev = \<lparr> ei_side = ev_side ev, ei_price = ev_price ev, ei_qty = ev_qty ev \<rparr>"

definition put_entry :: "order_book \<Rightarrow> lob_event \<Rightarrow> order_book" where
  "put_entry b ev = side_add (b\<lparr>ob_entries := (ob_entries b)(ev_entry_id ev \<mapsto> entry_of ev)\<rparr>)
     (ev_side ev) (ev_price ev) (ev_qty ev)"

definition remove_old :: "order_book \<Rightarrow> entry_info \<Rightarrow> order_book" where
  "remove_old b old = side_add b (ei_side old) (ei_price old) (i64 (- ei_qty old))"

definition erase_entry :: "order_book \<Rightarrow> u64 \<Rightarrow> order_book" where
  "erase_entry b eid = b\<lparr>ob_entries := (ob_entries b)(eid := None)\<rparr>"

text \<open>The body of \<open>update\<close>: the new book and the callbacks invoked.\<close>

definition book_apply :: "order_book \<Rightarrow> lob_event \<Rightarrow> order_book \<times> book_call list" where
  "book_apply b ev =
     (case ev_action ev of
        New \<Rightarrow>
          if ev_qty ev \<le> 0 then (b, [])
          else (put_entry b ev, if ev_side ev = Trade \<and> ob_on_trade b then [TradeCall ev] else [])
      | Change \<Rightarrow>
          (let b1 = (case ob_entries b (ev_entry_id ev) of
                       None \<Rightarrow> b | Some old \<Rightarrow> remove_old b old)
           in (if 0 < ev_qty ev then put_entry b1 ev else erase_entry b1 (ev_entry_id ev), []))
      | Delete \<Rightarrow>
          (case ob_entries b (ev_entry_id ev) of
             None \<Rightarrow> (b, [])
           | Some old \<Rightarrow>
               (erase_entry (remove_old b old) (ev_entry_id ev),
                if ob_on_cancel b
                then [CancelCall (ev\<lparr>ev_side := ei_side old, ev_price := ei_price old,
                                    ev_qty := ei_qty old\<rparr>)]
                else [])))"

definition book_update :: "order_book \<Rightarrow> lob_event \<Rightarrow> order_book \<times> book_call list \<times> bool" where
  "book_update b ev =
     (let (b', calls) = book_apply b ev
      in (b', calls, best_bid b' \<noteq> best_bid b \<or> best_ask b' \<noteq> best_ask b))"

abbreviation book_after :: "order_book \<Rightarrow> lob_event \<Rightarrow> order_book" where
  "book_after b ev \<equiv> fst (book_apply b ev)"

definition set_trade_callback :: "order_book \<Rightarrow> order_book" where
  "set_trade_callback b = b\<lparr>ob_on_trade := True\<rparr>"

definition set_cancel_callback :: "order_book \<Rightarrow> order_book" where
  "set_cancel_callback b = b\<lparr>ob_on_cancel := True\<rparr>"

definition book_clear :: "order_book \<Rightarrow> order_book" where
  "book_clear b = b\<lparr>ob_bids := [], ob_asks := [], ob_entries := Map.empty\<rparr>"

text \<open>A stream of events.\<close>

definition book_run :: "order_book \<Rightarrow> lob_event list \<Rightarrow> order_book" where
  "book_run b evs = foldl book_after b evs"

text \<open>Callbacks only watch: setting one commutes with every event.\<close>

lemma callbacks_only_watch:
  "book_after (set_trade_callback b) ev = set_trade_callback (book_after b ev)"
  "book_after (set_cancel_callback b) ev = set_cancel_callback (book_after b ev)"
  by (auto simp: set_trade_callback_def set_cancel_callback_def book_apply_def put_entry_def remove_old_def
      erase_entry_def side_add_def Let_def split: md_update_action.splits md_entry_type.splits option.splits)

section \<open>Levels are sorted and positive\<close>

definition levels_ok :: "(int, int) smap \<Rightarrow> bool" where
  "levels_ok m \<longleftrightarrow> smap_wf m \<and> (\<forall>q \<in> snd ` set m. 0 < q \<and> q \<le> i64_max)"

definition book_wf :: "order_book \<Rightarrow> bool" where
  "book_wf b \<longleftrightarrow> levels_ok (ob_bids b) \<and> levels_ok (ob_asks b)"

lemma levels_ok_lookup: "levels_ok m \<Longrightarrow> map_of m p = Some q \<Longrightarrow> 0 < q \<and> q \<le> i64_max"
  by (force simp: levels_ok_def dest: map_of_SomeD)

lemma levels_ok_iff:
  "levels_ok m \<longleftrightarrow> smap_wf m \<and> (\<forall>p q. map_of m p = Some q \<longrightarrow> 0 < q \<and> q \<le> i64_max)"
proof
  assume "levels_ok m"
  then show "smap_wf m \<and> (\<forall>p q. map_of m p = Some q \<longrightarrow> 0 < q \<and> q \<le> i64_max)"
    using levels_ok_lookup levels_ok_def by blast
next
  assume r: "smap_wf m \<and> (\<forall>p q. map_of m p = Some q \<longrightarrow> 0 < q \<and> q \<le> i64_max)"
  have "0 < snd kv \<and> snd kv \<le> i64_max" if "kv \<in> set m" for kv
  proof -
    have "distinct (map fst m)" using r smap_wf_distinct by blast
    with that have "map_of m (fst kv) = Some (snd kv)" by simp
    with r show ?thesis by blast
  qed
  with r show "levels_ok m" unfolding levels_ok_def by blast
qed

lemma level_add_lookup:
  "levels_ok m \<Longrightarrow> map_of (level_add m px d) = (map_of m)(px :=
     (if 0 < i64 (qty_at m px + d) then Some (i64 (qty_at m px + d)) else None))"
  by (simp add: level_add_def Let_def levels_ok_def map_of_smap_put map_of_smap_erase)

lemma level_add_ok [wf_intros]:
  assumes "levels_ok m" shows "levels_ok (level_add m px d)"
proof -
  have "smap_wf (level_add m px d)"
    using assms by (simp add: level_add_def Let_def levels_ok_def smap_put_wf smap_erase_wf)
  moreover have "0 < q \<and> q \<le> i64_max" if "map_of (level_add m px d) p = Some q" for p q
    using that levels_ok_lookup [OF assms] i64_upper
    unfolding level_add_lookup [OF assms] by (auto split: if_splits)
  ultimately show ?thesis unfolding levels_ok_iff by blast
qed

lemma side_add_wf [wf_intros]: "book_wf b \<Longrightarrow> book_wf (side_add b s px d)"
  by (cases s) (simp_all add: side_add_def book_wf_def level_add_ok)

lemma side_add_frame [simp]:
  "ob_entries (side_add b s px d) = ob_entries b"
  "ob_on_trade (side_add b s px d) = ob_on_trade b"
  "ob_on_cancel (side_add b s px d) = ob_on_cancel b"
  by (cases s; simp add: side_add_def)+

lemma entries_only_wf [simp]: "book_wf (b\<lparr>ob_entries := es\<rparr>) = book_wf b"
  by (simp add: book_wf_def)

lemma put_entry_wf [wf_intros]: "book_wf b \<Longrightarrow> book_wf (put_entry b ev)"
  by (simp add: put_entry_def side_add_wf)

lemma remove_old_wf [wf_intros]: "book_wf b \<Longrightarrow> book_wf (remove_old b old)"
  by (simp add: remove_old_def side_add_wf)

lemma erase_entry_wf [wf_intros]: "book_wf b \<Longrightarrow> book_wf (erase_entry b eid)"
  by (simp add: erase_entry_def)

lemma book_empty_wf [wf_intros]: "book_wf book_empty"
  by (simp add: book_wf_def book_empty_def levels_ok_def)

lemma book_after_wf [wf_intros]: "book_wf b \<Longrightarrow> book_wf (book_after b ev)"
  by (cases "ev_action ev")
    (auto simp: book_apply_def Let_def split: option.splits intro: wf_intros)

lemma book_run_wf [wf_intros]: "book_wf b \<Longrightarrow> book_wf (book_run b evs)"
  unfolding book_run_def by (induction evs arbitrary: b) (auto intro: wf_intros)

section \<open>Levels are the sums of the live entries\<close>

definition contrib :: "md_entry_type \<Rightarrow> int \<Rightarrow> entry_info \<Rightarrow> int" where
  "contrib s p e = (if ei_side e = s \<and> ei_price e = p then ei_qty e else 0)"

definition agg :: "(u64 \<rightharpoonup> entry_info) \<Rightarrow> md_entry_type \<Rightarrow> int \<Rightarrow> int" where
  "agg es s p = (\<Sum>k\<in>dom es. contrib s p (the (es k)))"

text \<open>The levels of a book display the quantities \<open>f\<close>.\<close>

definition displays :: "order_book \<Rightarrow> (md_entry_type \<Rightarrow> int \<Rightarrow> int) \<Rightarrow> bool" where
  "displays b f \<longleftrightarrow> book_wf b \<and> (\<forall>p. bid_qty_at b p = f Bid p) \<and> (\<forall>p. ask_qty_at b p = f Offer p)"

definition entries_ok :: "(u64 \<rightharpoonup> entry_info) \<Rightarrow> bool" where
  "entries_ok es \<longleftrightarrow> finite (dom es) \<and> (\<forall>k e. es k = Some e \<longrightarrow> 0 < ei_qty e \<and> ei_qty e \<le> i64_max)"

definition book_consistent :: "order_book \<Rightarrow> bool" where
  "book_consistent b \<longleftrightarrow> entries_ok (ob_entries b) \<and> displays b (agg (ob_entries b))"

text \<open>No sum of live quantities leaves the range of \<open>Qty\<close>.\<close>

definition fits :: "(u64 \<rightharpoonup> entry_info) \<Rightarrow> bool" where
  "fits es \<longleftrightarrow> (\<forall>s p. s \<noteq> Trade \<longrightarrow> agg es s p \<le> i64_max)"

lemma agg_upd:
  "finite (dom es) \<Longrightarrow> agg (es(k \<mapsto> e)) s p
     = agg es s p - (case es k of None \<Rightarrow> 0 | Some old \<Rightarrow> contrib s p old) + contrib s p e"
  unfolding agg_def by (rule sum_map_upd)

lemma agg_del:
  "finite (dom es) \<Longrightarrow> agg (es(k := None)) s p
     = agg es s p - (case es k of None \<Rightarrow> 0 | Some old \<Rightarrow> contrib s p old)"
  unfolding agg_def by (rule sum_map_del)

lemma contrib_nonneg: "entries_ok es \<Longrightarrow> es k = Some e \<Longrightarrow> 0 \<le> contrib s p e"
  by (auto simp: entries_ok_def contrib_def intro: less_imp_le)

lemma agg_nonneg: "entries_ok es \<Longrightarrow> 0 \<le> agg es s p"
  unfolding agg_def by (intro sum_nonneg) (auto intro: contrib_nonneg)

lemma agg_ge_contrib: "entries_ok es \<Longrightarrow> es k = Some e \<Longrightarrow> contrib s p e \<le> agg es s p"
proof -
  assume a: "entries_ok es" "es k = Some e"
  have "entries_ok (es(k := None))" using a(1) by (auto simp: entries_ok_def)
  then have "0 \<le> agg (es(k := None)) s p" by (rule agg_nonneg)
  with a show ?thesis by (simp add: agg_del entries_ok_def)
qed

lemma entries_ok_upd: "entries_ok es \<Longrightarrow> 0 < ei_qty e \<Longrightarrow> ei_qty e \<le> i64_max \<Longrightarrow> entries_ok (es(k \<mapsto> e))"
  by (auto simp: entries_ok_def)

lemma entries_ok_del: "entries_ok es \<Longrightarrow> entries_ok (es(k := None))"
  by (auto simp: entries_ok_def)

lemma qty_at_level_add:
  "levels_ok m \<Longrightarrow> 0 \<le> qty_at m px + d \<Longrightarrow> qty_at m px + d \<le> i64_max
    \<Longrightarrow> qty_at (level_add m px d) p = qty_at m p + (if p = px then d else 0)"
  by (simp add: qty_at_def [of "level_add m px d"] level_add_lookup) (simp add: qty_at_def)

lemma side_add_displays:
  assumes "displays b f" "s \<noteq> Trade \<Longrightarrow> 0 \<le> f s px + d \<and> f s px + d \<le> i64_max"
  shows "displays (side_add b s px d) (\<lambda>s' p. f s' p + (if s' = s \<and> p = px then d else 0))"
  using assms
  by (cases s)
    (simp_all add: displays_def side_add_def book_wf_def bid_qty_at_def ask_qty_at_def
      qty_at_level_add level_add_ok)

lemma displays_entries [simp]: "displays (b\<lparr>ob_entries := es\<rparr>) f = displays b f"
  by (simp add: displays_def bid_qty_at_def ask_qty_at_def)

lemma put_entry_displays:
  assumes "displays b f"
    and "ev_side ev \<noteq> Trade \<Longrightarrow> 0 \<le> f (ev_side ev) (ev_price ev)"
    and "0 \<le> ev_qty ev"
    and "ev_side ev \<noteq> Trade \<Longrightarrow> f (ev_side ev) (ev_price ev) + ev_qty ev \<le> i64_max"
  shows "displays (put_entry b ev) (\<lambda>s p. f s p + contrib s p (entry_of ev))"
proof -
  have c: "contrib s p (entry_of ev) = (if s = ev_side ev \<and> p = ev_price ev then ev_qty ev else 0)"
    for s p by (auto simp: contrib_def entry_of_def)
  let ?b = "b\<lparr>ob_entries := (ob_entries b)(ev_entry_id ev \<mapsto> entry_of ev)\<rparr>"
  have "displays (side_add ?b (ev_side ev) (ev_price ev) (ev_qty ev))
      (\<lambda>s p. f s p + (if s = ev_side ev \<and> p = ev_price ev then ev_qty ev else 0))"
    using assms by (intro side_add_displays) auto
  then show ?thesis by (simp add: put_entry_def c)
qed

lemma remove_old_displays:
  assumes "displays b (agg es)" "entries_ok es" "es k = Some old" "fits es"
  shows "displays (remove_old b old) (\<lambda>s p. agg es s p - contrib s p old)"
proof -
  have q: "0 < ei_qty old" "ei_qty old \<le> i64_max"
    using assms by (auto simp: entries_ok_def)
  then have n: "i64 (- ei_qty old) = - ei_qty old" by simp
  have "contrib (ei_side old) (ei_price old) old \<le> agg es (ei_side old) (ei_price old)"
    using assms by (intro agg_ge_contrib)
  moreover have "ei_side old \<noteq> Trade \<Longrightarrow> agg es (ei_side old) (ei_price old) \<le> i64_max"
    using assms(4) unfolding fits_def by blast
  ultimately have "displays (side_add b (ei_side old) (ei_price old) (- ei_qty old))
      (\<lambda>s p. agg es s p + (if s = ei_side old \<and> p = ei_price old then - ei_qty old else 0))"
    using assms(1) q by (intro side_add_displays) (auto simp: contrib_def)
  moreover have "(if s = ei_side old \<and> p = ei_price old then - ei_qty old else 0)
      = - contrib s p old" for s p by (auto simp: contrib_def)
  ultimately show ?thesis by (simp add: remove_old_def n)
qed

lemma put_entry_entries [simp]:
  "ob_entries (put_entry b ev) = (ob_entries b)(ev_entry_id ev \<mapsto> entry_of ev)"
  by (simp add: put_entry_def)

lemma remove_old_entries [simp]: "ob_entries (remove_old b old) = ob_entries b"
  by (simp add: remove_old_def)

lemma erase_entry_entries [simp]: "ob_entries (erase_entry b k) = (ob_entries b)(k := None)"
  by (simp add: erase_entry_def)

lemma displays_erase [simp]: "displays (erase_entry b k) f = displays b f"
  by (simp add: erase_entry_def)

lemma displays_cong: "displays b f \<Longrightarrow> (\<And>s p. f s p = g s p) \<Longrightarrow> displays b g"
  by (simp add: displays_def)

lemma qty_at_nonneg: "levels_ok m \<Longrightarrow> 0 \<le> qty_at m p"
  unfolding qty_at_def by (cases "map_of m p") (auto dest: levels_ok_lookup intro: less_imp_le)

lemma qty_at_upper: "levels_ok m \<Longrightarrow> qty_at m p \<le> i64_max"
  unfolding qty_at_def by (cases "map_of m p") (auto dest: levels_ok_lookup)

lemma consistent_fits: "book_consistent b \<Longrightarrow> fits (ob_entries b)"
proof -
  assume "book_consistent b"
  then have d: "displays b (agg (ob_entries b))" by (simp add: book_consistent_def)
  have "agg (ob_entries b) s p \<le> i64_max" if "s \<noteq> Trade" for s p
    using d that qty_at_upper [of "ob_bids b" p] qty_at_upper [of "ob_asks b" p]
    by (cases s) (simp_all add: displays_def book_wf_def bid_qty_at_def ask_qty_at_def)
  then show ?thesis by (simp add: fits_def)
qed

text \<open>Replacing or adding the entry of an id, once its old contribution is out of the levels.\<close>

lemma put_entry_consistent:
  assumes "entries_ok (ob_entries b)" "0 < ev_qty ev" "ev_qty ev \<le> i64_max"
    and d: "displays b (\<lambda>s p. agg (ob_entries b) s p
          - (case ob_entries b (ev_entry_id ev) of None \<Rightarrow> 0 | Some old \<Rightarrow> contrib s p old))"
    and f: "fits ((ob_entries b)(ev_entry_id ev \<mapsto> entry_of ev))"
  shows "book_consistent (put_entry b ev)"
proof -
  let ?es = "ob_entries b" and ?k = "ev_entry_id ev"
  let ?f = "\<lambda>s p. agg ?es s p - (case ?es ?k of None \<Rightarrow> 0 | Some old \<Rightarrow> contrib s p old)"
  have fin: "finite (dom ?es)" using assms(1) by (simp add: entries_ok_def)
  have up: "?f s p + contrib s p (entry_of ev) = agg (?es(?k \<mapsto> entry_of ev)) s p" for s p
    by (simp add: agg_upd [OF fin])
  have c: "contrib (ev_side ev) (ev_price ev) (entry_of ev) = ev_qty ev"
    by (simp add: contrib_def entry_of_def)
  have "0 \<le> ?f s p" for s p
    using agg_nonneg [OF assms(1)] agg_ge_contrib [OF assms(1)] by (auto split: option.splits)
  moreover have "ev_side ev \<noteq> Trade \<Longrightarrow> ?f (ev_side ev) (ev_price ev) + ev_qty ev \<le> i64_max"
    using f up [of "ev_side ev" "ev_price ev"] c by (simp add: fits_def)
  ultimately have "displays (put_entry b ev) (\<lambda>s p. ?f s p + contrib s p (entry_of ev))"
    using assms(2) d by (intro put_entry_displays) auto
  then have "displays (put_entry b ev) (agg (?es(?k \<mapsto> entry_of ev)))"
    by (rule displays_cong) (rule up)
  moreover have "entries_ok (?es(?k \<mapsto> entry_of ev))"
    using assms(1-3) by (intro entries_ok_upd) (simp_all add: entry_of_def)
  ultimately show ?thesis by (simp add: book_consistent_def)
qed

lemma remove_old_consistent:
  assumes "book_consistent b" "ob_entries b k = Some old"
  shows "displays (remove_old b old) (\<lambda>s p. agg (ob_entries b) s p - contrib s p old)"
  using assms consistent_fits [OF assms(1)]
  by (intro remove_old_displays) (auto simp: book_consistent_def)

lemma erase_consistent:
  assumes "book_consistent b" "ob_entries b k = Some old"
  shows "book_consistent (erase_entry (remove_old b old) k)"
proof -
  have ok: "entries_ok (ob_entries b)" using assms by (simp add: book_consistent_def)
  have "displays (remove_old b old) (agg ((ob_entries b)(k := None)))"
    using ok assms(2)
    by (intro displays_cong [OF remove_old_consistent [OF assms]])
      (simp add: agg_del entries_ok_def)
  with ok show ?thesis by (simp add: book_consistent_def entries_ok_del)
qed

text \<open>A \<open>New\<close> event of an id that is not live: what the feed must respect.\<close>

definition fresh_new :: "order_book \<Rightarrow> lob_event \<Rightarrow> bool" where
  "fresh_new b ev \<longleftrightarrow> (ev_action ev = New \<longrightarrow> ob_entries b (ev_entry_id ev) = None)"

text \<open>
  Simulation of the entry map by the levels: one update keeps the aggregation, provided a
  \<open>New\<close> event carries an id that is not live and the sums stay in range.
\<close>

lemma book_after_consistent:
  assumes "book_consistent b" and "fresh_new b ev" and "ev_qty ev \<le> i64_max"
    and "fits (ob_entries (book_after b ev))"
  shows "book_consistent (book_after b ev)"
proof (cases "ev_action ev")
  case New
  have d: "displays b (agg (ob_entries b))" and ok: "entries_ok (ob_entries b)"
    using assms(1) by (simp_all add: book_consistent_def)
  have none: "ob_entries b (ev_entry_id ev) = None" using assms(2) New by (simp add: fresh_new_def)
  have "book_consistent (put_entry b ev)" if "0 < ev_qty ev"
    using that assms(3,4) New ok d none
    by (intro put_entry_consistent) (simp_all add: book_apply_def)
  then show ?thesis using assms(1) New by (simp add: book_apply_def)
next
  case Change
  have d: "displays b (agg (ob_entries b))" and ok: "entries_ok (ob_entries b)"
    using assms(1) by (simp_all add: book_consistent_def)
  show ?thesis
  proof (cases "ob_entries b (ev_entry_id ev)")
    case None
    then have "(ob_entries b)(ev_entry_id ev := None) = ob_entries b" by auto
    then have "book_consistent (erase_entry b (ev_entry_id ev))"
      using d ok by (simp add: book_consistent_def)
    moreover have "book_consistent (put_entry b ev)" if "0 < ev_qty ev"
      using that assms(3,4) Change ok d None
      by (intro put_entry_consistent) (simp_all add: book_apply_def)
    ultimately show ?thesis using Change None by (simp add: book_apply_def)
  next
    case (Some old)
    note r = remove_old_consistent [OF assms(1) Some]
    have "book_consistent (put_entry (remove_old b old) ev)" if "0 < ev_qty ev"
      using that assms(3,4) Change ok r Some
      by (intro put_entry_consistent) (simp_all add: book_apply_def)
    then show ?thesis
      using erase_consistent [OF assms(1) Some] Change Some by (simp add: book_apply_def Let_def)
  qed
next
  case Delete
  then show ?thesis using assms(1) erase_consistent [OF assms(1)]
    by (auto simp: book_apply_def split: option.splits)
qed

section \<open>A whole feed\<close>

definition total_qty :: "(u64 \<rightharpoonup> entry_info) \<Rightarrow> int" where
  "total_qty es = (\<Sum>k\<in>dom es. ei_qty (the (es k)))"

lemma total_upd: "finite (dom es) \<Longrightarrow> total_qty (es(k \<mapsto> e))
    = total_qty es - (case es k of None \<Rightarrow> 0 | Some old \<Rightarrow> ei_qty old) + ei_qty e"
  unfolding total_qty_def by (rule sum_map_upd)

lemma total_del: "finite (dom es) \<Longrightarrow> total_qty (es(k := None))
    = total_qty es - (case es k of None \<Rightarrow> 0 | Some old \<Rightarrow> ei_qty old)"
  unfolding total_qty_def by (rule sum_map_del)

lemma agg_le_total: "entries_ok es \<Longrightarrow> agg es s p \<le> total_qty es"
  unfolding agg_def total_qty_def
  by (intro sum_mono) (auto simp: contrib_def entries_ok_def intro: less_imp_le)

text \<open>What one event adds to the live quantity at most.\<close>

definition ev_volume :: "lob_event \<Rightarrow> int" where
  "ev_volume ev = max 0 (ev_qty ev)"

lemma old_qty_nonneg:
  "entries_ok es \<Longrightarrow> 0 \<le> (case es k of None \<Rightarrow> 0 | Some old \<Rightarrow> ei_qty old)"
  by (auto simp: entries_ok_def split: option.splits intro: less_imp_le)

lemma book_after_entries:
  "ob_entries (book_after b ev) =
     (if ev_action ev \<noteq> Delete \<and> 0 < ev_qty ev then (ob_entries b)(ev_entry_id ev \<mapsto> entry_of ev)
      else if ev_action ev = New then ob_entries b
      else (ob_entries b)(ev_entry_id ev := None))"
  by (cases "ev_action ev")
    (auto simp: book_apply_def Let_def fun_eq_iff split: option.splits)

lemma book_after_total:
  assumes "entries_ok (ob_entries b)"
  shows "total_qty (ob_entries (book_after b ev)) \<le> total_qty (ob_entries b) + ev_volume ev"
proof -
  let ?old = "case ob_entries b (ev_entry_id ev) of None \<Rightarrow> 0 | Some old \<Rightarrow> ei_qty old"
  have old: "0 \<le> ?old" by (rule old_qty_nonneg [OF assms])
  have fin: "finite (dom (ob_entries b))" using assms by (simp add: entries_ok_def)
  have vol: "0 \<le> ev_volume ev" "ev_qty ev \<le> ev_volume ev" by (simp_all add: ev_volume_def)
  have "total_qty ((ob_entries b)(ev_entry_id ev \<mapsto> entry_of ev))
      = total_qty (ob_entries b) - ?old + ev_qty ev"
    by (simp add: total_upd [OF fin] entry_of_def)
  moreover have "total_qty ((ob_entries b)(ev_entry_id ev := None)) = total_qty (ob_entries b) - ?old"
    by (rule total_del [OF fin])
  ultimately show ?thesis using old vol unfolding book_after_entries by auto
qed

lemma book_after_entries_ok:
  assumes "entries_ok (ob_entries b)" "ev_qty ev \<le> i64_max"
  shows "entries_ok (ob_entries (book_after b ev))"
  using assms
  by (simp add: book_after_entries entries_ok_upd entries_ok_del entry_of_def)

fun feed_fresh :: "order_book \<Rightarrow> lob_event list \<Rightarrow> bool" where
  "feed_fresh b [] = True"
| "feed_fresh b (ev # evs) = (fresh_new b ev \<and> feed_fresh (book_after b ev) evs)"

lemma feed_volume_nonneg: "0 \<le> sum_list (map ev_volume evs)"
  by (intro sum_list_nonneg) (auto simp: ev_volume_def)

lemma book_run_consistent_from:
  assumes "book_consistent b" "feed_fresh b evs"
    and "total_qty (ob_entries b) + sum_list (map ev_volume evs) \<le> i64_max"
  shows "book_consistent (book_run b evs)"
  using assms
proof (induction evs arbitrary: b)
  case Nil
  then show ?case by (simp add: book_run_def)
next
  case (Cons ev evs)
  have ok: "entries_ok (ob_entries b)" using Cons.prems(1) by (simp add: book_consistent_def)
  have v: "ev_volume ev + sum_list (map ev_volume evs) = sum_list (map ev_volume (ev # evs))" by simp
  have "0 \<le> total_qty (ob_entries b)"
    using agg_le_total [OF ok, of Bid 0] agg_nonneg [OF ok, of Bid 0] by linarith
  then have "ev_volume ev \<le> i64_max"
    using Cons.prems(3) v feed_volume_nonneg [of evs] by linarith
  then have q: "ev_qty ev \<le> i64_max" by (simp add: ev_volume_def)
  have tot: "total_qty (ob_entries (book_after b ev)) + sum_list (map ev_volume evs) \<le> i64_max"
    using book_after_total [OF ok, of ev] Cons.prems(3) v by linarith
  have "total_qty (ob_entries (book_after b ev)) \<le> i64_max"
    using tot feed_volume_nonneg [of evs] by linarith
  then have "fits (ob_entries (book_after b ev))"
    unfolding fits_def
    using agg_le_total [OF book_after_entries_ok [OF ok q]] order_trans by blast
  then have "book_consistent (book_after b ev)"
    using Cons.prems q by (intro book_after_consistent) simp_all
  then have "book_consistent (book_run (book_after b ev) evs)"
    using Cons.prems(2) tot by (intro Cons.IH) simp_all
  then show ?case by (simp add: book_run_def)
qed

lemma book_empty_consistent [wf_intros]: "book_consistent book_empty"
  by (simp add: book_consistent_def entries_ok_def book_empty_def displays_def book_wf_def
      levels_ok_def bid_qty_at_def ask_qty_at_def qty_at_def agg_def)

text \<open>
  C1: From an empty book, any feed in which a \<open>New\<close> event never reuses a live id and whose
  volumes add up to less than \<open>2 ^ 63\<close> leaves the book consistent: sorted positive levels
  that are the sums of the live entries.
\<close>

theorem book_run_consistent:
  assumes "feed_fresh book_empty evs" and "sum_list (map ev_volume evs) \<le> i64_max"
  shows "book_consistent (book_run book_empty evs)"
proof -
  have "total_qty (ob_entries book_empty) = 0" by (simp add: total_qty_def book_empty_def)
  then show ?thesis using assms by (intro book_run_consistent_from) (auto intro: wf_intros)
qed

section \<open>Best prices\<close>

definition live_prices :: "order_book \<Rightarrow> md_entry_type \<Rightarrow> int set" where
  "live_prices b s = {ei_price e | k e. ob_entries b k = Some e \<and> ei_side e = s}"

lemma agg_pos_iff:
  assumes "entries_ok es"
  shows "0 < agg es s p \<longleftrightarrow> (\<exists>k e. es k = Some e \<and> ei_side e = s \<and> ei_price e = p)"
proof
  assume pos: "0 < agg es s p"
  then obtain k where k: "k \<in> dom es" "contrib s p (the (es k)) \<noteq> 0"
    unfolding agg_def by (metis less_irrefl sum.neutral)
  then obtain e where "es k = Some e" by blast
  moreover from this k have "ei_side e = s \<and> ei_price e = p"
    by (auto simp: contrib_def split: if_splits)
  ultimately show "\<exists>k e. es k = Some e \<and> ei_side e = s \<and> ei_price e = p" by blast
next
  assume "\<exists>k e. es k = Some e \<and> ei_side e = s \<and> ei_price e = p"
  then obtain k e where e: "es k = Some e" "ei_side e = s" "ei_price e = p" by blast
  then have "contrib s p e \<le> agg es s p" using assms by (intro agg_ge_contrib)
  moreover have "0 < ei_qty e" using e assms unfolding entries_ok_def by blast
  ultimately show "0 < agg es s p" using e by (simp add: contrib_def)
qed

lemma levels_dom: "levels_ok m \<Longrightarrow> dom (map_of m) = {p. 0 < qty_at m p}"
  by (auto simp: qty_at_def split: option.splits dest: levels_ok_lookup)

lemma live_prices_dom:
  assumes "book_consistent b"
  shows "dom (map_of (ob_bids b)) = live_prices b Bid" "dom (map_of (ob_asks b)) = live_prices b Offer"
  using assms agg_pos_iff [of "ob_entries b"]
  by (auto simp: book_consistent_def displays_def book_wf_def levels_dom live_prices_def
      bid_qty_at_def ask_qty_at_def)

text \<open>
  In a consistent book, \<open>best_bid\<close> is the highest price of a live bid and \<open>best_ask\<close>
  the lowest price of a live offer, and each is 0 exactly when its side has no live entry
  to report.
\<close>

theorem best_prices:
  assumes "book_consistent b"
  shows "best_bid b = (if live_prices b Bid = {} then 0 else Max (live_prices b Bid)) \<and>
    best_ask b = (if live_prices b Offer = {} then 0 else Min (live_prices b Offer))"
proof
  have wf: "smap_wf (ob_bids b)" "smap_wf (ob_asks b)"
    using assms by (simp_all add: book_consistent_def displays_def book_wf_def levels_ok_def)
  show "best_bid b = (if live_prices b Bid = {} then 0 else Max (live_prices b Bid))"
    using smap.final_is_greatest [OF wf(1)] live_prices_dom(1) [OF assms]
    by (simp add: best_bid_def)
  show "best_ask b = (if live_prices b Offer = {} then 0 else Min (live_prices b Offer))"
    using smap.first_is_least [OF wf(2)] live_prices_dom(2) [OF assms]
    by (simp add: best_ask_def)
qed

section \<open>Insertion and deletion\<close>

lemma level_add_cancel:
  assumes "levels_ok m" "0 < q" "qty_at m px + q \<le> i64_max"
  shows "level_add (level_add m px q) px (i64 (- q)) = m"
proof -
  have q0: "0 \<le> qty_at m px"
    using assms(1) by (rule qty_at_nonneg)
  then have n: "i64 (- q) = - q" using assms by simp
  let ?m1 = "level_add m px q"
  have ok: "levels_ok ?m1" using assms(1) by (rule level_add_ok)
  have add: "qty_at ?m1 px = qty_at m px + q"
    using q0 assms by (simp add: qty_at_level_add)
  have id: "i64 (qty_at m px) = qty_at m px" "i64 (qty_at m px + q) = qty_at m px + q"
    using q0 assms by simp_all
  have "map_of (level_add ?m1 px (- q)) p = map_of m p" for p
    using level_add_lookup [OF ok, of px "- q"] level_add_lookup [OF assms(1), of px q] add id q0
      levels_ok_lookup [OF assms(1), of px] assms(2)
    by (cases "map_of m px") (auto simp: qty_at_def)
  then have "map_of (level_add ?m1 px (- q)) = map_of m" by blast
  then show ?thesis
    using smap_ext level_add_ok [OF ok] assms(1) n unfolding levels_ok_def by metis
qed

lemma book_after_New: "ev_action ev = New \<Longrightarrow> 0 < ev_qty ev \<Longrightarrow> book_after b ev = put_entry b ev"
  by (simp add: book_apply_def)

lemma book_after_Delete: "ev_action ev = Delete \<Longrightarrow> ob_entries b (ev_entry_id ev) = Some old
    \<Longrightarrow> book_after b ev = erase_entry (remove_old b old) (ev_entry_id ev)"
  by (simp add: book_apply_def)

lemma side_add_entries: "side_add (b\<lparr>ob_entries := es\<rparr>) s px d = (side_add b s px d)\<lparr>ob_entries := es\<rparr>"
  by (cases s) (simp_all add: side_add_def)

lemma side_add_cancel:
  assumes "book_wf b" "0 < q"
    and "s = Bid \<Longrightarrow> bid_qty_at b px + q \<le> i64_max" "s = Offer \<Longrightarrow> ask_qty_at b px + q \<le> i64_max"
  shows "side_add (side_add b s px q) s px (i64 (- q)) = b"
  using assms
  by (cases s)
    (simp_all add: side_add_def book_wf_def bid_qty_at_def ask_qty_at_def level_add_cancel)

text \<open>
  Inserting an order under an unused id and deleting that id gives back exactly the
  book there was: same levels on both sides, same entries, whatever the deletion message
  says about side, price and quantity.
\<close>

theorem new_then_delete:
  assumes "book_wf b" and "ob_entries b k = None" and "0 < ev_qty ev"
    and "bid_qty_at b (ev_price ev) + ev_qty ev \<le> i64_max"
    and "ask_qty_at b (ev_price ev) + ev_qty ev \<le> i64_max"
    and "ev_action ev = New" "ev_entry_id ev = k" "ev_action del = Delete" "ev_entry_id del = k"
  shows "book_after (book_after b ev) del = b"
proof -
  let ?b1 = "side_add b (ev_side ev) (ev_price ev) (ev_qty ev)"
  have 1: "book_after b ev = ?b1\<lparr>ob_entries := (ob_entries b)(k \<mapsto> entry_of ev)\<rparr>"
    using assms by (simp add: book_after_New put_entry_def side_add_entries)
  then have 2: "ob_entries (book_after b ev) (ev_entry_id del) = Some (entry_of ev)"
    using assms(9) by simp
  have "side_add ?b1 (ev_side ev) (ev_price ev) (i64 (- ev_qty ev)) = b"
    using assms by (intro side_add_cancel) auto
  moreover have "((ob_entries b)(k \<mapsto> entry_of ev))(k := None) = ob_entries b"
    using assms(2) by auto
  ultimately show ?thesis
    using assms(9) unfolding book_after_Delete [OF assms(8) 2]
    by (simp add: 1 remove_old_def erase_entry_def entry_of_def side_add_entries)
qed

text \<open>
  A \<open>New\<close> event that reuses the id of a live bid at another price overwrites the entry
  without taking its old quantity out of the levels.  Deleting the id afterwards removes
  only the new quantity: the old level keeps displaying the old quantity, which no entry
  backs any more.
\<close>

theorem new_on_live_id_leaves_phantom:
  assumes "book_consistent b" and "ob_entries b k = Some old"
    and "ei_side old = Bid" "ei_price old \<noteq> ev_price ev"
    and "ev_action ev = New" "ev_entry_id ev = k" "ev_side ev = Bid" "0 < ev_qty ev"
    and "ev_action del = Delete" "ev_entry_id del = k"
  shows "bid_qty_at (book_after (book_after b ev) del) (ei_price old)
       = agg (ob_entries (book_after (book_after b ev) del)) Bid (ei_price old) + ei_qty old
       \<and> 0 < ei_qty old"
proof
  let ?p = "ei_price old"
  have ok: "entries_ok (ob_entries b)" and wf: "levels_ok (ob_bids b)"
    and d: "\<And>p. bid_qty_at b p = agg (ob_entries b) Bid p"
    using assms(1) by (simp_all add: book_consistent_def displays_def book_wf_def)
  let ?b2 = "book_after (book_after b ev) del"
  have other: "qty_at (level_add m p' x) ?p = qty_at m ?p" if "p' \<noteq> ?p" "levels_ok m" for m p' x
    using that by (simp add: qty_at_def [of "level_add m p' x"] level_add_lookup) (simp add: qty_at_def)
  have 1: "book_after b ev = put_entry b ev" using assms by (simp add: book_after_New)
  then have 2: "ob_entries (book_after b ev) (ev_entry_id del) = Some (entry_of ev)"
    using assms by simp
  have "bid_qty_at ?b2 ?p = bid_qty_at b ?p"
    unfolding book_after_Delete [OF assms(9) 2] unfolding 1
    using assms(3,4,7) other level_add_ok [OF wf] wf
    by (simp add: bid_qty_at_def put_entry_def remove_old_def erase_entry_def
        side_add_def entry_of_def)
  moreover have "ob_entries ?b2 = (ob_entries b)(k := None)"
    using assms(5,6,8,9,10) by (simp add: book_after_entries)
  moreover have "contrib Bid ?p old = ei_qty old" using assms(3) by (simp add: contrib_def)
  ultimately show "bid_qty_at ?b2 ?p = agg (ob_entries ?b2) Bid ?p + ei_qty old"
    using ok d assms(2) by (simp add: agg_del entries_ok_def)
  show "0 < ei_qty old" using ok assms(2) unfolding entries_ok_def by blast
qed

text \<open>
  The callbacks. A deletion of a live id reports the stored side, price and quantity of
  the entry through the cancel callback, exactly once and only when the callback is set; a
  deletion of an unknown id changes nothing and reports nothing; the trade callback fires
  exactly for a \<open>New\<close> trade of positive quantity.
\<close>

theorem book_callbacks:
  shows "(ev_action ev = Delete \<longrightarrow>
      snd (book_apply b ev) = (case ob_entries b (ev_entry_id ev) of
         Some old \<Rightarrow> if ob_on_cancel b
           then [CancelCall (ev\<lparr>ev_side := ei_side old, ev_price := ei_price old, ev_qty := ei_qty old\<rparr>)]
           else []
       | None \<Rightarrow> [])) \<and>
    (ev_action ev = Delete \<and> ob_entries b (ev_entry_id ev) = None \<longrightarrow>
      book_update b ev = (b, [], False)) \<and>
    (TradeCall ev' \<in> set (snd (book_apply b ev)) \<longleftrightarrow>
      ev' = ev \<and> ev_action ev = New \<and> ev_side ev = Trade \<and> 0 < ev_qty ev \<and> ob_on_trade b)"
proof (intro conjI impI)
  show "snd (book_apply b ev) = (case ob_entries b (ev_entry_id ev) of
         Some old \<Rightarrow> if ob_on_cancel b
           then [CancelCall (ev\<lparr>ev_side := ei_side old, ev_price := ei_price old, ev_qty := ei_qty old\<rparr>)]
           else []
       | None \<Rightarrow> [])" if "ev_action ev = Delete"
    using that by (simp add: book_apply_def split: option.split)
  show "book_update b ev = (b, [], False)"
    if "ev_action ev = Delete \<and> ob_entries b (ev_entry_id ev) = None"
    using that by (simp add: book_apply_def book_update_def)
  show "TradeCall ev' \<in> set (snd (book_apply b ev)) \<longleftrightarrow>
      ev' = ev \<and> ev_action ev = New \<and> ev_side ev = Trade \<and> 0 < ev_qty ev \<and> ob_on_trade b"
    by (cases "ev_action ev") (auto simp: book_apply_def Let_def split: option.splits)
qed

section \<open>Concrete books\<close>

text \<open>Events and a book to apply the theorems to, in the manner of \<open>tests/test_order_book.cpp\<close>.\<close>

definition make_ev :: "u64 \<Rightarrow> md_update_action \<Rightarrow> md_entry_type \<Rightarrow> int \<Rightarrow> int \<Rightarrow> lob_event" where
  "make_ev k act s p q = \<lparr> ev_timestamp_ns = 1000, ev_entry_id = k, ev_price = p, ev_qty = q,
     ev_action = act, ev_side = s \<rparr>"

definition sample_feed :: "lob_event list" where
  "sample_feed = [make_ev 1 New Bid 200050 10, make_ev 2 New Offer 200060 5,
     make_ev 3 New Bid 200050 7, make_ev 1 Change Bid 200040 4, make_ev 2 Delete Bid 0 0]"

definition sample_book :: order_book where
  "sample_book = book_run book_empty sample_feed"

lemmas book_eval = make_ev_def sample_feed_def book_empty_def book_apply_def put_entry_def
  remove_old_def erase_entry_def side_add_def entry_of_def level_add_def qty_at_def Let_def
  smap_erase_def fresh_new_def ev_volume_def

lemma sample_feed_fresh: "feed_fresh book_empty sample_feed"
  by (simp add: book_eval)

lemma sample_book_eq: "sample_book = \<lparr> ob_bids = [(200040, 4), (200050, 7)], ob_asks = [],
    ob_entries = [1 \<mapsto> \<lparr>ei_side = Bid, ei_price = 200040, ei_qty = 4\<rparr>,
                  3 \<mapsto> \<lparr>ei_side = Bid, ei_price = 200050, ei_qty = 7\<rparr>],
    ob_on_trade = False, ob_on_cancel = False \<rparr>"
  by (simp add: sample_book_def book_run_def book_eval fun_upd_twist)

lemma sample_book_consistent: "book_consistent sample_book"
proof -
  have "total_qty (ob_entries book_empty) + sum_list (map ev_volume sample_feed) \<le> i64_max"
    by (simp add: total_qty_def book_empty_def sample_feed_def ev_volume_def make_ev_def)
  then show ?thesis unfolding sample_book_def
    using sample_feed_fresh book_empty_consistent by (intro book_run_consistent_from)
qed

lemma sample_book_wf: "book_wf sample_book"
  using sample_book_consistent by (simp add: book_consistent_def displays_def)

theorem book_run_consistent_witness:
  "feed_fresh book_empty sample_feed \<and> book_consistent (book_run book_empty sample_feed)"
  using book_run_consistent [OF sample_feed_fresh] sample_feed_fresh
  by (simp add: sample_feed_def ev_volume_def make_ev_def)

theorem best_prices_witness:
  "book_consistent sample_book \<and> best_bid sample_book = Max (live_prices sample_book Bid)
   \<and> best_bid sample_book = 200050"
proof -
  have "best_bid sample_book = 200050" by (simp add: sample_book_eq best_bid_def smap_last_def)
  then show ?thesis
    using best_prices [OF sample_book_consistent] sample_book_consistent by (auto split: if_splits)
qed

theorem new_then_delete_witness:
  "book_after (book_after sample_book (make_ev 9 New Offer 200070 3)) (make_ev 9 Delete Bid 0 0)
     = sample_book"
  by (rule new_then_delete [OF sample_book_wf, of 9])
    (simp_all add: sample_book_eq make_ev_def bid_qty_at_def ask_qty_at_def qty_at_def)

theorem new_on_live_id_witness:
  "let b2 = book_after (book_after sample_book (make_ev 3 New Bid 200030 2)) (make_ev 3 Delete Bid 0 0)
   in bid_qty_at b2 200050 = agg (ob_entries b2) Bid 200050 + 7"
  using new_on_live_id_leaves_phantom [OF sample_book_consistent, of 3
      "\<lparr>ei_side = Bid, ei_price = 200050, ei_qty = 7\<rparr>" "make_ev 3 New Bid 200030 2"
      "make_ev 3 Delete Bid 0 0"]
  by (simp add: Let_def) (simp add: sample_book_eq make_ev_def)

theorem book_callbacks_witness:
  "let b = sample_book\<lparr>ob_on_cancel := True\<rparr>
   in snd (book_apply b (make_ev 3 Delete Offer 1 1)) = [CancelCall (make_ev 3 Delete Bid 200050 7)]"
  using book_callbacks [of "make_ev 3 Delete Offer 1 1" "sample_book\<lparr>ob_on_cancel := True\<rparr>"]
  by (simp add: Let_def) (simp add: sample_book_eq make_ev_def)

end
