(* ===== verification/Spsc_Queue.thy ===== *)
theory Spsc_Queue
  imports Prelude
begin

unbundle bit_operations_syntax

text \<open>
  \<open>SpscQueue<T, Capacity>\<close> (\<open>include/smartquant/common/spsc_queue.hpp\<close>): the ring with
  masked 64-bit indices, first as sequential operations refining a bounded FIFO, then as
  two interleaved threads whose atomic steps are the loads, the buffer access and the
  store of \<open>push\<close> and \<open>pop\<close>, each seen by the other thread at once.  \<open>Spsc_Weak\<close> takes
  the same steps under release/acquire memory.
\<close>

section \<open>State and operations\<close>

record 'a spsc =
  q_head :: u64
  q_tail :: u64
  q_buf :: "'a list"

definition kMask :: "u64 \<Rightarrow> u64" where
  "kMask capacity = capacity - 1"

definition spsc_init :: "'a list \<Rightarrow> 'a spsc" where
  "spsc_init buf = \<lparr> q_head = 0, q_tail = 0, q_buf = buf \<rparr>"

definition spsc_push :: "u64 \<Rightarrow> 'a spsc \<Rightarrow> 'a \<Rightarrow> 'a spsc \<times> bool" where
  "spsc_push capacity q item =
     (let head = q_head q; next = (head + 1) AND kMask capacity
      in if next = q_tail q then (q, False)
         else (q\<lparr>q_buf := (q_buf q)[unat head := item], q_head := next\<rparr>, True))"

definition spsc_pop :: "u64 \<Rightarrow> 'a spsc \<Rightarrow> 'a spsc \<times> 'a option" where
  "spsc_pop capacity q =
     (let tail = q_tail q
      in if tail = q_head q then (q, None)
         else (q\<lparr>q_tail := (tail + 1) AND kMask capacity\<rparr>, Some (q_buf q ! unat tail)))"

definition spsc_empty :: "'a spsc \<Rightarrow> bool" where
  "spsc_empty q \<longleftrightarrow> q_head q = q_tail q"

definition spsc_size :: "u64 \<Rightarrow> 'a spsc \<Rightarrow> u64" where
  "spsc_size capacity q = (q_head q - q_tail q) AND kMask capacity"

definition spsc_capacity :: "u64 \<Rightarrow> u64" where
  "spsc_capacity capacity = capacity - 1"

text \<open>The static assertion of the template.\<close>

definition capacity_ok :: "u64 \<Rightarrow> bool" where
  "capacity_ok capacity \<longleftrightarrow> (\<exists>k < 64. capacity = 2 ^ k)"

section \<open>Masked indices are indices modulo the capacity\<close>

lemma unat_capacity: "k < 64 \<Longrightarrow> unat (2 ^ k :: u64) = 2 ^ k"
proof -
  assume "k < 64"
  then have "take_bit 64 (2 ^ k :: nat) = 2 ^ k" by (simp add: take_bit_nat_eq_self)
  then have "unat (word_of_nat (2 ^ k) :: u64) = 2 ^ k" by (simp only: unsigned_of_nat) simp
  then show ?thesis by simp
qed

lemma and_kMask: "capacity_ok c \<Longrightarrow> x AND kMask c = x mod c"
proof -
  assume "capacity_ok c"
  then obtain k where "k < 64" "c = 2 ^ k" by (auto simp: capacity_ok_def)
  then show ?thesis
    by (simp add: kMask_def flip: mask_eq_exp_minus_1 take_bit_eq_mask take_bit_eq_mod)
qed

lemma unat_and_kMask: "capacity_ok c \<Longrightarrow> unat (x AND kMask c) = unat x mod unat c"
  by (simp add: and_kMask unat_mod)

lemma capacity_ok_assert: "capacity_ok c \<Longrightarrow> c AND (c - 1) = 0"
  using and_kMask [of c c] by (simp add: kMask_def)

lemma capacity_pos: "capacity_ok c \<Longrightarrow> 0 < unat c"
  by (auto simp: capacity_ok_def unat_capacity)

lemma unat_bound: "unat (x :: u64) < 2 ^ 64"
  using unsigned_less [of x, where ?'a = nat] by simp

lemma unat_step: "capacity_ok c \<Longrightarrow> unat x < unat c \<Longrightarrow>
    unat ((x + 1) AND kMask c) = Suc (unat x) mod unat c"
proof -
  assume c: "capacity_ok c" and x: "unat x < unat c"
  have "unat x + 1 < 2 ^ 64" using x unat_bound [of c] by linarith
  then have "unat (x + 1) = unat x + 1" by (simp add: unat_word_ariths)
  then show ?thesis using c by (simp add: unat_and_kMask)
qed

section \<open>Ring arithmetic\<close>

definition ring_count :: "nat \<Rightarrow> nat \<Rightarrow> nat \<Rightarrow> nat" where
  "ring_count n h t = (h + n - t) mod n"

lemma step_mod: "h < n \<Longrightarrow> Suc h mod n = (if Suc h = n then 0 else Suc h)"
  by auto

lemma mod_twice: "(x :: nat) < 2 * n \<Longrightarrow> x mod n = (if x < n then x else x - n)"
  by (simp add: le_mod_geq)

lemma ring_count_if: "h < n \<Longrightarrow> t < n \<Longrightarrow> ring_count n h t = (if t \<le> h then h - t else h + n - t)"
  by (simp add: ring_count_def mod_twice)

lemma ring_count_less: "h < n \<Longrightarrow> t < n \<Longrightarrow> ring_count n h t < n"
  by (simp add: ring_count_def)

lemma ring_at_count: "h < n \<Longrightarrow> t < n \<Longrightarrow> (t + ring_count n h t) mod n = h"
  by (simp add: ring_count_if)

lemma ring_at_other: "h < n \<Longrightarrow> t < n \<Longrightarrow> i < ring_count n h t \<Longrightarrow> (t + i) mod n \<noteq> h"
  using ring_count_less [of h n t] by (simp add: mod_twice) (auto simp: ring_count_if split: if_splits)

lemma ring_full_iff: "h < n \<Longrightarrow> t < n \<Longrightarrow> Suc h mod n = t \<longleftrightarrow> ring_count n h t = n - 1"
  unfolding step_mod by (auto simp: ring_count_if)

lemma ring_count_push: "h < n \<Longrightarrow> t < n \<Longrightarrow> Suc h mod n \<noteq> t \<Longrightarrow>
    ring_count n (Suc h mod n) t = Suc (ring_count n h t)"
  by (cases "Suc h = n") (auto simp: ring_count_if)

lemma ring_count_pop: "h < n \<Longrightarrow> t < n \<Longrightarrow> h \<noteq> t \<Longrightarrow>
    ring_count n h t = Suc (ring_count n h (Suc t mod n))"
  by (cases "Suc t = n") (auto simp: ring_count_if)

lemma ring_count_0_iff: "h < n \<Longrightarrow> t < n \<Longrightarrow> ring_count n h t = 0 \<longleftrightarrow> h = t"
  by (auto simp: ring_count_if)

section \<open>The contract of a bounded FIFO\<close>

text \<open>
  What the market-data thread and the alpha thread rely on: \<open>push\<close> appends unless the
  queue holds \<open>room\<close> elements, \<open>pop\<close> removes the first element.
\<close>

locale bounded_fifo =
  fixes push :: "'q \<Rightarrow> 'a \<Rightarrow> 'q \<times> bool"
    and pop :: "'q \<Rightarrow> 'q \<times> 'a option"
    and contents :: "'q \<Rightarrow> 'a list"
    and room :: nat
    and inv :: "'q \<Rightarrow> bool"
  assumes push_ok: "inv q \<Longrightarrow> length (contents q) < room \<Longrightarrow>
        snd (push q x) \<and> contents (fst (push q x)) = contents q @ [x]"
    and push_full: "inv q \<Longrightarrow> length (contents q) = room \<Longrightarrow> push q x = (q, False)"
    and pop_some: "inv q \<Longrightarrow> contents q = x # xs \<Longrightarrow>
        snd (pop q) = Some x \<and> contents (fst (pop q)) = xs"
    and pop_none: "inv q \<Longrightarrow> contents q = [] \<Longrightarrow> pop q = (q, None)"
    and inv_push: "inv q \<Longrightarrow> inv (fst (push q x))"
    and inv_pop: "inv q \<Longrightarrow> inv (fst (pop q))"
    and inv_room: "inv q \<Longrightarrow> length (contents q) \<le> room"
begin

lemma contents_push: "inv q \<Longrightarrow> contents (fst (push q x)) = take room (contents q @ [x])"
  using push_ok [of q x] push_full [of q x] inv_room [of q]
  by (cases "length (contents q) < room") auto

text \<open>Best-effort pushing keeps, of everything offered, the first elements that fit.\<close>

lemma contents_push_all:
  "inv q \<Longrightarrow> contents (foldl (\<lambda>q x. fst (push q x)) q xs) = take room (contents q @ xs)"
proof (induction xs arbitrary: q)
  case Nil
  then show ?case using inv_room [of q] by simp
next
  case (Cons x xs)
  have "take room (take room (contents q @ [x]) @ xs) = take room (contents q @ x # xs)"
    using inv_room [OF Cons.prems] by (cases "length (contents q) < room") simp_all
  with Cons show ?case by (simp add: inv_push contents_push)
qed

lemma inv_push_all: "inv q \<Longrightarrow> inv (foldl (\<lambda>q x. fst (push q x)) q xs)"
  by (induction xs arbitrary: q) (simp_all add: inv_push)

lemma pop_contents: "inv q \<Longrightarrow>
    snd (pop q) = (case contents q of [] \<Rightarrow> None | x # _ \<Rightarrow> Some x)
    \<and> contents (fst (pop q)) = tl (contents q)"
  by (cases "contents q") (simp_all add: pop_some pop_none)

lemma pop_pushed: "inv q \<Longrightarrow> contents q = [] \<Longrightarrow> 0 < room \<Longrightarrow>
    snd (pop (fst (push q x))) = Some x"
  using push_ok [of q x] pop_some [OF inv_push, of q x x "[]"] by simp

end

section \<open>The ring is a bounded FIFO\<close>

definition spsc_contents :: "u64 \<Rightarrow> 'a spsc \<Rightarrow> 'a list" where
  "spsc_contents capacity q =
     map (\<lambda>i. q_buf q ! ((unat (q_tail q) + i) mod unat capacity))
       [0..<ring_count (unat capacity) (unat (q_head q)) (unat (q_tail q))]"

definition spsc_inv :: "u64 \<Rightarrow> 'a spsc \<Rightarrow> bool" where
  "spsc_inv capacity q \<longleftrightarrow> capacity_ok capacity \<and> unat (q_head q) < unat capacity
     \<and> unat (q_tail q) < unat capacity \<and> length (q_buf q) = unat capacity"

abbreviation spsc_room :: "u64 \<Rightarrow> nat" where
  "spsc_room capacity \<equiv> unat capacity - 1"

lemma spsc_init_inv: "capacity_ok c \<Longrightarrow> length buf = unat c \<Longrightarrow> spsc_inv c (spsc_init buf)"
  by (simp add: spsc_inv_def spsc_init_def capacity_pos)

lemma spsc_init_contents: "capacity_ok c \<Longrightarrow> spsc_contents c (spsc_init buf) = []"
  by (simp add: spsc_contents_def spsc_init_def ring_count_def)

lemma length_spsc_contents:
  "length (spsc_contents c q) = ring_count (unat c) (unat (q_head q)) (unat (q_tail q))"
  by (simp add: spsc_contents_def)

lemma spsc_next_eq:
  "spsc_inv c q \<Longrightarrow> (q_head q + 1) AND kMask c = q_tail q \<longleftrightarrow> length (spsc_contents c q) = spsc_room c"
proof -
  assume inv: "spsc_inv c q"
  then have "unat ((q_head q + 1) AND kMask c) = Suc (unat (q_head q)) mod unat c"
    by (intro unat_step) (simp_all add: spsc_inv_def)
  then have "(q_head q + 1) AND kMask c = q_tail q
      \<longleftrightarrow> Suc (unat (q_head q)) mod unat c = unat (q_tail q)"
    by (simp only: word_unat_eq_iff)
  also have "\<dots> \<longleftrightarrow> length (spsc_contents c q) = spsc_room c"
    unfolding length_spsc_contents using inv by (intro ring_full_iff) (simp_all add: spsc_inv_def)
  finally show ?thesis .
qed

lemma spsc_inv_step: "spsc_inv c q \<Longrightarrow> x < c \<Longrightarrow> unat ((x + 1) AND kMask c) < unat c"
  by (simp add: spsc_inv_def unat_and_kMask capacity_pos)

text \<open>A write at the head position leaves the stored elements alone.\<close>

lemma spsc_contents_write:
  assumes "spsc_inv c q"
  shows "spsc_contents c (q\<lparr>q_buf := (q_buf q)[unat (q_head q) := x]\<rparr>) = spsc_contents c q"
proof -
  have "(unat (q_tail q) + i) mod unat c \<noteq> unat (q_head q)"
    if "i < ring_count (unat c) (unat (q_head q)) (unat (q_tail q))" for i
    using assms that by (intro ring_at_other) (simp_all add: spsc_inv_def)
  then show ?thesis by (simp add: spsc_contents_def nth_list_update_neq [OF not_sym])
qed

lemma spsc_contents_publish:
  assumes inv: "spsc_inv c q" and nf: "(q_head q + 1) AND kMask c \<noteq> q_tail q"
    and buf: "q_buf q ! unat (q_head q) = x"
  shows "spsc_contents c (q\<lparr>q_head := (q_head q + 1) AND kMask c\<rparr>) = spsc_contents c q @ [x]"
proof -
  let ?n = "unat c" and ?h = "unat (q_head q)" and ?t = "unat (q_tail q)"
  have lt: "?h < ?n" "?t < ?n" using inv by (simp_all add: spsc_inv_def)
  have nx: "unat ((q_head q + 1) AND kMask c) = Suc ?h mod ?n"
    using inv by (intro unat_step) (simp_all add: spsc_inv_def)
  then have "Suc ?h mod ?n \<noteq> ?t" using nf by (metis word_unat_eq_iff)
  then show ?thesis
    using ring_count_push [OF lt] ring_at_count [OF lt] buf nx by (simp add: spsc_contents_def)
qed

lemma spsc_contents_advance:
  assumes inv: "spsc_inv c q" and ne: "q_tail q \<noteq> q_head q"
  shows "spsc_contents c q = q_buf q ! unat (q_tail q)
     # spsc_contents c (q\<lparr>q_tail := (q_tail q + 1) AND kMask c\<rparr>)"
proof -
  let ?n = "unat c" and ?h = "unat (q_head q)" and ?t = "unat (q_tail q)"
  have lt: "?h < ?n" "?t < ?n" using inv by (simp_all add: spsc_inv_def)
  have nx: "unat ((q_tail q + 1) AND kMask c) = Suc ?t mod ?n"
    using inv by (intro unat_step) (simp_all add: spsc_inv_def)
  have ht: "?h \<noteq> ?t" using ne by (metis word_unat_eq_iff)
  have mod: "(Suc ?t mod ?n + i) mod ?n = (?t + Suc i) mod ?n" for i
    by (simp add: mod_add_left_eq)
  have "[0..<ring_count ?n ?h ?t] = 0 # map Suc [0..<ring_count ?n ?h (Suc ?t mod ?n)]"
    unfolding ring_count_pop [OF lt ht] by (simp only: upt_conv_Cons map_Suc_upt zero_less_Suc)
  then have "spsc_contents c q = map (\<lambda>i. q_buf q ! ((?t + i) mod ?n))
      (0 # map Suc [0..<ring_count ?n ?h (Suc ?t mod ?n)])"
    by (simp only: spsc_contents_def)
  then show ?thesis using lt nx by (simp add: spsc_contents_def mod o_def)
qed

lemma spsc_inv_write [simp]: "spsc_inv c (q\<lparr>q_buf := (q_buf q)[i := x]\<rparr>) = spsc_inv c q"
  by (simp add: spsc_inv_def)

lemma spsc_inv_publish: "spsc_inv c q \<Longrightarrow> spsc_inv c (q\<lparr>q_head := y AND kMask c\<rparr>)"
  by (simp add: spsc_inv_def unat_and_kMask capacity_pos)

lemma spsc_inv_advance: "spsc_inv c q \<Longrightarrow> spsc_inv c (q\<lparr>q_tail := y AND kMask c\<rparr>)"
  by (simp add: spsc_inv_def unat_and_kMask capacity_pos)

lemma spsc_length_le: "spsc_inv c q \<Longrightarrow> length (spsc_contents c q) \<le> spsc_room c"
  using ring_count_less [of "unat (q_head q)" "unat c" "unat (q_tail q)"]
  by (simp add: spsc_inv_def length_spsc_contents)

lemma spsc_contents_Nil: "spsc_inv c q \<Longrightarrow> spsc_contents c q = [] \<longleftrightarrow> q_tail q = q_head q"
proof -
  assume "spsc_inv c q"
  then have "length (spsc_contents c q) = 0 \<longleftrightarrow> unat (q_head q) = unat (q_tail q)"
    unfolding length_spsc_contents by (intro ring_count_0_iff) (simp_all add: spsc_inv_def)
  then show ?thesis by (auto simp: word_unat_eq_iff)
qed

lemma spsc_push_contents:
  assumes "spsc_inv c q" "(q_head q + 1) AND kMask c \<noteq> q_tail q"
  shows "spsc_contents c (fst (spsc_push c q x)) = spsc_contents c q @ [x]"
proof -
  let ?q = "q\<lparr>q_buf := (q_buf q)[unat (q_head q) := x]\<rparr>"
  have "spsc_contents c (?q\<lparr>q_head := (q_head ?q + 1) AND kMask c\<rparr>) = spsc_contents c ?q @ [x]"
    using assms by (intro spsc_contents_publish) (simp_all add: spsc_inv_def)
  then show ?thesis using assms by (simp add: spsc_contents_write spsc_push_def Let_def)
qed

interpretation spsc: bounded_fifo "spsc_push c" "spsc_pop c" "spsc_contents c" "spsc_room c" "spsc_inv c"
  for c :: u64
proof unfold_locales
  fix q :: "'a spsc" and x xs
  assume inv: "spsc_inv c q"
  show "snd (spsc_push c q x) \<and> spsc_contents c (fst (spsc_push c q x)) = spsc_contents c q @ [x]"
    if "length (spsc_contents c q) < spsc_room c"
    using that spsc_next_eq [OF inv] spsc_push_contents [OF inv, of x] by (simp add: spsc_push_def Let_def)
  show "spsc_push c q x = (q, False)" if "length (spsc_contents c q) = spsc_room c"
    using that spsc_next_eq [OF inv] by (simp add: spsc_push_def Let_def)
  show "snd (spsc_pop c q) = Some x \<and> spsc_contents c (fst (spsc_pop c q)) = xs"
    if "spsc_contents c q = x # xs"
    using that spsc_contents_Nil [OF inv] spsc_contents_advance [OF inv]
    by (simp add: spsc_pop_def Let_def)
  show "spsc_pop c q = (q, None)" if "spsc_contents c q = []"
    using that spsc_contents_Nil [OF inv] by (simp add: spsc_pop_def)
  show "spsc_inv c (fst (spsc_push c q x))"
    using inv spsc_inv_publish [of c "q\<lparr>q_buf := (q_buf q)[unat (q_head q) := x]\<rparr>"]
    by (simp add: spsc_push_def Let_def)
  show "spsc_inv c (fst (spsc_pop c q))"
    using inv by (simp add: spsc_pop_def Let_def spsc_inv_advance)
  show "length (spsc_contents c q) \<le> spsc_room c" using inv by (rule spsc_length_le)
qed

text \<open>The unsigned difference of the indices, reduced by the mask, is the ring distance.\<close>

lemma spsc_sub_mod:
  assumes "capacity_ok c" "unat h < unat c" "unat t < unat c"
  shows "unat (h - t :: u64) mod unat c = ring_count (unat c) (unat h) (unat t)"
proof (cases "unat t \<le> unat h")
  case True
  then show ?thesis using assms by (simp add: unat_sub_if' ring_count_if)
next
  case False
  obtain k where k: "k < 64" "c = 2 ^ k" using assms(1) by (auto simp: capacity_ok_def)
  then have n: "unat c = 2 ^ k" by (simp add: unat_capacity)
  have "(2 :: nat) ^ 64 = 2 ^ k * 2 ^ (64 - k)" using k(1) by (simp flip: power_add)
  then obtain m where m: "(2 :: nat) ^ 64 = unat c + unat c * m" using n k(1)
    by (metis mult.right_neutral add_mult_distrib2 Suc_pred nat_zero_less_power_iff
        plus_1_eq_Suc zero_less_numeral)
  have "unat (h - t) = (unat h + unat c - unat t) + unat c * m"
    using False m assms(3) by (simp add: unat_sub_if')
  then show ?thesis by (simp add: ring_count_def)
qed

text \<open>
  The sequential contract. Under the ring invariant, \<open>push\<close> succeeds exactly when fewer
  than \<open>capacity() = Capacity - 1\<close> elements are stored and then appends its item; a failed
  push changes nothing; \<open>pop\<close> returns and removes the oldest element, or nothing when
  \<open>empty()\<close>; \<open>size()\<close>, computed with unsigned wrap-around and the mask, is the number of
  stored elements.
\<close>

theorem spsc_sequential:
  assumes "spsc_inv c q"
  shows "spsc_contents c (fst (spsc_push c q x))
        = (if snd (spsc_push c q x) then spsc_contents c q @ [x] else spsc_contents c q) \<and>
    snd (spsc_push c q x) = (length (spsc_contents c q) < unat (spsc_capacity c)) \<and>
    snd (spsc_pop c q) = (case spsc_contents c q of [] \<Rightarrow> None | y # _ \<Rightarrow> Some y) \<and>
    spsc_contents c (fst (spsc_pop c q)) = tl (spsc_contents c q) \<and>
    spsc_empty q = (spsc_contents c q = []) \<and>
    unat (spsc_size c q) = length (spsc_contents c q) \<and>
    spsc_inv c (fst (spsc_push c q x)) \<and> spsc_inv c (fst (spsc_pop c q))"
proof -
  have c: "capacity_ok c" "0 < unat c" using assms by (simp_all add: spsc_inv_def capacity_pos)
  have room: "unat (spsc_capacity c) = spsc_room c"
    using c(2) unat_minus_one [of c] by (force simp: spsc_capacity_def)
  have "unat (spsc_size c q) = unat (q_head q - q_tail q) mod unat c"
    using c by (simp add: spsc_size_def unat_and_kMask)
  also have "\<dots> = ring_count (unat c) (unat (q_head q)) (unat (q_tail q))"
    using assms spsc_sub_mod by (simp add: spsc_inv_def)
  finally have size: "unat (spsc_size c q) = length (spsc_contents c q)"
    by (simp add: length_spsc_contents)
  consider "length (spsc_contents c q) < spsc_room c" | "length (spsc_contents c q) = spsc_room c"
    using spsc_length_le [OF assms] by linarith
  then show ?thesis
    using spsc.push_ok [OF assms, of x] spsc.push_full [OF assms, of x] spsc.pop_contents [OF assms]
      spsc.inv_push [OF assms, of x] spsc.inv_pop [OF assms] spsc_contents_Nil [OF assms] room size
    by cases (auto simp: spsc_empty_def)
qed

section \<open>Two threads\<close>

text \<open>
  The program counter of the producer inside \<open>push(item)\<close>: after loading \<open>head_\<close> and
  computing \<open>next\<close>; after the full test has passed; after the buffer write.  The consumer
  inside \<open>pop\<close>: after loading \<open>tail_\<close>; after the empty test has passed; after the buffer
  read.  \<open>d_in\<close> and \<open>d_out\<close> record the items whose push, respectively pop, has been
  published.
\<close>

datatype 'a producer = PIdle | PLoaded 'a u64 u64 | PFree 'a u64 u64 | PWritten 'a u64

datatype 'a consumer = CIdle | CLoaded u64 | CAvail u64 | CRead u64 'a

record 'a duo =
  d_q :: "'a spsc"
  d_prod :: "'a producer"
  d_cons :: "'a consumer"
  d_in :: "'a list"
  d_out :: "'a list"

definition duo_init :: "'a list \<Rightarrow> 'a duo" where
  "duo_init buf = \<lparr> d_q = spsc_init buf, d_prod = PIdle, d_cons = CIdle, d_in = [], d_out = [] \<rparr>"

inductive duo_step :: "u64 \<Rightarrow> 'a duo \<Rightarrow> 'a duo \<Rightarrow> bool" for c :: u64 where
  p_load: "d_prod s = PIdle \<Longrightarrow>
     duo_step c s (s\<lparr>d_prod := PLoaded x (q_head (d_q s)) ((q_head (d_q s) + 1) AND kMask c)\<rparr>)"
| p_full: "d_prod s = PLoaded x head next \<Longrightarrow> next = q_tail (d_q s) \<Longrightarrow>
     duo_step c s (s\<lparr>d_prod := PIdle\<rparr>)"
| p_free: "d_prod s = PLoaded x head next \<Longrightarrow> next \<noteq> q_tail (d_q s) \<Longrightarrow>
     duo_step c s (s\<lparr>d_prod := PFree x head next\<rparr>)"
| p_write: "d_prod s = PFree x head next \<Longrightarrow>
     duo_step c s (s\<lparr>d_q := (d_q s)\<lparr>q_buf := (q_buf (d_q s))[unat head := x]\<rparr>,
                     d_prod := PWritten x next\<rparr>)"
| p_publish: "d_prod s = PWritten x next \<Longrightarrow>
     duo_step c s (s\<lparr>d_q := (d_q s)\<lparr>q_head := next\<rparr>, d_prod := PIdle, d_in := d_in s @ [x]\<rparr>)"
| c_load: "d_cons s = CIdle \<Longrightarrow> duo_step c s (s\<lparr>d_cons := CLoaded (q_tail (d_q s))\<rparr>)"
| c_none: "d_cons s = CLoaded tail \<Longrightarrow> tail = q_head (d_q s) \<Longrightarrow>
     duo_step c s (s\<lparr>d_cons := CIdle\<rparr>)"
| c_avail: "d_cons s = CLoaded tail \<Longrightarrow> tail \<noteq> q_head (d_q s) \<Longrightarrow>
     duo_step c s (s\<lparr>d_cons := CAvail tail\<rparr>)"
| c_read: "d_cons s = CAvail tail \<Longrightarrow>
     duo_step c s (s\<lparr>d_cons := CRead tail (q_buf (d_q s) ! unat tail)\<rparr>)"
| c_publish: "d_cons s = CRead tail x \<Longrightarrow>
     duo_step c s (s\<lparr>d_q := (d_q s)\<lparr>q_tail := (tail + 1) AND kMask c\<rparr>, d_cons := CIdle,
                     d_out := d_out s @ [x]\<rparr>)"

inductive duo_reach :: "u64 \<Rightarrow> 'a list \<Rightarrow> 'a duo \<Rightarrow> bool" for c :: u64 and buf :: "'a list" where
  start: "duo_reach c buf (duo_init buf)"
| step: "duo_reach c buf s \<Longrightarrow> duo_step c s s' \<Longrightarrow> duo_reach c buf s'"

text \<open>A push that no step of the consumer interrupts is the sequential \<open>spsc_push\<close>.\<close>

lemma push_steps:
  assumes "d_prod s = PIdle" "snd (spsc_push c (d_q s) x)"
  shows "(duo_step c)\<^sup>*\<^sup>* s (s\<lparr>d_q := fst (spsc_push c (d_q s) x), d_in := d_in s @ [x]\<rparr>)"
proof -
  let ?h = "q_head (d_q s)" and ?next = "(q_head (d_q s) + 1) AND kMask c"
  let ?s1 = "s\<lparr>d_prod := PLoaded x ?h ?next\<rparr>" and ?s2 = "s\<lparr>d_prod := PFree x ?h ?next\<rparr>"
  let ?s3 = "s\<lparr>d_q := (d_q s)\<lparr>q_buf := (q_buf (d_q s))[unat ?h := x]\<rparr>, d_prod := PWritten x ?next\<rparr>"
  have free: "?next \<noteq> q_tail (d_q s)"
    using assms(2) by (auto simp: spsc_push_def Let_def split: if_splits)
  have "duo_step c s ?s1" using assms(1) by (rule p_load)
  moreover have "duo_step c ?s1 (?s1\<lparr>d_prod := PFree x ?h ?next\<rparr>)"
    using free by (intro p_free) simp_all
  moreover have "duo_step c ?s2 (?s2\<lparr>d_q := (d_q ?s2)\<lparr>q_buf := (q_buf (d_q ?s2))[unat ?h := x]\<rparr>,
      d_prod := PWritten x ?next\<rparr>)"
    by (intro p_write) simp
  moreover have "duo_step c ?s3 (?s3\<lparr>d_q := (d_q ?s3)\<lparr>q_head := ?next\<rparr>, d_prod := PIdle,
      d_in := d_in ?s3 @ [x]\<rparr>)"
    by (intro p_publish) simp
  moreover have "s\<lparr>d_q := fst (spsc_push c (d_q s) x), d_in := d_in s @ [x]\<rparr>
      = ?s3\<lparr>d_q := (d_q ?s3)\<lparr>q_head := ?next\<rparr>, d_prod := PIdle, d_in := d_in ?s3 @ [x]\<rparr>"
    using free assms(1) by (simp add: spsc_push_def Let_def)
  ultimately show ?thesis by (simp add: converse_rtranclp_into_rtranclp)
qed

section \<open>The two-thread queue is a FIFO\<close>

definition prod_ok :: "u64 \<Rightarrow> 'a spsc \<Rightarrow> 'a producer \<Rightarrow> bool" where
  "prod_ok c q p = (case p of
      PIdle \<Rightarrow> True
    | PLoaded x head next \<Rightarrow> head = q_head q \<and> next = (q_head q + 1) AND kMask c
    | PFree x head next \<Rightarrow> head = q_head q \<and> next = (q_head q + 1) AND kMask c \<and> next \<noteq> q_tail q
    | PWritten x next \<Rightarrow> next = (q_head q + 1) AND kMask c \<and> next \<noteq> q_tail q
        \<and> q_buf q ! unat (q_head q) = x)"

definition cons_ok :: "'a spsc \<Rightarrow> 'a consumer \<Rightarrow> bool" where
  "cons_ok q k = (case k of
      CIdle \<Rightarrow> True
    | CLoaded tail \<Rightarrow> tail = q_tail q
    | CAvail tail \<Rightarrow> tail = q_tail q \<and> tail \<noteq> q_head q
    | CRead tail x \<Rightarrow> tail = q_tail q \<and> tail \<noteq> q_head q \<and> q_buf q ! unat tail = x)"

definition duo_inv :: "u64 \<Rightarrow> 'a duo \<Rightarrow> bool" where
  "duo_inv c s \<longleftrightarrow> spsc_inv c (d_q s) \<and> prod_ok c (d_q s) (d_prod s) \<and> cons_ok (d_q s) (d_cons s)
     \<and> d_in s = d_out s @ spsc_contents c (d_q s)"

lemmas duo_ok_simps = prod_ok_def cons_ok_def

lemma cons_ok_write:
  "cons_ok q k \<Longrightarrow> cons_ok (q\<lparr>q_buf := (q_buf q)[unat (q_head q) := x]\<rparr>) k"
  by (auto simp: cons_ok_def word_unat_eq_iff split: consumer.splits)

lemma cons_ok_publish:
  "cons_ok q k \<Longrightarrow> next \<noteq> q_tail q \<Longrightarrow> cons_ok (q\<lparr>q_head := next\<rparr>) k"
  by (auto simp: cons_ok_def split: consumer.splits)

text \<open>The consumer only frees slots, so a slot the producer has seen free stays free.\<close>

lemma prod_ok_advance:
  assumes "spsc_inv c q" "q_tail q \<noteq> q_head q" "prod_ok c q p"
  shows "prod_ok c (q\<lparr>q_tail := (q_tail q + 1) AND kMask c\<rparr>) p"
proof -
  let ?q = "q\<lparr>q_tail := (q_tail q + 1) AND kMask c\<rparr>"
  have inv: "spsc_inv c ?q" using assms(1) by (rule spsc_inv_advance)
  have "length (spsc_contents c ?q) < spsc_room c"
    using spsc_contents_advance [OF assms(1,2)] spsc_length_le [OF assms(1)] by simp
  then have "(q_head q + 1) AND kMask c \<noteq> (q_tail q + 1) AND kMask c"
    using spsc_next_eq [OF inv] by auto
  then show ?thesis using assms(3) by (auto simp: prod_ok_def split: producer.splits)
qed

lemma duo_step_inv: "duo_step c s s' \<Longrightarrow> duo_inv c s \<Longrightarrow> duo_inv c s'"
proof (induction rule: duo_step.induct)
  case (p_write s x head "next")
  then have "head = q_head (d_q s)" by (simp add: duo_inv_def prod_ok_def)
  with p_write show ?case
    using cons_ok_write [of "d_q s" "d_cons s" x]
    by (auto simp: duo_inv_def prod_ok_def spsc_contents_write) (simp_all add: spsc_inv_def)
next
  case (p_publish s x "next")
  then show ?case
    using spsc_contents_publish [of c "d_q s" x] cons_ok_publish [of "d_q s" "d_cons s" "next"]
      spsc_inv_publish [of c "d_q s"]
    by (auto simp: duo_inv_def prod_ok_def)
next
  case (c_publish s tail x)
  then have "tail = q_tail (d_q s)" "tail \<noteq> q_head (d_q s)" "q_buf (d_q s) ! unat tail = x"
    by (auto simp: duo_inv_def cons_ok_def)
  with c_publish show ?case
    using spsc_contents_advance [of c "d_q s"] prod_ok_advance [of c "d_q s" "d_prod s"]
      spsc_inv_advance [of c "d_q s"]
    by (auto simp: duo_inv_def cons_ok_def)
qed (auto simp: duo_inv_def duo_ok_simps)

lemma duo_reach_inv:
  "duo_reach c buf s \<Longrightarrow> capacity_ok c \<Longrightarrow> length buf = unat c \<Longrightarrow> duo_inv c s"
proof (induction rule: duo_reach.induct)
  case start
  then show ?case
    by (simp add: duo_inv_def duo_init_def prod_ok_def cons_ok_def spsc_init_inv spsc_init_contents)
next
  case (step s s')
  then show ?case by (blast intro: duo_step_inv)
qed

text \<open>
  C9: However the loads, buffer accesses and stores of one producer and one consumer
  interleave, the items popped are, in order, a prefix of the items pushed, the rest is
  exactly what the ring still holds, and the ring never holds more than \<open>Capacity - 1\<close>
  items: no item is lost, duplicated, reordered or overwritten.
\<close>

theorem spsc_threads_fifo:
  assumes "duo_reach c buf s" and "capacity_ok c" and "length buf = unat c"
  shows "d_in s = d_out s @ spsc_contents c (d_q s) \<and> length (spsc_contents c (d_q s)) < unat c"
  using duo_reach_inv [OF assms] spsc_length_le [of c "d_q s"] capacity_pos [OF assms(2)]
  by (auto simp: duo_inv_def)

lemma duo_reach_steps: "(duo_step c)\<^sup>*\<^sup>* s s' \<Longrightarrow> duo_reach c buf s \<Longrightarrow> duo_reach c buf s'"
  by (induction rule: rtranclp_induct) (auto intro: duo_reach.step)

definition sample_ring :: "nat spsc" where
  "sample_ring = fst (spsc_push 4 (fst (spsc_pop 4 (fst (spsc_push 4
     (fst (spsc_push 4 (spsc_init [0, 0, 0, 0]) 5)) 6)))) 7)"

lemma capacity_4: "capacity_ok 4"
  unfolding capacity_ok_def by (intro exI [of _ 2]) simp

lemma sample_ring_inv: "spsc_inv 4 sample_ring"
  unfolding sample_ring_def
  by (intro spsc.inv_push spsc.inv_pop spsc_init_inv capacity_4) simp

theorem spsc_sequential_witness:
  "spsc_inv 4 sample_ring \<and> snd (spsc_pop 4 sample_ring) = Some 6
   \<and> snd (spsc_pop 4 sample_ring)
       = (case spsc_contents 4 sample_ring of [] \<Rightarrow> None | y # _ \<Rightarrow> Some y)"
proof -
  have "snd (spsc_pop 4 sample_ring) = Some 6"
    by (simp add: sample_ring_def spsc_push_def spsc_pop_def spsc_init_def kMask_def Let_def)
  then show ?thesis using spsc_sequential [OF sample_ring_inv] sample_ring_inv by simp
qed

theorem spsc_threads_fifo_witness:
  "\<exists>s. duo_reach 4 [0, 0, 0, 0 :: nat] s \<and> d_in s = [7]
     \<and> d_in s = d_out s @ spsc_contents 4 (d_q s)"
proof -
  let ?i = "duo_init [0, 0, 0, 0 :: nat]"
  let ?s = "?i\<lparr>d_q := fst (spsc_push 4 (d_q ?i) 7), d_in := d_in ?i @ [7]\<rparr>"
  have "snd (spsc_push 4 (d_q ?i) 7)"
    by (simp add: duo_init_def spsc_init_def spsc_push_def kMask_def Let_def)
  then have "(duo_step 4)\<^sup>*\<^sup>* ?i ?s" by (intro push_steps) (simp_all add: duo_init_def)
  then have r: "duo_reach 4 [0, 0, 0, 0] ?s" by (rule duo_reach_steps) (rule duo_reach.start)
  have "d_in ?s = [7]" by (simp add: duo_init_def)
  with r spsc_threads_fifo [OF r capacity_4] show ?thesis by auto
qed

end
