(* ===== verification/Risk_Manager.thy ===== *)
theory Risk_Manager
  imports Types
begin

text \<open>
  \<open>RiskManager\<close> (\<open>include/smartquant/risk/risk_manager.hpp\<close>,
  \<open>src/risk/risk_manager.cpp\<close>): the gate every signal passes, the bookkeeping of fills
  (slippage cost, consecutive-slippage counter, cooldown, daily-loss fuse) and the position
  timeout.  Log output is left out; the callback of \<open>on_timer\<close> is the order it would be
  called with.
\<close>

section \<open>State\<close>

record risk_config =
  max_daily_loss_usd :: f64
  tick_size_usd :: f64
  cooldown_consec_slips :: int
  cooldown_slip_ticks :: f64
  single_slip_abort_ticks :: f64
  cooldown_duration_ns :: u64
  position_timeout_ns :: u64

definition default_config :: risk_config where
  "default_config = \<lparr> max_daily_loss_usd = Fin 50, tick_size_usd = Fin 1,
     cooldown_consec_slips = 3, cooldown_slip_ticks = Fin 2, single_slip_abort_ticks = Fin 5,
     cooldown_duration_ns = 60000000000, position_timeout_ns = 5000000000 \<rparr>"

record risk =
  rk_cfg :: risk_config
  rk_has_position :: bool
  rk_open_order :: order
  rk_position_open_ns :: u64
  rk_daily_pnl :: f64
  rk_fused :: bool
  rk_consec_slip_count :: int
  rk_cooldown_start_ns :: u64
  rk_total_trades :: u64

definition risk_init :: "risk_config \<Rightarrow> risk" where
  "risk_init cfg = \<lparr> rk_cfg = cfg, rk_has_position = False, rk_open_order = order_default,
     rk_position_open_ns = 0, rk_daily_pnl = 0, rk_fused = False, rk_consec_slip_count = 0,
     rk_cooldown_start_ns = 0, rk_total_trades = 0 \<rparr>"

section \<open>Operations\<close>

definition in_cooldown :: "risk \<Rightarrow> u64 \<Rightarrow> bool" where
  "in_cooldown r now_ns \<longleftrightarrow>
     (if rk_cooldown_start_ns r = 0 then False
      else now_ns - rk_cooldown_start_ns r < cooldown_duration_ns (rk_cfg r))"

definition check_signal :: "risk \<Rightarrow> signal \<Rightarrow> u64 \<Rightarrow> bool" where
  "check_signal r sig now_ns \<longleftrightarrow>
     (if rk_fused r then False
      else if rk_has_position r then False
      else if in_cooldown r now_ns then False
      else True)"

definition on_order_sent :: "risk \<Rightarrow> order \<Rightarrow> u64 \<Rightarrow> risk" where
  "on_order_sent r ord now_ns =
     r\<lparr>rk_has_position := True, rk_open_order := ord, rk_position_open_ns := now_ns\<rparr>"

definition slippage_ticks :: "order \<Rightarrow> f64" where
  "slippage_ticks o1 =
     (if ord_fill_price o1 = 0 \<or> ord_signal_l1 o1 = 0 then 0
      else f64_div (f64_abs (f64_of_int (i64 (ord_fill_price o1 - ord_signal_l1 o1))))
             (f64_of_int kPriceScale))"

definition on_fill :: "risk \<Rightarrow> order \<Rightarrow> u64 \<Rightarrow> risk" where
  "on_fill r ord now_ns =
     (let cfg = rk_cfg r;
          slip = slippage_ticks ord;
          slip_cost = - slip * tick_size_usd cfg;
          r1 = r\<lparr>rk_has_position := False, rk_total_trades := rk_total_trades r + 1,
                 rk_daily_pnl := rk_daily_pnl r + slip_cost\<rparr>
      in if single_slip_abort_ticks cfg < slip
         then r1\<lparr>rk_cooldown_start_ns := now_ns, rk_consec_slip_count := 0\<rparr>
         else
           (let r2 = (if cooldown_slip_ticks cfg < slip
                      then (let n = rk_consec_slip_count r1 + 1
                            in if cooldown_consec_slips cfg \<le> n
                               then r1\<lparr>rk_cooldown_start_ns := now_ns, rk_consec_slip_count := 0\<rparr>
                               else r1\<lparr>rk_consec_slip_count := n\<rparr>)
                      else r1\<lparr>rk_consec_slip_count := 0\<rparr>)
            in if rk_daily_pnl r2 < - max_daily_loss_usd cfg then r2\<lparr>rk_fused := True\<rparr> else r2))"

definition on_reject :: "risk \<Rightarrow> order \<Rightarrow> risk" where
  "on_reject r ord = r\<lparr>rk_has_position := False\<rparr>"

definition on_timer :: "risk \<Rightarrow> u64 \<Rightarrow> order option" where
  "on_timer r now_ns =
     (if \<not> rk_has_position r then None
      else if position_timeout_ns (rk_cfg r) \<le> now_ns - rk_position_open_ns r
           then Some (rk_open_order r) else None)"

definition reset_daily :: "risk \<Rightarrow> risk" where
  "reset_daily r = r\<lparr>rk_daily_pnl := 0, rk_fused := False, rk_consec_slip_count := 0,
     rk_cooldown_start_ns := 0, rk_has_position := False, rk_total_trades := 0\<rparr>"

text \<open>The calls the other components make, as events.\<close>

datatype risk_event =
    OrderSent order u64
  | FillReport order u64
  | RejectReport order
  | DailyReset

fun risk_step :: "risk \<Rightarrow> risk_event \<Rightarrow> risk" where
  "risk_step r (OrderSent ord now_ns) = on_order_sent r ord now_ns"
| "risk_step r (FillReport ord now_ns) = on_fill r ord now_ns"
| "risk_step r (RejectReport ord) = on_reject r ord"
| "risk_step r DailyReset = reset_daily r"

definition risk_run :: "risk \<Rightarrow> risk_event list \<Rightarrow> risk" where
  "risk_run r evs = foldl risk_step r evs"

section \<open>What each operation leaves alone\<close>

lemma risk_step_cfg [simp]: "rk_cfg (risk_step r e) = rk_cfg r"
  by (cases e) (simp_all add: on_order_sent_def on_fill_def on_reject_def reset_daily_def Let_def)

lemma risk_run_cfg [simp]: "rk_cfg (risk_run r evs) = rk_cfg r"
  unfolding risk_run_def by (induction evs arbitrary: r) simp_all

lemma on_fill_fields:
  "rk_has_position (on_fill r ord now_ns) = False"
  "rk_total_trades (on_fill r ord now_ns) = rk_total_trades r + 1"
  "rk_daily_pnl (on_fill r ord now_ns)
     = rk_daily_pnl r + - slippage_ticks ord * tick_size_usd (rk_cfg r)"
  "rk_open_order (on_fill r ord now_ns) = rk_open_order r"
  "rk_position_open_ns (on_fill r ord now_ns) = rk_position_open_ns r"
  by (simp_all add: on_fill_def Let_def)

lemma on_fill_fused:
  "rk_fused (on_fill r ord now_ns) \<longleftrightarrow> rk_fused r \<or>
     (\<not> single_slip_abort_ticks (rk_cfg r) < slippage_ticks ord \<and>
      rk_daily_pnl (on_fill r ord now_ns) < - max_daily_loss_usd (rk_cfg r))"
  by (simp add: on_fill_def Let_def)

lemma on_fill_cooldown:
  "rk_cooldown_start_ns (on_fill r ord now_ns) =
     (if single_slip_abort_ticks (rk_cfg r) < slippage_ticks ord \<or>
         cooldown_slip_ticks (rk_cfg r) < slippage_ticks ord \<and>
         cooldown_consec_slips (rk_cfg r) \<le> rk_consec_slip_count r + 1
      then now_ns else rk_cooldown_start_ns r)"
  by (simp add: on_fill_def Let_def)

lemma on_fill_count:
  "rk_consec_slip_count (on_fill r ord now_ns) =
     (if \<not> single_slip_abort_ticks (rk_cfg r) < slippage_ticks ord \<and>
         cooldown_slip_ticks (rk_cfg r) < slippage_ticks ord \<and>
         rk_consec_slip_count r + 1 < cooldown_consec_slips (rk_cfg r)
      then rk_consec_slip_count r + 1 else 0)"
  by (simp add: on_fill_def Let_def)

lemmas on_fill_specs = on_fill_fields on_fill_fused on_fill_cooldown on_fill_count

section \<open>The daily-loss fuse\<close>

lemma risk_step_fused: "DailyReset \<noteq> e \<Longrightarrow> rk_fused r \<Longrightarrow> rk_fused (risk_step r e)"
  by (cases e) (simp_all add: on_order_sent_def on_fill_fused on_reject_def)

lemma risk_run_fused: "DailyReset \<notin> set evs \<Longrightarrow> rk_fused r \<Longrightarrow> rk_fused (risk_run r evs)"
  unfolding risk_run_def by (induction evs arbitrary: r) (auto intro: risk_step_fused)

text \<open>
  C21: Once the daily-loss fuse has tripped, no sequence of sent orders, fills and rejects
  re-arms trading: every signal stays blocked until \<open>reset_daily\<close>.
\<close>

theorem fuse_blocks_until_reset:
  assumes "rk_fused r" and "DailyReset \<notin> set evs"
  shows "rk_fused (risk_run r evs) \<and> \<not> check_signal (risk_run r evs) sig now_ns"
  using risk_run_fused [OF assms(2,1)] by (simp add: check_signal_def)

text \<open>
  A fill whose slippage exceeds \<open>single_slip_abort_ticks\<close> books its cost but returns
  before the daily-loss test: even when the booked loss is over the daily limit the fuse is
  not tripped, and as soon as the cooldown has elapsed signals are accepted again.
\<close>

theorem abort_fill_skips_fuse:
  assumes "single_slip_abort_ticks (rk_cfg r) < slippage_ticks ord" and "\<not> rk_fused r"
    and "rk_daily_pnl (on_fill r ord now_ns) < - max_daily_loss_usd (rk_cfg r)"
    and "cooldown_duration_ns (rk_cfg r) \<le> later_ns - now_ns"
  shows "\<not> rk_fused (on_fill r ord now_ns) \<and> check_signal (on_fill r ord now_ns) sig later_ns"
proof -
  have "rk_cfg (on_fill r ord now_ns) = rk_cfg r"
    using risk_step_cfg [of r "FillReport ord now_ns"] by simp
  then show ?thesis
    using assms by (simp add: check_signal_def in_cooldown_def on_fill_specs linorder_not_less)
qed

text \<open>
  Any other fill trips the fuse exactly when the daily loss exceeds the limit, and then
  no signal passes.
\<close>

theorem ordinary_fill_fuses:
  assumes "\<not> single_slip_abort_ticks (rk_cfg r) < slippage_ticks ord"
    and "rk_daily_pnl (on_fill r ord now_ns) < - max_daily_loss_usd (rk_cfg r)"
  shows "rk_fused (on_fill r ord now_ns) \<and> \<not> check_signal (on_fill r ord now_ns) sig later_ns"
  using assms by (simp add: on_fill_fused check_signal_def)

section \<open>The daily result\<close>

text \<open>Slippage is a price difference over 100: never an infinity.\<close>

lemma i64_below_limit: "\<bar>rnd (of_int (i64 n))\<bar> \<le> pow2 63"
proof -
  have "of_int (i64 n) \<le> (of_int (2 ^ 63) :: rat)" "(of_int (- (2 ^ 63)) :: rat) \<le> of_int (i64 n)"
    using i64_upper [of n] i64_lower [of n] by (simp_all only: of_int_le_iff)
  then have "of_int (i64 n) \<le> pow2 63" "- pow2 63 \<le> of_int (i64 n)"
    using pow2_of_nat [of 63] by simp_all
  then have "rnd (of_int (i64 n)) \<le> rnd (pow2 63)" "rnd (- pow2 63) \<le> rnd (of_int (i64 n))"
    by (simp_all only: rnd_mono)
  moreover have "is_f53 (pow2 63)" using is_f53_dyadic [of 1 63] by simp
  ultimately show ?thesis by (simp add: rnd_minus abs_le_iff)
qed

lemma slippage_finite: "\<exists>s. slippage_ticks ord = Fin s \<and> 0 \<le> s"
proof (cases "ord_fill_price ord = 0 \<or> ord_signal_l1 ord = 0")
  case True
  then show ?thesis by (auto simp: slippage_ticks_def zero_f64_def)
next
  case False
  let ?d = "i64 (ord_fill_price ord - ord_signal_l1 ord)"
  have p: "pow2 63 < f64_limit" unfolding pow2_def by (rule le_f64_limit [of _ 63]) simp_all
  have "f64_of_int ?d = Fin (rnd (of_int ?d))"
    using i64_below_limit [of "ord_fill_price ord - ord_signal_l1 ord"] p
    by (simp add: f64_of_int_def round64_def)
  moreover have "rnd (\<bar>rnd (of_int ?d)\<bar> / 100) \<le> rnd (pow2 63)"
    using i64_below_limit [of "ord_fill_price ord - ord_signal_l1 ord"] by (intro rnd_mono) simp
  moreover have "is_f53 (pow2 63)" using is_f53_dyadic [of 1 63] by simp
  moreover have n: "0 \<le> rnd (\<bar>rnd (of_int ?d)\<bar> / 100)" by (intro rnd_nonneg) simp
  ultimately have "slippage_ticks ord = Fin (rnd (\<bar>rnd (of_int ?d)\<bar> / 100))"
    using p False by (simp add: slippage_ticks_def kPriceScale_def round64_def Let_def)
  then show ?thesis using n by blast
qed

definition pnl_ok :: "risk \<Rightarrow> bool" where
  "pnl_ok r \<longleftrightarrow> f64_ok (rk_daily_pnl r) \<and> rk_daily_pnl r \<le> 0"

definition tick_ok :: "risk_config \<Rightarrow> bool" where
  "tick_ok cfg \<longleftrightarrow> (case tick_size_usd cfg of Fin t \<Rightarrow> 0 \<le> t | _ \<Rightarrow> False)"

lemma slip_cost_nonpos: "tick_ok cfg \<Longrightarrow> - slippage_ticks ord * tick_size_usd cfg \<le> 0"
  using slippage_finite [of ord]
  by (auto simp: tick_ok_def intro!: round64_nonpos mult_nonneg_nonneg split: f64.splits)

lemma on_fill_pnl:
  assumes "pnl_ok r" "tick_ok (rk_cfg r)"
  shows "pnl_ok (on_fill r ord now_ns) \<and> rk_daily_pnl (on_fill r ord now_ns) \<le> rk_daily_pnl r"
proof -
  have "f64_ok (rk_daily_pnl r)" "rk_daily_pnl r \<le> 0" using assms(1) by (simp_all add: pnl_ok_def)
  note add = f64_add_nonpos [OF this slip_cost_nonpos [OF assms(2), of ord]]
  show ?thesis unfolding pnl_ok_def on_fill_fields using add by blast
qed

lemma pnl_ok_refl: "pnl_ok r \<Longrightarrow> rk_daily_pnl r \<le> rk_daily_pnl r"
  by (auto simp: pnl_ok_def less_eq_f64_def)

lemma risk_step_pnl:
  assumes "pnl_ok r" "tick_ok (rk_cfg r)"
  shows "pnl_ok (risk_step r e) \<and> (DailyReset \<noteq> e \<longrightarrow> rk_daily_pnl (risk_step r e) \<le> rk_daily_pnl r)"
proof (cases e)
  case (FillReport ord now_ns)
  then show ?thesis using on_fill_pnl [OF assms] by simp
next
  case DailyReset
  then show ?thesis by (simp add: pnl_ok_def reset_daily_def f64_le_refl zero_f64_def)
qed (use assms(1) pnl_ok_refl in
    \<open>simp_all add: pnl_ok_def on_order_sent_def on_reject_def\<close>)

lemma risk_run_pnl:
  "pnl_ok r \<Longrightarrow> tick_ok (rk_cfg r) \<Longrightarrow> pnl_ok (risk_run r evs) \<and>
     (DailyReset \<notin> set evs \<longrightarrow> rk_daily_pnl (risk_run r evs) \<le> rk_daily_pnl r)"
proof (induction evs arbitrary: r)
  case Nil
  then show ?case using pnl_ok_refl by (simp add: risk_run_def)
next
  case (Cons e evs)
  note s = risk_step_pnl [OF Cons.prems, of e]
  have "pnl_ok (risk_run (risk_step r e) evs) \<and> (DailyReset \<notin> set evs \<longrightarrow>
      rk_daily_pnl (risk_run (risk_step r e) evs) \<le> rk_daily_pnl (risk_step r e))"
    using s Cons.prems(2) by (intro Cons.IH) simp_all
  moreover have "risk_run r (e # evs) = risk_run (risk_step r e) evs" by (simp add: risk_run_def)
  ultimately show ?case using s f64_le_trans by auto
qed

text \<open>
  Whatever orders, fills, rejects and resets arrive, in floating-point arithmetic, the
  daily result is never positive, and between two resets it never increases: each fill adds
  only a slippage cost.
\<close>

theorem daily_pnl_never_rises:
  assumes "tick_ok cfg" and "DailyReset \<notin> set evs2"
  shows "rk_daily_pnl (risk_run (risk_init cfg) (evs1 @ evs2))
       \<le> rk_daily_pnl (risk_run (risk_init cfg) evs1) \<and>
     rk_daily_pnl (risk_run (risk_init cfg) evs1) \<le> 0"
proof -
  let ?r1 = "risk_run (risk_init cfg) evs1"
  have "pnl_ok (risk_init cfg)"
    using f64_ok_0 by (simp add: pnl_ok_def risk_init_def less_eq_f64_def zero_f64_def)
  moreover have "rk_cfg (risk_init cfg) = cfg" by (simp add: risk_init_def)
  ultimately have r1: "pnl_ok ?r1" using risk_run_pnl assms(1) by metis
  have "risk_run (risk_init cfg) (evs1 @ evs2) = risk_run ?r1 evs2" by (simp add: risk_run_def)
  then show ?thesis
    using risk_run_pnl [OF r1, of evs2] assms r1 \<open>rk_cfg (risk_init cfg) = cfg\<close>
    by (simp add: pnl_ok_def)
qed

section \<open>Cooldown\<close>

text \<open>
  A cooldown started at a nonzero time blocks trading for exactly
  \<open>cooldown_duration_ns\<close> from its start, for every time stamp that does not precede it.
\<close>

theorem cooldown_window:
  assumes "rk_cooldown_start_ns r \<noteq> 0" and "rk_cooldown_start_ns r \<le> now_ns"
  shows "in_cooldown r now_ns \<longleftrightarrow>
     unat now_ns < unat (rk_cooldown_start_ns r) + unat (cooldown_duration_ns (rk_cfg r))"
  using assms
  by (auto simp: in_cooldown_def word_less_nat_alt word_le_nat_alt unat_sub_if')

text \<open>A fill over the consecutive-slippage threshold, but not over the abort threshold.\<close>

definition over_slip :: "risk_config \<Rightarrow> order \<Rightarrow> bool" where
  "over_slip cfg ord \<longleftrightarrow> cooldown_slip_ticks cfg < slippage_ticks ord
     \<and> \<not> single_slip_abort_ticks cfg < slippage_ticks ord"

definition fills :: "(order \<times> u64) list \<Rightarrow> risk_event list" where
  "fills fs = map (\<lambda>(ord, t). FillReport ord t) fs"

lemma fills_snoc:
  "risk_run r (fills (fs @ [(ord, t)])) = on_fill (risk_run r (fills fs)) ord t"
  by (simp add: fills_def risk_run_def)

lemma fills_count:
  assumes "\<forall>f \<in> set fs. over_slip (rk_cfg r) (fst f)"
    and "rk_consec_slip_count r + int (length fs) < cooldown_consec_slips (rk_cfg r)"
  shows "rk_consec_slip_count (risk_run r (fills fs)) = rk_consec_slip_count r + int (length fs)
     \<and> rk_cooldown_start_ns (risk_run r (fills fs)) = rk_cooldown_start_ns r"
  using assms
proof (induction fs rule: rev_induct)
  case (snoc f fs)
  obtain ord t where f: "f = (ord, t)" by fastforce
  show ?case using snoc by (simp add: fills_snoc on_fill_count on_fill_cooldown over_slip_def f)
qed (simp add: fills_def risk_run_def)

text \<open>
  From a counter of zero, \<open>cooldown_consec_slips\<close> fills in a row whose slippage is over
  the per-trade threshold (and not over the abort threshold) start the cooldown at the time
  of the last of them and reset the counter; no proper prefix of them touches the cooldown.
\<close>

theorem consecutive_slips_start_cooldown:
  assumes "rk_consec_slip_count r = 0" and "\<forall>f \<in> set fs. over_slip (rk_cfg r) (fst f)"
    and "int (length fs) = cooldown_consec_slips (rk_cfg r)" and "fs \<noteq> []"
  shows "rk_cooldown_start_ns (risk_run r (fills fs)) = snd (last fs) \<and>
    rk_consec_slip_count (risk_run r (fills fs)) = 0 \<and>
    (\<forall>k < length fs. rk_cooldown_start_ns (risk_run r (fills (take k fs))) = rk_cooldown_start_ns r)"
proof -
  obtain gs ord t where fs: "fs = gs @ [(ord, t)]"
    using assms(4) by (metis rev_exhaust surj_pair)
  have gs: "rk_consec_slip_count (risk_run r (fills gs)) = int (length gs)"
    using fills_count [of gs r] assms(1-3) fs by simp
  have over: "over_slip (rk_cfg r) ord" using assms(2) fs by simp
  have "rk_cooldown_start_ns (risk_run r (fills (take k fs))) = rk_cooldown_start_ns r"
    if "k < length fs" for k
    using that assms(1-3) set_take_subset [of k fs]
    by (intro fills_count [THEN conjunct2]) auto
  then show ?thesis using gs over assms(3) fs
    by (simp add: fills_snoc on_fill_count on_fill_cooldown over_slip_def)
qed

section \<open>Position timeout\<close>

lemma no_order_no_position:
  "\<forall>ord t. OrderSent ord t \<notin> set evs \<Longrightarrow> \<not> rk_has_position r
     \<Longrightarrow> \<not> rk_has_position (risk_run r evs)"
  unfolding risk_run_def
proof (induction evs arbitrary: r)
  case (Cons e evs)
  have "\<not> rk_has_position (risk_step r e)"
    using Cons.prems by (cases e) (auto simp: on_fill_fields on_reject_def reset_daily_def)
  with Cons show ?case by simp
qed simp

text \<open>
  The position timeout never fires for a position that was opened by a fill: from a
  fill until the next order is sent, \<open>on_timer\<close> never asks for a forced close, at any time.
  (A fill clears \<open>has_position_\<close>; the timer watches orders in flight, not positions.)
\<close>

theorem timeout_ignores_filled_position:
  assumes "\<forall>o1 t. OrderSent o1 t \<notin> set evs"
  shows "on_timer (risk_run (on_fill r ord t0) evs) now_ns = None"
  using no_order_no_position [OF assms, of "on_fill r ord t0"]
  by (simp add: on_timer_def on_fill_fields)

section \<open>What the order manager relies on\<close>

text \<open>
  The contract between the order manager and the risk gate: sending occupies the gate with
  that order, a fill or a reject frees it.  \<open>tracks live r\<close> says that the order the gate is
  occupied with is one the client still knows.
\<close>

locale risk_gate =
  fixes sent :: "'r \<Rightarrow> 'o \<Rightarrow> 't \<Rightarrow> 'r"
    and filled :: "'r \<Rightarrow> 'o \<Rightarrow> 't \<Rightarrow> 'r"
    and rejected :: "'r \<Rightarrow> 'o \<Rightarrow> 'r"
    and busy :: "'r \<Rightarrow> bool"
    and current :: "'r \<Rightarrow> 'o"
  assumes busy_sent: "busy (sent r ord t)"
    and current_sent: "current (sent r ord t) = ord"
    and idle_filled: "\<not> busy (filled r ord t)"
    and idle_rejected: "\<not> busy (rejected r ord)"
begin

definition tracks :: "('o \<Rightarrow> bool) \<Rightarrow> 'r \<Rightarrow> bool" where
  "tracks live r \<longleftrightarrow> (busy r \<longrightarrow> live (current r))"

lemma tracks_sent: "live ord \<Longrightarrow> tracks live (sent r ord t)"
  by (simp add: tracks_def current_sent)

lemma tracks_filled: "tracks live (filled r ord t)"
  by (simp add: tracks_def idle_filled)

lemma tracks_rejected: "tracks live (rejected r ord)"
  by (simp add: tracks_def idle_rejected)

lemma tracks_mono: "tracks live r \<Longrightarrow> (\<And>ord. live ord \<Longrightarrow> live' ord) \<Longrightarrow> tracks live' r"
  by (simp add: tracks_def)

lemmas tracks_intros = tracks_sent tracks_filled tracks_rejected

end

interpretation gate: risk_gate on_order_sent on_fill on_reject rk_has_position rk_open_order
  by unfold_locales (simp_all add: on_order_sent_def on_fill_fields on_reject_def)

section \<open>Concrete fills\<close>

text \<open>Fills and configurations in the manner of \<open>tests/test_risk.cpp\<close>.\<close>

definition filled_order :: "int \<Rightarrow> int \<Rightarrow> order" where
  "filled_order l1 px = order_default\<lparr>ord_signal_l1 := l1, ord_fill_price := px, ord_qty := 1,
     ord_status := Filled\<rparr>"

definition tight_config :: risk_config where
  "tight_config = default_config\<lparr>max_daily_loss_usd := Fin 10, single_slip_abort_ticks := Fin 100\<rparr>"

lemma slippage_filled: "l1 \<noteq> 0 \<Longrightarrow> px \<noteq> 0 \<Longrightarrow> px - l1 = 100 * n \<Longrightarrow> 0 \<le> n \<Longrightarrow> n \<le> 2 ^ 40
    \<Longrightarrow> slippage_ticks (filled_order l1 px) = Fin (of_int n)"
proof -
  assume a: "l1 \<noteq> 0" "px \<noteq> 0" "px - l1 = 100 * n" "0 \<le> n" "n \<le> 2 ^ 40"
  have "f64_of_int (i64 (px - l1)) = Fin (of_int (100 * n))" unfolding a(3) using a(4,5) by simp
  moreover have "round64 (of_int n) = Fin (of_int n)"
    using a(4,5) by (intro round64_int) simp
  ultimately show ?thesis
    using a(1,2,4) by (simp add: slippage_ticks_def filled_order_def kPriceScale_def)
qed

theorem fuse_blocks_until_reset_witness:
  "let r = on_fill (risk_init tight_config) (filled_order 200000 201500) 1000
   in rk_fused r \<and> rk_fused (risk_run r [RejectReport order_default]) \<and>
      \<not> check_signal (risk_run r [RejectReport order_default]) signal_default 9000"
proof -
  let ?r = "on_fill (risk_init tight_config) (filled_order 200000 201500) 1000"
  have "slippage_ticks (filled_order 200000 201500) = Fin 15"
    using slippage_filled [of 200000 201500 15] by simp
  then have "rk_fused ?r"
    by (simp add: on_fill_fused on_fill_fields risk_init_def tight_config_def default_config_def
        zero_f64_def)
  then show ?thesis using fuse_blocks_until_reset [of ?r "[RejectReport order_default]"] by simp
qed

theorem abort_fill_skips_fuse_witness:
  "let r = on_fill (risk_init default_config) (filled_order 200000 206000) 1000
   in rk_daily_pnl r = Fin (- 60) \<and> \<not> rk_fused r \<and> check_signal r signal_default 60000001000"
proof -
  let ?r = "on_fill (risk_init default_config) (filled_order 200000 206000) 1000"
  have s: "slippage_ticks (filled_order 200000 206000) = Fin 60"
    using slippage_filled [of 200000 206000 60] by simp
  then have "rk_daily_pnl ?r = Fin (- 60)"
    by (simp add: on_fill_fields risk_init_def default_config_def zero_f64_def)
  then show ?thesis
    using abort_fill_skips_fuse [of "risk_init default_config" "filled_order 200000 206000" 1000
        60000001000 signal_default] s
    by (simp add: risk_init_def default_config_def Let_def)
qed

theorem ordinary_fill_fuses_witness:
  "let r = on_fill (risk_init tight_config) (filled_order 200000 201500) 1000
   in rk_fused r \<and> \<not> check_signal r signal_default 90000000000"
proof -
  have s: "slippage_ticks (filled_order 200000 201500) = Fin 15"
    using slippage_filled [of 200000 201500 15] by simp
  then show ?thesis
    using ordinary_fill_fuses [of "risk_init tight_config" "filled_order 200000 201500" 1000]
    by (simp add: on_fill_fields risk_init_def tight_config_def default_config_def zero_f64_def)
qed

theorem daily_pnl_never_rises_witness:
  "rk_daily_pnl (risk_run (risk_init default_config)
      ([FillReport (filled_order 200000 200300) 5] @ [FillReport (filled_order 200000 200300) 9]))
   \<le> rk_daily_pnl (risk_run (risk_init default_config) [FillReport (filled_order 200000 200300) 5])"
  using daily_pnl_never_rises [of default_config "[FillReport (filled_order 200000 200300) 9]"
      "[FillReport (filled_order 200000 200300) 5]"]
  by (simp add: tick_ok_def default_config_def)

theorem cooldown_window_witness:
  "let r = (risk_init default_config)\<lparr>rk_cooldown_start_ns := 1000\<rparr>
   in in_cooldown r 60000000999 \<and> \<not> in_cooldown r 60000001000"
  using cooldown_window [of "(risk_init default_config)\<lparr>rk_cooldown_start_ns := 1000\<rparr>" 60000000999]
    cooldown_window [of "(risk_init default_config)\<lparr>rk_cooldown_start_ns := 1000\<rparr>" 60000001000]
  by (simp add: risk_init_def default_config_def Let_def word_le_nat_alt)

theorem consecutive_slips_start_cooldown_witness:
  "let f = filled_order 200000 200300
   in rk_cooldown_start_ns (risk_run (risk_init default_config) (fills [(f, 10), (f, 20), (f, 30)]))
      = 30"
proof -
  have "slippage_ticks (filled_order 200000 200300) = Fin 3"
    using slippage_filled [of 200000 200300 3] by simp
  then show ?thesis
    using consecutive_slips_start_cooldown [of "risk_init default_config"
        "[(filled_order 200000 200300, 10), (filled_order 200000 200300, 20),
          (filled_order 200000 200300, 30)]"]
    by (simp add: risk_init_def default_config_def over_slip_def Let_def)
qed

theorem timeout_ignores_filled_position_witness:
  "on_timer (risk_run (on_fill (risk_init default_config) (filled_order 200000 200300) 1000)
     [FillReport (filled_order 200000 200300) 2000]) 9000000000 = None"
  using timeout_ignores_filled_position [of "[FillReport (filled_order 200000 200300) 2000]"
      "risk_init default_config" "filled_order 200000 200300" 1000 9000000000]
  by simp

end
