(* ===== verification/Fix_Message.thy ===== *)
theory Fix_Message
  imports Types Decimal
begin

text \<open>
  FIX messages as the two sessions (\<open>FixMdGateway\<close>, \<open>OrderManager\<close>) read and build them
  through QuickFIX: a header and a body of tagged string fields and repeating groups.
  Reading an absent field raises \<open>FieldNotFound\<close>; reading a field whose text does not
  convert raises \<open>IncorrectDataFormat\<close>.  The text conversions and the transport are
  QuickFIX code, which is not part of the sources: they are the fields of the parameter
  \<open>quickfix\<close> and the arguments of type \<open>send_result\<close>.
\<close>

type_synonym fix_tag = nat
type_synonym fix_fields = "fix_tag \<rightharpoonup> string"

record fix_message =
  msg_header :: fix_fields
  msg_body :: fix_fields
  msg_groups :: "fix_tag \<Rightarrow> fix_fields list"

datatype fix_error = FieldNotFound fix_tag | IncorrectDataFormat fix_tag

record quickfix =
  qf_double :: "string \<Rightarrow> f64 option"
  qf_int :: "string \<Rightarrow> int option"
  qf_char :: "string \<Rightarrow> char option"
  qf_of_double :: "f64 \<Rightarrow> string"

text \<open>\<open>Session::sendToTarget\<close>: throws \<open>SessionNotFound\<close>, or returns whether it sent.\<close>

datatype send_result = SendQueued bool | SendNoSession

type_synonym dictionary = "string \<rightharpoonup> string"

section \<open>Reading\<close>

definition get_string :: "fix_fields \<Rightarrow> fix_tag \<Rightarrow> fix_error + string" where
  "get_string fs t = (case fs t of None \<Rightarrow> Inl (FieldNotFound t) | Some s \<Rightarrow> Inr s)"

definition convert_field :: "(string \<Rightarrow> 'a option) \<Rightarrow> fix_tag \<Rightarrow> string \<Rightarrow> fix_error + 'a" where
  "convert_field conv t s = (case conv s of None \<Rightarrow> Inl (IncorrectDataFormat t) | Some v \<Rightarrow> Inr v)"

text \<open>A field object that \<open>get\<close> never filled still holds the empty text.\<close>

definition field_text :: "fix_fields \<Rightarrow> fix_tag \<Rightarrow> string" where
  "field_text fs t = (case fs t of None \<Rightarrow> [] | Some s \<Rightarrow> s)"

section \<open>Building\<close>

definition fix_new :: "string \<Rightarrow> fix_message" where
  "fix_new ty = \<lparr> msg_header = [35 \<mapsto> ty], msg_body = Map.empty, msg_groups = (\<lambda>_. []) \<rparr>"

definition set_header :: "fix_tag \<Rightarrow> string \<Rightarrow> fix_message \<Rightarrow> fix_message" where
  "set_header t s m = m\<lparr>msg_header := (msg_header m)(t \<mapsto> s)\<rparr>"

definition set_body :: "fix_tag \<Rightarrow> string \<Rightarrow> fix_message \<Rightarrow> fix_message" where
  "set_body t s m = m\<lparr>msg_body := (msg_body m)(t \<mapsto> s)\<rparr>"

definition add_group :: "fix_tag \<Rightarrow> fix_fields \<Rightarrow> fix_message \<Rightarrow> fix_message" where
  "add_group t g m = m\<lparr>msg_groups := (msg_groups m)(t := msg_groups m t @ [g])\<rparr>"

lemmas fix_building = fix_new_def set_header_def set_body_def add_group_def

text \<open>
  Both sessions fill in the credentials of an outgoing Logon from the settings of the
  session (\<open>None\<close>: the settings have no such session and the lookup throws).
\<close>

definition add_credentials :: "dictionary option \<Rightarrow> fix_message \<Rightarrow> fix_message" where
  "add_credentials dict m =
     (let m = set_body 98 ''0'' m
      in case dict of
           None \<Rightarrow> m
         | Some d \<Rightarrow>
             (let m = (case d ''Username'' of None \<Rightarrow> m | Some u \<Rightarrow> set_body 553 u m)
              in case d ''Password'' of None \<Rightarrow> m | Some p \<Rightarrow> set_body 554 p m))"

text \<open>A conversion for examples: decimal integers, as \<open>qf_double\<close> and \<open>qf_int\<close> read them.\<close>

definition sample_quickfix :: quickfix where
  "sample_quickfix =
     \<lparr> qf_double = (\<lambda>s. if s \<noteq> [] \<and> list_all is_digit s
         then Some (f64_of_int (int (digits_value s))) else None),
       qf_int = (\<lambda>s. if s \<noteq> [] \<and> list_all is_digit s then Some (int (digits_value s)) else None),
       qf_char = (\<lambda>s. if length s = 1 then Some (hd s) else None),
       qf_of_double = (\<lambda>x. case x of Fin r \<Rightarrow> decimal (nat (rat_trunc r)) | _ \<Rightarrow> []) \<rparr>"

end
