(* ===== verification/Machine.thy ===== *)
theory Machine
  imports Prelude
begin

text \<open>
  Programs that run over a list of events: a step returns the new state and its outputs in
  order, a run threads the state through and appends the outputs.  The order manager, the
  engine at its three granularities and the logger are such machines; the locale holds the
  inductions over runs they share.
\<close>

locale machine =
  fixes step :: "'s \<Rightarrow> 'e \<Rightarrow> 's \<times> 'o list" and run :: "'s \<Rightarrow> 'e list \<Rightarrow> 's \<times> 'o list"
  assumes run_Nil: "run s [] = (s, [])"
    and run_Cons: "run s (e # evs) = (let (s1, outs1) = step s e; (s2, outs2) = run s1 evs in (s2, outs1 @ outs2))"
begin

lemma run_append:
  "run s (xs @ ys) = (let (s1, outs1) = run s xs; (s2, outs2) = run s1 ys in (s2, outs1 @ outs2))"
  by (induction xs arbitrary: s) (simp_all add: run_Nil run_Cons case_prod_unfold Let_def)

lemma run_ConsE:
  assumes "run s (e # evs) = (s2, outs)"
  obtains s1 outs1 outs2 where "step s e = (s1, outs1)" "run s1 evs = (s2, outs2)" "outs = outs1 @ outs2"
  using assms by (auto simp: run_Cons case_prod_unfold Let_def prod_eq_iff)

lemma run_one: "run s [e] = step s e"
  by (simp add: run_Nil run_Cons case_prod_unfold Let_def prod_eq_iff)

text \<open>A relation between the states around a run and its outputs, from that of a step.\<close>

lemma run_relates:
  assumes "\<And>s. R s [] s" "\<And>s1 o1 s2 o2 s3. R s1 o1 s2 \<Longrightarrow> R s2 o2 s3 \<Longrightarrow> R s1 (o1 @ o2) s3"
    and "\<And>s e s' outs. e \<in> set evs \<Longrightarrow> step s e = (s', outs) \<Longrightarrow> R s outs s'"
  shows "run s evs = (s', outs) \<Longrightarrow> R s outs s'"
  using assms(3)
proof (induction evs arbitrary: s outs)
  case Nil
  then show ?case using assms(1) by (simp add: run_Nil)
next
  case (Cons e evs)
  from Cons.prems(1) obtain s1 o1 o2 where st: "step s e = (s1, o1)" "run s1 evs = (s', o2)" "outs = o1 @ o2"
    by (rule run_ConsE)
  have "R s o1 s1" using Cons.prems(2) [of e, OF _ st(1)] by simp
  moreover have "R s1 o2 s'" by (rule Cons.IH [OF st(2)]) (rule Cons.prems(2), simp_all)
  ultimately show ?case unfolding st(3) by (rule assms(2))
qed

text \<open>An invariant of the state, and what it says of every output.\<close>

lemma run_safe:
  assumes "\<And>s e s' outs. I s \<Longrightarrow> e \<in> set evs \<Longrightarrow> step s e = (s', outs) \<Longrightarrow> I s' \<and> (\<forall>x \<in> set outs. P x)"
    and "run s evs = (s', outs)" and "I s"
  shows "I s' \<and> (\<forall>x \<in> set outs. P x)"
  using run_relates [of "\<lambda>s outs s'. I s \<longrightarrow> I s' \<and> (\<forall>x \<in> set outs. P x)" evs s s' outs] assms by auto

lemma run_invariant:
  assumes "\<And>s e s' outs. I s \<Longrightarrow> e \<in> set evs \<Longrightarrow> step s e = (s', outs) \<Longrightarrow> I s'"
    and "run s evs = (s', outs)" and "I s"
  shows "I s'"
  using run_safe [of I evs "\<lambda>_. True" s s' outs] assms by blast

text \<open>Being reached, with these outputs, by a run.\<close>

definition reaches :: "'s \<Rightarrow> 'o list \<Rightarrow> 's \<Rightarrow> bool" where
  "reaches s outs s' \<longleftrightarrow> (\<exists>evs. run s evs = (s', outs))"

lemma reaches_refl: "reaches s [] s"
  unfolding reaches_def by (rule exI [of _ "[]"]) (rule run_Nil)

lemma reaches_step: "step s e = (s', outs) \<Longrightarrow> reaches s outs s'"
  unfolding reaches_def by (rule exI [of _ "[e]"]) (simp add: run_one)

lemma reaches_trans: "reaches s outs1 s1 \<Longrightarrow> reaches s1 outs2 s2 \<Longrightarrow> reaches s (outs1 @ outs2) s2"
  unfolding reaches_def
proof (elim exE)
  fix xs ys
  assume "run s xs = (s1, outs1)" "run s1 ys = (s2, outs2)"
  then show "\<exists>evs. run s evs = (s2, outs1 @ outs2)"
    by (intro exI [of _ "xs @ ys"]) (simp add: run_append)
qed

end

end
