(* ===== verification/Order_Manager.thy ===== *)
theory Order_Manager
  imports Fix_Message Risk_Manager Machine
begin

text \<open>
  \<open>OrderManager\<close> (\<open>include/smartquant/oms/order_manager.hpp\<close>,
  \<open>src/oms/order_manager.cpp\<close>): the trade session.  The state is the open orders by
  client order id, the id sequence, the session flags and the risk manager it drives.  Each
  operation returns the new state and its outputs in order: messages handed to the
  transport and callbacks.  The clock readings, the UTC text of \<open>TransactTime\<close> and the
  result of \<open>Session::sendToTarget\<close> are arguments.  Log output is left out.
\<close>

section \<open>State\<close>

record oms =
  om_risk :: risk
  om_session_id :: string
  om_logged_on :: bool
  om_order_seq :: u64
  om_open_orders :: "string \<rightharpoonup> order"
  om_on_fill :: bool
  om_on_reject :: bool

datatype oms_output = ToMarket fix_message string | FillCallback order | RejectCallback order

definition oms_init :: "risk \<Rightarrow> oms" where
  "oms_init r = \<lparr> om_risk = r, om_session_id = [], om_logged_on = False, om_order_seq = 1,
     om_open_orders = Map.empty, om_on_fill = False, om_on_reject = False \<rparr>"

definition set_fill_callback :: "oms \<Rightarrow> oms" where
  "set_fill_callback s = s\<lparr>om_on_fill := True\<rparr>"

definition set_reject_callback :: "oms \<Rightarrow> oms" where
  "set_reject_callback s = s\<lparr>om_on_reject := True\<rparr>"

section \<open>Session events\<close>

definition oms_toAdmin :: "dictionary option \<Rightarrow> fix_message \<Rightarrow> fix_error + fix_message" where
  "oms_toAdmin dict m =
     (case get_string (msg_header m) 35 of
        Inl e \<Rightarrow> Inl e
      | Inr ty \<Rightarrow> Inr (if ty \<noteq> ''A'' then m else add_credentials dict m))"

definition oms_onLogon :: "string \<Rightarrow> oms \<Rightarrow> oms" where
  "oms_onLogon sid s = s\<lparr>om_session_id := sid, om_logged_on := True\<rparr>"

definition oms_onLogout :: "oms \<Rightarrow> oms" where
  "oms_onLogout s = s\<lparr>om_logged_on := False\<rparr>"

section \<open>Sending\<close>

definition clordid_of :: "u64 \<Rightarrow> string" where
  "clordid_of n = ''SQ_'' @ decimal (unat n)"

definition next_clordid :: "oms \<Rightarrow> oms \<times> string" where
  "next_clordid s = (s\<lparr>om_order_seq := om_order_seq s + 1\<rparr>, clordid_of (om_order_seq s))"

definition side_text :: "side \<Rightarrow> string" where
  "side_text sd = (case sd of Buy \<Rightarrow> ''1'' | Sell \<Rightarrow> ''2'')"

definition new_order_single :: "quickfix \<Rightarrow> string \<Rightarrow> string \<Rightarrow> side \<Rightarrow> int \<Rightarrow> fix_message" where
  "new_order_single q utc clordid sd qty =
     set_body 60 utc (set_body 59 ''3'' (set_body 40 ''1''
       (set_body 38 (qf_of_double q (f64_of_int qty)) (set_body 54 (side_text sd)
         (set_body 55 ''XAUUSD'' (set_body 11 clordid (fix_new ''D'')))))))"

definition cancel_request :: "string \<Rightarrow> string \<Rightarrow> string \<Rightarrow> side \<Rightarrow> fix_message" where
  "cancel_request utc orig clordid sd =
     set_body 60 utc (set_body 54 (side_text sd) (set_body 55 ''XAUUSD''
       (set_body 11 clordid (set_body 41 orig (fix_new ''F'')))))"

text \<open>The order record: \<open>strncpy\<close> copies at most 31 characters of the id.\<close>

definition sent_order :: "string \<Rightarrow> side \<Rightarrow> int \<Rightarrow> int \<Rightarrow> u64 \<Rightarrow> order" where
  "sent_order clordid sd qty signal_l1 ts_ns =
     order_default\<lparr>ord_clordid := take 31 clordid, ord_side := sd, ord_qty := qty,
       ord_signal_l1 := signal_l1, ord_sent_ts_ns := ts_ns, ord_status := Sent\<rparr>"

definition send_ioc ::
  "quickfix \<Rightarrow> send_result \<Rightarrow> string \<Rightarrow> side \<Rightarrow> int \<Rightarrow> int \<Rightarrow> u64 \<Rightarrow> oms
     \<Rightarrow> oms \<times> oms_output list \<times> string" where
  "send_ioc q net utc sd qty signal_l1 ts_ns s0 =
     (if \<not> om_logged_on s0 then (s0, [], [])
      else
        (let (s, clordid) = next_clordid s0;
             msg = new_order_single q utc clordid sd qty;
             ord = sent_order clordid sd qty signal_l1 ts_ns;
             s = s\<lparr>om_open_orders := (om_open_orders s)(clordid \<mapsto> ord)\<rparr>;
             s = s\<lparr>om_risk := on_order_sent (om_risk s) ord ts_ns\<rparr>
         in case net of
              SendQueued _ \<Rightarrow> (s, [ToMarket msg (om_session_id s)], clordid)
            | SendNoSession \<Rightarrow>
                (s\<lparr>om_open_orders := (om_open_orders s)(clordid := None),
                   om_risk := on_reject (om_risk s) ord\<rparr>, [], [])))"

definition cancel_order :: "send_result \<Rightarrow> string \<Rightarrow> string \<Rightarrow> oms \<Rightarrow> oms \<times> oms_output list" where
  "cancel_order net utc clordid s0 =
     (case om_open_orders s0 clordid of
        None \<Rightarrow> (s0, [])
      | Some ord \<Rightarrow>
          (let (s, new_id) = next_clordid s0;
               req = cancel_request utc clordid new_id (ord_side ord)
           in case net of
                SendQueued _ \<Rightarrow> (s, [ToMarket req (om_session_id s)])
              | SendNoSession \<Rightarrow> (s, [])))"

section \<open>Receiving\<close>

text \<open>
  Execution types (tag 150) as the FIX protocol assigns them.  \<open>now_ns\<close> is the clock
  reading of the handler.  No error of the handler comes after a change of the state.
\<close>

definition apply_fill :: "string \<Rightarrow> char \<Rightarrow> f64 \<Rightarrow> u64 \<Rightarrow> order \<Rightarrow> oms \<Rightarrow> oms \<times> oms_output list" where
  "apply_fill clordid et last_px now_ns ord0 s =
     (let ord = ord0\<lparr>ord_fill_price := to_price last_px, ord_fill_ts_ns := now_ns,
                     ord_status := (if et = CHR ''2'' then Filled else Pending)\<rparr>;
          s = s\<lparr>om_open_orders := (om_open_orders s)(clordid \<mapsto> ord)\<rparr>;
          s = s\<lparr>om_risk := on_fill (om_risk s) ord now_ns\<rparr>;
          outs = (if om_on_fill s then [FillCallback ord] else []);
          s = (if et = CHR ''2'' then s\<lparr>om_open_orders := (om_open_orders s)(clordid := None)\<rparr> else s)
      in (s, outs))"

definition apply_reject :: "string \<Rightarrow> char \<Rightarrow> order \<Rightarrow> oms \<Rightarrow> oms \<times> oms_output list" where
  "apply_reject clordid et ord0 s =
     (let ord = ord0\<lparr>ord_status := (if et = CHR ''8'' then Rejected else Cancelled)\<rparr>;
          s = s\<lparr>om_risk := on_reject (om_risk s) ord\<rparr>;
          outs = (if om_on_reject s then [RejectCallback ord] else [])
      in (s\<lparr>om_open_orders := (om_open_orders s)(clordid := None)\<rparr>, outs))"

definition on_execution_report ::
  "quickfix \<Rightarrow> fix_fields \<Rightarrow> u64 \<Rightarrow> oms \<Rightarrow> fix_error + oms \<times> oms_output list" where
  "on_execution_report q fs now_ns s =
     (case get_string fs 11 of Inl e \<Rightarrow> Inl e
      | Inr clordid \<Rightarrow>
     (case get_string fs 150 of Inl e \<Rightarrow> Inl e
      | Inr et_text \<Rightarrow>
     (case om_open_orders s clordid of None \<Rightarrow> Inr (s, [])
      | Some ord \<Rightarrow>
     (case convert_field (qf_char q) 150 et_text of Inl e \<Rightarrow> Inl e
      | Inr et \<Rightarrow>
        (if et = CHR ''2'' \<or> et = CHR ''1'' then
           (case convert_field (qf_double q) 31 (field_text fs 31) of Inl e \<Rightarrow> Inl e
            | Inr last_px \<Rightarrow> Inr (apply_fill clordid et last_px now_ns ord s))
         else if et = CHR ''8'' \<or> et = CHR ''C'' then Inr (apply_reject clordid et ord s)
         else Inr (s, []))))))"

definition on_cancel_reject :: "fix_fields \<Rightarrow> oms \<Rightarrow> fix_error + oms \<times> oms_output list" where
  "on_cancel_reject fs s =
     (case get_string fs 11 of Inl e \<Rightarrow> Inl e | Inr _ \<Rightarrow> Inr (s, []))"

text \<open>
  \<open>fromApp\<close> swallows a missing field; a missing message type or a malformed field goes back
  to QuickFIX as the returned error, the state unchanged.
\<close>

definition oms_fromApp ::
  "quickfix \<Rightarrow> fix_message \<Rightarrow> u64 \<Rightarrow> oms \<Rightarrow> oms \<times> oms_output list \<times> fix_error option" where
  "oms_fromApp q m now_ns s =
     (case get_string (msg_header m) 35 of
        Inl e \<Rightarrow> (s, [], Some e)
      | Inr ty \<Rightarrow>
          (case (if ty = ''8'' then on_execution_report q (msg_body m) now_ns s
                 else if ty = ''9'' then on_cancel_reject (msg_body m) s
                 else Inr (s, [])) of
             Inl (FieldNotFound _) \<Rightarrow> (s, [], None)
           | Inl (IncorrectDataFormat t) \<Rightarrow> (s, [], Some (IncorrectDataFormat t))
           | Inr (s', outs) \<Rightarrow> (s', outs, None)))"

text \<open>The calls the order manager receives from the engine and from QuickFIX, as events.\<close>

datatype oms_event =
    SessionUp string
  | SessionDown
  | SendOrder send_result string side int int u64
  | CancelOrder send_result string string
  | Incoming fix_message u64

fun oms_step :: "quickfix \<Rightarrow> oms \<Rightarrow> oms_event \<Rightarrow> oms \<times> oms_output list" where
  "oms_step q s (SessionUp sid) = (oms_onLogon sid s, [])"
| "oms_step q s SessionDown = (oms_onLogout s, [])"
| "oms_step q s (SendOrder net utc sd qty l1 ts_ns) =
     (let (s', outs, _) = send_ioc q net utc sd qty l1 ts_ns s in (s', outs))"
| "oms_step q s (CancelOrder net utc clordid) = cancel_order net utc clordid s"
| "oms_step q s (Incoming m now_ns) = (let (s', outs, _) = oms_fromApp q m now_ns s in (s', outs))"

fun oms_run :: "quickfix \<Rightarrow> oms \<Rightarrow> oms_event list \<Rightarrow> oms \<times> oms_output list" where
  "oms_run q s [] = (s, [])"
| "oms_run q s (e # evs) =
     (let (s1, outs1) = oms_step q s e; (s2, outs2) = oms_run q s1 evs in (s2, outs1 @ outs2))"

interpretation oms: machine "oms_step q" "oms_run q"
  by unfold_locales simp_all

lemma oms_run_Cons: "oms_step q s e = (s1, outs1) \<Longrightarrow> fst (oms_run q s (e # evs)) = fst (oms_run q s1 evs)"
  by (simp add: case_prod_unfold Let_def)

section \<open>Order ids\<close>

lemma clordid_of_inj [simp]: "clordid_of m = clordid_of n \<longleftrightarrow> m = n"
  by (simp add: clordid_of_def word_unat_eq_iff)

lemma clordid_of_not_Nil [simp]: "clordid_of n \<noteq> []" "[] \<noteq> clordid_of n"
  by (simp_all add: clordid_of_def)

text \<open>The copy into \<open>char[32]\<close> never truncates.\<close>

lemma clordid_fits [simp]: "take 31 (clordid_of n) = clordid_of n"
  using length_decimal_u64 [of n] by (simp add: clordid_of_def)

lemma sent_order_clordid [simp]: "ord_clordid (sent_order (clordid_of n) sd qty l1 ts) = clordid_of n"
  by (simp add: sent_order_def)

section \<open>What an incoming message can do\<close>

lemma report_result:
  assumes "on_execution_report q fs now_ns s = Inr res"
  shows "res = (s, []) \<or>
    (\<exists>clordid et last_px ord. om_open_orders s clordid = Some ord \<and>
       (et = CHR ''2'' \<or> et = CHR ''1'') \<and> res = apply_fill clordid et last_px now_ns ord s) \<or>
    (\<exists>clordid et ord. om_open_orders s clordid = Some ord \<and>
       (et = CHR ''8'' \<or> et = CHR ''C'') \<and> res = apply_reject clordid et ord s)"
  using assms unfolding on_execution_report_def
  by (auto split: sum.splits option.splits if_split_asm)

lemma fromApp_cases:
  obtains (same) err where "oms_fromApp q m now_ns s = (s, [], err)"
  | (fill) clordid et last_px ord s' outs where "om_open_orders s clordid = Some ord"
      "et = CHR ''2'' \<or> et = CHR ''1''" "apply_fill clordid et last_px now_ns ord s = (s', outs)"
      "oms_fromApp q m now_ns s = (s', outs, None)"
  | (reject) clordid et ord s' outs where "om_open_orders s clordid = Some ord"
      "et = CHR ''8'' \<or> et = CHR ''C''" "apply_reject clordid et ord s = (s', outs)"
      "oms_fromApp q m now_ns s = (s', outs, None)"
proof -
  consider (no) "\<nexists>ty. get_string (msg_header m) 35 = Inr ty"
    | (report) "get_string (msg_header m) 35 = Inr ''8''"
    | (other) ty where "get_string (msg_header m) 35 = Inr ty" "ty \<noteq> ''8''"
    by fastforce
  then show thesis
  proof cases
    case no
    then show ?thesis using same by (cases "get_string (msg_header m) 35") (auto simp: oms_fromApp_def)
  next
    case other
    then show ?thesis using same
      by (cases "ty = ''9''"; cases "msg_body m 11")
        (auto simp: oms_fromApp_def on_cancel_reject_def get_string_def)
  next
    case report
    then have eq: "oms_fromApp q m now_ns s = (case on_execution_report q (msg_body m) now_ns s of
             Inl (FieldNotFound _) \<Rightarrow> (s, [], None)
           | Inl (IncorrectDataFormat t) \<Rightarrow> (s, [], Some (IncorrectDataFormat t))
           | Inr (s', outs) \<Rightarrow> (s', outs, None))"
      by (simp add: oms_fromApp_def)
    show ?thesis
    proof (cases "on_execution_report q (msg_body m) now_ns s")
      case (Inl e)
      then show ?thesis using eq same by (cases e) auto
    next
      case (Inr res)
      obtain s' outs where res: "res = (s', outs)" by fastforce
      then have "oms_fromApp q m now_ns s = (s', outs, None)" using Inr eq by simp
      then show ?thesis using report_result [OF Inr] same fill reject unfolding res by (metis prod.inject)
    qed
  qed
qed

section \<open>Ids are never reused\<close>

text \<open>The ids (tag 11) of the messages among some outputs.\<close>

definition market_ids :: "oms_output list \<Rightarrow> string list" where
  "market_ids outs = concat (map (\<lambda>x. case x of ToMarket m _ \<Rightarrow>
     (case msg_body m 11 of Some i \<Rightarrow> [i] | None \<Rightarrow> []) | _ \<Rightarrow> []) outs)"

lemma market_ids_append: "market_ids (xs @ ys) = market_ids xs @ market_ids ys"
  by (simp add: market_ids_def)

lemma new_order_id: "msg_body (new_order_single q utc i sd qty) 11 = Some i"
  by (simp add: new_order_single_def fix_building)

lemma cancel_request_id: "msg_body (cancel_request utc orig i sd) 11 = Some i"
  by (simp add: cancel_request_def fix_building)

lemma apply_fill_seq: "apply_fill clordid et px now_ns ord s = (s', outs) \<Longrightarrow>
    om_order_seq s' = om_order_seq s \<and> market_ids outs = []"
  by (auto simp: apply_fill_def Let_def market_ids_def split: if_splits)

lemma apply_reject_seq: "apply_reject clordid et ord s = (s', outs) \<Longrightarrow>
    om_order_seq s' = om_order_seq s \<and> market_ids outs = []"
  by (auto simp: apply_reject_def Let_def market_ids_def split: if_splits)

lemma oms_step_seq:
  assumes "oms_step q s e = (s', outs)"
  shows "om_order_seq s' = om_order_seq s \<and> market_ids outs = [] \<or>
    om_order_seq s' = om_order_seq s + 1 \<and>
      (market_ids outs = [] \<or> market_ids outs = [clordid_of (om_order_seq s)])"
proof (cases e)
  case (SendOrder net utc sd qty l1 ts)
  then show ?thesis using assms
    by (auto simp: send_ioc_def next_clordid_def market_ids_def new_order_id Let_def
        split: if_splits send_result.splits)
next
  case (CancelOrder net utc i)
  then show ?thesis using assms
    by (auto simp: cancel_order_def next_clordid_def market_ids_def cancel_request_id Let_def
        split: option.splits send_result.splits)
next
  case (Incoming m now_ns)
  show ?thesis
    by (rule fromApp_cases [of q m now_ns s])
      (use Incoming assms apply_fill_seq apply_reject_seq in \<open>fastforce simp: market_ids_def\<close>)+
qed (use assms in \<open>auto simp: oms_onLogon_def oms_onLogout_def market_ids_def\<close>)

lemma oms_run_ids:
  assumes "unat (om_order_seq s) + length evs < 2 ^ 64" "oms_run q s evs = (s', outs)"
  shows "distinct (market_ids outs) \<and> om_order_seq s \<le> om_order_seq s' \<and>
    (\<forall>i \<in> set (market_ids outs). \<exists>n. om_order_seq s \<le> n \<and> n < om_order_seq s' \<and> i = clordid_of n)"
  using assms
proof (induction evs arbitrary: s outs)
  case (Cons e evs)
  obtain s1 outs1 where s1: "oms_step q s e = (s1, outs1)" by fastforce
  obtain outs2 where s2: "oms_run q s1 evs = (s', outs2)" and outs: "outs = outs1 @ outs2"
    using Cons.prems(2) s1 by (auto split: prod.splits)
  note st = oms_step_seq [OF s1]
  have lt: "unat (om_order_seq s + 1) = Suc (unat (om_order_seq s))"
    using Cons.prems(1) by (intro unat_Suc_u64) simp
  have "unat (om_order_seq s1) + length evs < 2 ^ 64"
    using st lt Cons.prems(1) by auto
  note IH = Cons.IH [OF this s2]
  have step: "om_order_seq s \<le> om_order_seq s1"
    using st lt by (auto simp: word_le_nat_alt)
  show ?case
    using st IH
  proof (elim disjE conjE)
    assume a: "om_order_seq s1 = om_order_seq s + 1" "market_ids outs1 = [clordid_of (om_order_seq s)]"
    then have "om_order_seq s < om_order_seq s1" using lt by (simp add: word_less_nat_alt)
    then show ?thesis using IH a(2) outs
      by (fastforce simp: market_ids_append dest: leD intro: less_imp_le order.trans less_le_trans)
  qed (use IH outs step in \<open>auto simp: market_ids_append intro: order.trans\<close>)
qed (simp add: market_ids_def)

text \<open>
  C24: Whatever the engine and the broker do, with fewer than \<open>2 ^ 64 - 1\<close> calls no two
  messages leave the trade session with the same client order id.
\<close>

theorem clordids_unique:
  assumes "length evs < 2 ^ 64 - 1"
  shows "distinct (market_ids (snd (oms_run q (oms_init r) evs)))"
proof -
  have "unat (om_order_seq (oms_init r)) = 1" by (simp add: oms_init_def)
  then show ?thesis using oms_run_ids [of "oms_init r" evs q] assms by (metis Suc_eq_plus1 add.commute less_diff_conv prod.collapse)
qed

section \<open>The risk manager sees a legal history\<close>

definition legal_history :: "risk \<Rightarrow> risk \<Rightarrow> bool" where
  "legal_history r r' \<longleftrightarrow> (\<exists>revs. DailyReset \<notin> set revs \<and> r' = risk_run r revs)"

lemma legal_refl: "legal_history r r"
  unfolding legal_history_def by (rule exI [of _ "[]"]) (simp add: risk_run_def)

lemma legal_step: "legal_history r r' \<Longrightarrow> e \<noteq> DailyReset \<Longrightarrow> legal_history r (risk_step r' e)"
  unfolding legal_history_def
  by (elim exE conjE) (rule_tac x = "revs @ [e]" in exI, simp add: risk_run_def)

lemma legal_trans: "legal_history r r' \<Longrightarrow> legal_history r' r'' \<Longrightarrow> legal_history r r''"
  unfolding legal_history_def
  by (elim exE conjE) (rule_tac x = "revs @ revsa" in exI, simp add: risk_run_def)

lemma legal_sent: "legal_history r (on_order_sent r ord t)"
  using legal_step [OF legal_refl, of "OrderSent ord t"] by simp

lemma legal_filled: "legal_history r (on_fill r ord t)"
  using legal_step [OF legal_refl, of "FillReport ord t"] by simp

lemma legal_rejected: "legal_history r (on_reject r ord)"
  using legal_step [OF legal_refl, of "RejectReport ord"] by simp

lemmas legal_intros = legal_refl legal_sent legal_filled legal_rejected legal_trans [OF legal_sent legal_rejected]

lemma apply_fill_risk: "apply_fill clordid et px now_ns ord s = (s', outs) \<Longrightarrow>
    legal_history (om_risk s) (om_risk s')"
  by (auto simp: apply_fill_def Let_def legal_filled split: if_splits)

lemma apply_reject_risk: "apply_reject clordid et ord s = (s', outs) \<Longrightarrow>
    legal_history (om_risk s) (om_risk s')"
  by (auto simp: apply_reject_def Let_def legal_rejected split: if_splits)

lemma oms_step_risk:
  assumes "oms_step q s e = (s', outs)"
  shows "legal_history (om_risk s) (om_risk s')"
proof (cases e)
  case (SendOrder net utc sd qty l1 ts)
  then show ?thesis using assms
    by (auto simp: send_ioc_def next_clordid_def Let_def intro: legal_intros
        split: if_splits send_result.splits)
next
  case (CancelOrder net utc i)
  then show ?thesis using assms
    by (auto simp: cancel_order_def next_clordid_def Let_def intro: legal_intros
        split: option.splits send_result.splits)
next
  case (Incoming m now_ns)
  show ?thesis
    by (rule fromApp_cases [of q m now_ns s])
      (use Incoming assms apply_fill_risk apply_reject_risk legal_refl in fastforce)+
qed (use assms in \<open>auto simp: oms_onLogon_def oms_onLogout_def intro: legal_intros\<close>)

lemma oms_run_risk: "legal_history (om_risk s) (om_risk (fst (oms_run q s evs)))"
proof (induction evs arbitrary: s)
  case (Cons e evs)
  obtain s1 outs1 where s1: "oms_step q s e = (s1, outs1)" by fastforce
  then show ?case using legal_trans [OF oms_step_risk [OF s1] Cons.IH]
    by (simp only: oms_run_Cons)
qed (simp add: legal_refl)

text \<open>
  Nothing the order manager does re-arms a tripped fuse or raises the daily result: over
  any history of sends, cancels, reports and session events the fuse stays tripped, every
  signal stays blocked and the daily result only falls.
\<close>

theorem oms_respects_fuse:
  assumes "rk_fused (om_risk s)" and "pnl_ok (om_risk s)" and "tick_ok (rk_cfg (om_risk s))"
  shows "rk_fused (om_risk (fst (oms_run q s evs))) \<and>
    \<not> check_signal (om_risk (fst (oms_run q s evs))) sig now_ns \<and>
    rk_daily_pnl (om_risk (fst (oms_run q s evs))) \<le> rk_daily_pnl (om_risk s)"
proof -
  obtain revs where "DailyReset \<notin> set revs"
    "om_risk (fst (oms_run q s evs)) = risk_run (om_risk s) revs"
    using oms_run_risk [of s q evs] by (auto simp: legal_history_def)
  then show ?thesis
    using assms risk_run_fused [of revs "om_risk s"] risk_run_pnl [of "om_risk s" revs]
    by (simp add: check_signal_def)
qed

section \<open>The gate and the open orders\<close>

definition live_order :: "oms \<Rightarrow> order \<Rightarrow> bool" where
  "live_order s ord \<longleftrightarrow> om_open_orders s (ord_clordid ord) = Some ord"

definition gate_ok :: "oms \<Rightarrow> bool" where
  "gate_ok s \<longleftrightarrow> gate.tracks (live_order s) (om_risk s)"

lemma gate_idle: "\<not> rk_has_position (om_risk s) \<Longrightarrow> gate_ok s"
  by (simp add: gate_ok_def gate.tracks_def)

lemma gate_same: "gate_ok s \<Longrightarrow> om_risk s' = om_risk s \<Longrightarrow> om_open_orders s' = om_open_orders s
    \<Longrightarrow> gate_ok s'"
  by (simp add: gate_ok_def live_order_def [abs_def])

lemma apply_fill_idle: "apply_fill clordid et px now_ns ord s = (s', outs) \<Longrightarrow>
    \<not> rk_has_position (om_risk s')"
  by (auto simp: apply_fill_def Let_def on_fill_fields split: if_splits)

lemma apply_reject_idle: "apply_reject clordid et ord s = (s', outs) \<Longrightarrow>
    \<not> rk_has_position (om_risk s')"
  by (auto simp: apply_reject_def Let_def on_reject_def split: if_splits)

lemma oms_step_gate:
  assumes "gate_ok s" "oms_step q s e = (s', outs)"
  shows "gate_ok s'"
proof (cases e)
  case (SendOrder net utc sd qty l1 ts)
  then show ?thesis using assms
    by (auto simp: send_ioc_def next_clordid_def Let_def gate_ok_def live_order_def
        intro!: gate.tracks_intros split: if_splits send_result.splits)
next
  case (CancelOrder net utc i)
  then show ?thesis using assms
    by (auto simp: cancel_order_def next_clordid_def Let_def elim: gate_same
        split: option.splits send_result.splits)
next
  case (Incoming m now_ns)
  show ?thesis
    by (rule fromApp_cases [of q m now_ns s])
      (use Incoming assms apply_fill_idle apply_reject_idle gate_idle in fastforce)+
qed (use assms in \<open>auto simp: oms_onLogon_def oms_onLogout_def elim: gate_same\<close>)

lemma oms_run_gate: "gate_ok s \<Longrightarrow> gate_ok (fst (oms_run q s evs))"
proof (induction evs arbitrary: s)
  case (Cons e evs)
  obtain s1 outs1 where s1: "oms_step q s e = (s1, outs1)" by fastforce
  show ?case using Cons.IH [OF oms_step_gate [OF Cons.prems s1]] by (simp only: oms_run_Cons [OF s1])
qed simp

text \<open>
  C17: Whenever the risk manager holds the gate closed for an order, the order manager still
  has exactly that order open: the two never disagree about the order in flight, so a
  report for it will find it.
\<close>

theorem gate_holds_an_open_order:
  assumes "rk_has_position (om_risk (fst (oms_run q (oms_init (risk_init cfg)) evs)))"
  shows "let s = fst (oms_run q (oms_init (risk_init cfg)) evs); ord = rk_open_order (om_risk s)
    in om_open_orders s (ord_clordid ord) = Some ord"
proof -
  have "gate_ok (oms_init (risk_init cfg))" by (rule gate_idle) (simp add: oms_init_def risk_init_def)
  from oms_run_gate [OF this, of q evs] show ?thesis
    using assms by (simp add: gate_ok_def gate.tracks_def live_order_def Let_def)
qed

section \<open>Reports\<close>

text \<open>A report for an open order, its type and its price being readable.\<close>

definition report_for :: "quickfix \<Rightarrow> fix_message \<Rightarrow> string \<Rightarrow> char \<Rightarrow> f64 \<Rightarrow> bool" where
  "report_for q m clordid et px \<longleftrightarrow> msg_header m 35 = Some ''8'' \<and> msg_body m 11 = Some clordid \<and>
     (\<exists>s. msg_body m 150 = Some s \<and> qf_char q s = Some et) \<and>
     qf_double q (field_text (msg_body m) 31) = Some px"

lemma fromApp_report:
  "report_for q m clordid et px \<Longrightarrow> om_open_orders s clordid = Some ord \<Longrightarrow>
     oms_fromApp q m now_ns s =
       (if et = CHR ''2'' \<or> et = CHR ''1'' then
          (case apply_fill clordid et px now_ns ord s of (s', outs) \<Rightarrow> (s', outs, None))
        else if et = CHR ''8'' \<or> et = CHR ''C'' then
          (case apply_reject clordid et ord s of (s', outs) \<Rightarrow> (s', outs, None))
        else (s, [], None))"
  by (auto simp: report_for_def oms_fromApp_def get_string_def on_execution_report_def convert_field_def)

text \<open>
  A full fill of an open order closes it in the order manager, books it at the reported
  price with the handler's time stamp in the risk manager, and calls the fill callback once
  with the filled order.
\<close>

theorem full_fill_closes_order:
  assumes "om_open_orders s clordid = Some ord" and "report_for q m clordid (CHR ''2'') px"
  shows "oms_fromApp q m now_ns s =
    (let filled = ord\<lparr>ord_fill_price := to_price px, ord_fill_ts_ns := now_ns, ord_status := Filled\<rparr>
     in (s\<lparr>om_open_orders := (om_open_orders s)(clordid := None),
           om_risk := on_fill (om_risk s) filled now_ns\<rparr>,
         if om_on_fill s then [FillCallback filled] else [], None))"
  by (simp add: fromApp_report [OF assms(2,1)] apply_fill_def Let_def)

text \<open>
  A partial fill leaves the order open and yet frees the gate: with no fuse and no
  cooldown the next signal is accepted while the first order is still working.
\<close>

theorem partial_fill_frees_gate:
  assumes "om_open_orders s clordid = Some ord" and "report_for q m clordid (CHR ''1'') px"
    and "oms_fromApp q m now_ns s = (s', outs, err)"
    and "\<not> rk_fused (om_risk s')" and "\<not> in_cooldown (om_risk s') now2_ns"
  shows "err = None \<and> check_signal (om_risk s') sig now2_ns \<and>
    om_open_orders s' clordid = Some (ord\<lparr>ord_fill_price := to_price px, ord_fill_ts_ns := now_ns,
      ord_status := Pending\<rparr>)"
  using assms(3-5) unfolding fromApp_report [OF assms(2,1)]
  by (auto simp: apply_fill_def Let_def check_signal_def on_fill_fields)

text \<open>The execution types the data dictionary of the trade session (\<open>config/spec/FIX44.xml\<close>) admits.\<close>

definition dictionary_exec_types :: "char list" where
  "dictionary_exec_types = ''03456789ABCDEFGHI''"

text \<open>
  No report whose execution type is in the session's data dictionary is booked as a fill:
  the dictionary, which validates incoming messages, has no type 1 or 2 (its fills are TRADE,
  F), so a report either rejects the order (8, C), or changes nothing at all.
\<close>

theorem dictionary_reports_never_fill:
  assumes "report_for q m clordid et px" and "et \<in> set dictionary_exec_types"
    and "om_open_orders s clordid = Some ord"
  shows "let (s', outs, err) = oms_fromApp q m now_ns s
    in rk_total_trades (om_risk s') = rk_total_trades (om_risk s) \<and>
       (\<forall>o1. FillCallback o1 \<notin> set outs) \<and>
       (et \<in> {CHR ''8'', CHR ''C''} \<or> (s', outs, err) = (s, [], None))"
proof -
  have "et \<noteq> CHR ''1''" "et \<noteq> CHR ''2''" using assms(2) by (auto simp: dictionary_exec_types_def)
  then show ?thesis unfolding fromApp_report [OF assms(1,3)]
    by (simp add: apply_reject_def on_reject_def Let_def)
qed

text \<open>
  Only a fill, a reject or an expiry ever frees the gate again.
\<close>

definition ignored_report :: "quickfix \<Rightarrow> oms \<Rightarrow> fix_message \<Rightarrow> bool" where
  "ignored_report q s m \<longleftrightarrow> (\<exists>clordid et px. report_for q m clordid et px \<and>
     om_open_orders s clordid \<noteq> None \<and> et \<notin> {CHR ''1'', CHR ''2'', CHR ''8'', CHR ''C''})"

lemma ignored_reports_run:
  "\<forall>e \<in> set evs. \<exists>m t. e = Incoming m t \<and> ignored_report q s m \<Longrightarrow> fst (oms_run q s evs) = s"
proof (induction evs)
  case (Cons e evs)
  then obtain m t where e: "e = Incoming m t" "ignored_report q s m" by auto
  then obtain clordid et px ord where r: "report_for q m clordid et px"
      "om_open_orders s clordid = Some ord" "et \<notin> {CHR ''1'', CHR ''2'', CHR ''8'', CHR ''C''}"
    by (auto simp: ignored_report_def)
  have "oms_step q s e = (s, [])" using r(3) by (simp add: e(1) fromApp_report [OF r(1,2)])
  from oms_run_Cons [OF this] Cons show ?case by simp
qed simp

text \<open>
  A cancelled order (execution type 4), or one filled by a TRADE report (F), is never
  released: such reports leave the order open and the gate closed, and every later signal is
  rejected.
\<close>

theorem canceled_order_blocks_trading:
  assumes "rk_has_position (om_risk s)"
    and "\<forall>e \<in> set evs. \<exists>m t. e = Incoming m t \<and> ignored_report q s m"
  shows "\<not> check_signal (om_risk (fst (oms_run q s evs))) sig now_ns \<and>
    om_open_orders (fst (oms_run q s evs)) = om_open_orders s"
  using ignored_reports_run [OF assms(2)] assms(1) by (simp add: check_signal_def)

text \<open>
  When QuickFIX has no session for the order, the send is undone: nothing is sent, the
  empty id is returned, the open orders are as before and the gate is free; only the id is
  spent.
\<close>

theorem failed_send_is_undone:
  assumes "om_logged_on s" and "om_open_orders s (clordid_of (om_order_seq s)) = None"
    and "send_ioc q SendNoSession utc sd qty l1 ts_ns s = (s', outs, clordid)"
  shows "clordid = [] \<and> outs = [] \<and> om_open_orders s' = om_open_orders s \<and>
    \<not> rk_has_position (om_risk s') \<and> om_order_seq s' = om_order_seq s + 1 \<and>
    rk_daily_pnl (om_risk s') = rk_daily_pnl (om_risk s)"
  using assms by (auto simp: send_ioc_def next_clordid_def Let_def on_reject_def on_order_sent_def)

section \<open>A trading session\<close>

definition sample_report :: "string \<Rightarrow> string \<Rightarrow> fix_message" where
  "sample_report clordid et =
     set_body 31 ''2002'' (set_body 150 et (set_body 11 clordid (fix_new ''8'')))"

definition sample_oms :: oms where
  "sample_oms = fst (oms_run sample_quickfix (set_fill_callback (oms_init (risk_init default_config)))
     [SessionUp ''TRADE'', SendOrder (SendQueued True) ''utc'' Buy 1 200000 1000])"

lemma sample_oms_open:
  "om_open_orders sample_oms = [clordid_of 1 \<mapsto> sent_order (clordid_of 1) Buy 1 200000 1000]"
  "om_risk sample_oms = on_order_sent (risk_init default_config)
     (sent_order (clordid_of 1) Buy 1 200000 1000) 1000"
  "om_on_fill sample_oms" "om_order_seq sample_oms = 2" "om_logged_on sample_oms"
  by (simp_all add: sample_oms_def oms_init_def set_fill_callback_def oms_onLogon_def send_ioc_def
      next_clordid_def Let_def)

lemma sample_report_for: "length et = 1 \<Longrightarrow>
    report_for sample_quickfix (sample_report i et) i (hd et) (Fin 2002)"
  by (simp add: report_for_def sample_report_def fix_building sample_quickfix_def field_text_def
      is_digit_def digits_value_def)

theorem clordids_unique_witness:
  "distinct (market_ids (snd (oms_run sample_quickfix (oms_init (risk_init default_config))
     [SessionUp ''TRADE'', SendOrder (SendQueued True) ''utc'' Buy 1 200000 1000,
      CancelOrder (SendQueued True) ''utc'' (clordid_of 1)])))"
  using clordids_unique [of "[SessionUp ''TRADE'', SendOrder (SendQueued True) ''utc'' Buy 1 200000 1000,
      CancelOrder (SendQueued True) ''utc'' (clordid_of 1)]" sample_quickfix "risk_init default_config"]
  by simp

definition fused_oms :: oms where
  "fused_oms = sample_oms\<lparr>om_risk := (risk_init default_config)\<lparr>rk_fused := True\<rparr>\<rparr>"

theorem oms_respects_fuse_witness:
  "\<not> check_signal (om_risk (fst (oms_run sample_quickfix fused_oms
      [Incoming (sample_report (clordid_of 1) ''2'') 5000]))) signal_default 9000"
proof -
  have "rk_fused (om_risk fused_oms)" "pnl_ok (om_risk fused_oms)" "tick_ok (rk_cfg (om_risk fused_oms))"
    using f64_ok_0
    by (simp_all add: fused_oms_def risk_init_def default_config_def pnl_ok_def tick_ok_def
        less_eq_f64_def zero_f64_def)
  then show ?thesis
    using oms_respects_fuse [of fused_oms sample_quickfix "[Incoming (sample_report (clordid_of 1) ''2'') 5000]"]
    by blast
qed

theorem gate_holds_an_open_order_witness:
  "om_open_orders (fst (oms_run sample_quickfix (oms_init (risk_init default_config))
     [SessionUp ''TRADE'', SendOrder (SendQueued True) ''utc'' Buy 1 200000 1000])) (clordid_of 1)
   = Some (sent_order (clordid_of 1) Buy 1 200000 1000)"
  using gate_holds_an_open_order [of sample_quickfix default_config
      "[SessionUp ''TRADE'', SendOrder (SendQueued True) ''utc'' Buy 1 200000 1000]"]
  by (simp add: oms_init_def oms_onLogon_def send_ioc_def next_clordid_def on_order_sent_def Let_def)

theorem full_fill_closes_order_witness:
  "case oms_fromApp sample_quickfix (sample_report (clordid_of 1) ''2'') 5000 sample_oms of
     (s', outs, err) \<Rightarrow> om_open_orders s' = Map.empty \<and> \<not> rk_has_position (om_risk s') \<and>
       length outs = 1 \<and> err = None"
  using full_fill_closes_order [of sample_oms "clordid_of 1" _ sample_quickfix
      "sample_report (clordid_of 1) ''2''" "Fin 2002" 5000] sample_report_for [of "''2''" "clordid_of 1"]
  by (simp add: sample_oms_open Let_def on_fill_fields)

lemma sample_fill_price: "to_price (Fin 2002) = 200200"
  using to_price_int [of 2002] by simp

theorem partial_fill_frees_gate_witness:
  "case oms_fromApp sample_quickfix (sample_report (clordid_of 1) ''1'') 5000 sample_oms of
     (s', outs, err) \<Rightarrow> om_open_orders s' (clordid_of 1) \<noteq> None \<and>
       check_signal (om_risk s') signal_default 6000"
proof -
  obtain s' outs err where r: "oms_fromApp sample_quickfix (sample_report (clordid_of 1) ''1'') 5000 sample_oms
      = (s', outs, err)" by (metis prod_cases3)
  have rep: "report_for sample_quickfix (sample_report (clordid_of 1) ''1'') (clordid_of 1) (CHR ''1'') (Fin 2002)"
    using sample_report_for [of "''1''" "clordid_of 1"] by simp
  have op: "om_open_orders sample_oms (clordid_of 1) = Some (sent_order (clordid_of 1) Buy 1 200000 1000)"
    by (simp add: sample_oms_open)
  have "slippage_ticks (sent_order (clordid_of 1) Buy 1 200000 1000
     \<lparr>ord_fill_price := 200200, ord_fill_ts_ns := 5000, ord_status := Pending\<rparr>) = Fin 2"
    by (simp add: slippage_ticks_def sent_order_def order_default_def kPriceScale_def round64_literal)
  then have "\<not> rk_fused (om_risk s')" "\<not> in_cooldown (om_risk s') 6000"
    using r unfolding fromApp_report [OF rep op]
    by (auto simp: apply_fill_def Let_def sample_oms_open sample_fill_price on_fill_specs on_order_sent_def
        risk_init_def default_config_def in_cooldown_def zero_f64_def)
  from partial_fill_frees_gate [OF op rep r this] r show ?thesis by simp
qed

theorem dictionary_reports_never_fill_witness:
  "fst (oms_fromApp sample_quickfix (sample_report (clordid_of 1) ''F'') 5000 sample_oms) = sample_oms"
  using dictionary_reports_never_fill [of sample_quickfix "sample_report (clordid_of 1) ''F''" "clordid_of 1"
      "CHR ''F''" "Fin 2002" sample_oms _ 5000] sample_report_for [of "''F''" "clordid_of 1"]
  by (simp add: sample_oms_open dictionary_exec_types_def Let_def case_prod_unfold prod_eq_iff)

theorem canceled_order_blocks_trading_witness:
  "\<not> check_signal (om_risk (fst (oms_run sample_quickfix sample_oms
     [Incoming (sample_report (clordid_of 1) ''4'') 5000]))) signal_default 900000000000"
proof -
  have "ignored_report sample_quickfix sample_oms (sample_report (clordid_of 1) ''4'')"
    unfolding ignored_report_def
    by (rule exI [of _ "clordid_of 1"], rule exI [of _ "CHR ''4''"], rule exI [of _ "Fin 2002"])
      (use sample_report_for [of "''4''" "clordid_of 1"] in \<open>simp add: sample_oms_open\<close>)
  moreover have "rk_has_position (om_risk sample_oms)" by (simp add: sample_oms_open on_order_sent_def)
  ultimately show ?thesis
    using canceled_order_blocks_trading [of sample_oms "[Incoming (sample_report (clordid_of 1) ''4'') 5000]"
        sample_quickfix signal_default 900000000000] by auto
qed

theorem failed_send_is_undone_witness:
  "let s = oms_onLogon ''TRADE'' (oms_init (risk_init default_config))
   in om_open_orders (fst (send_ioc sample_quickfix SendNoSession ''utc'' Buy 1 200000 1000 s)) = Map.empty"
  using failed_send_is_undone [of "oms_onLogon ''TRADE'' (oms_init (risk_init default_config))"
      sample_quickfix "''utc''" Buy 1 200000 1000]
  by (auto simp: oms_onLogon_def oms_init_def Let_def dest!: spec split: prod.splits)
    (metis prod.collapse fst_conv)

end
