(* ===== verification/Bucket_Ring.thy ===== *)
theory Bucket_Ring
  imports Types
begin

text \<open>
  The ring of time buckets that \<open>DeltaFactor\<close> and \<open>CancelFactor\<close> both keep: a fixed array,
  the index of the newest bucket and the number of valid ones.  The loops of the two
  \<open>advance_time\<close> functions and of the two window scans are the operations here; the classes
  supply the bucket type, its size and its duration.  The locale states what the scans rely
  on: the ring, read newest first, is a list on which appending is \<open>#\<close>, cut at the capacity.
\<close>

section \<open>The ring\<close>

record 'b ring =
  rg_buckets :: "'b list"
  rg_head :: nat
  rg_count :: nat

text \<open>Body of the loop of \<open>advance_time\<close>: step the head, overwrite the slot, count it.\<close>

definition ring_append :: "nat \<Rightarrow> 'b \<Rightarrow> 'b ring \<Rightarrow> 'b ring" where
  "ring_append cap b r =
     (let head = (rg_head r + 1) mod cap
      in \<lparr> rg_buckets = (rg_buckets r)[head := b], rg_head = head,
           rg_count = (if rg_count r < cap then rg_count r + 1 else rg_count r) \<rparr>)"

definition ring_extend :: "nat \<Rightarrow> (nat \<Rightarrow> 'b) \<Rightarrow> nat \<Rightarrow> 'b ring \<Rightarrow> 'b ring" where
  "ring_extend cap fresh to_add r = foldl (\<lambda>r i. ring_append cap (fresh i) r) r [0..<to_add]"

text \<open>First bucket of an empty ring.\<close>

definition ring_start :: "'b \<Rightarrow> 'b ring \<Rightarrow> 'b ring" where
  "ring_start b r = \<lparr> rg_buckets = (rg_buckets r)[0 := b], rg_head = 0, rg_count = 1 \<rparr>"

definition ring_newest :: "'b ring \<Rightarrow> 'b" where
  "ring_newest r = rg_buckets r ! rg_head r"

definition ring_set_newest :: "'b \<Rightarrow> 'b ring \<Rightarrow> 'b ring" where
  "ring_set_newest b r = r\<lparr>rg_buckets := (rg_buckets r)[rg_head r := b]\<rparr>"

text \<open>
  The scan of a window: \<open>i\<close> counts back from the head, the loop breaks at the first bucket
  that starts before the cutoff, and folds the others into an accumulator.
\<close>

function ring_scan :: "nat \<Rightarrow> ('b \<Rightarrow> bool) \<Rightarrow> ('a \<Rightarrow> 'b \<Rightarrow> 'a) \<Rightarrow> 'b ring \<Rightarrow> nat \<Rightarrow> 'a \<Rightarrow> 'a" where
  "ring_scan cap older f r i acc =
     (if i < rg_count r then
        (let b = rg_buckets r ! ((rg_head r + cap - i) mod cap)
         in if older b then acc else ring_scan cap older f r (i + 1) (f acc b))
      else acc)"
  by pat_completeness auto
termination by (relation "measure (\<lambda>(cap, older, f, r, i, acc). rg_count r - i)") auto

declare ring_scan.simps [simp del]

text \<open>
  \<open>advance_time\<close>: start the ring at the first event, otherwise append the buckets that have
  begun since the newest one, at most \<open>limit\<close> of them.
\<close>

definition ring_advance ::
  "nat \<Rightarrow> (u64 \<Rightarrow> 'b) \<Rightarrow> ('b \<Rightarrow> u64) \<Rightarrow> u64 \<Rightarrow> nat \<Rightarrow> u64 \<Rightarrow> 'b ring \<Rightarrow> 'b ring" where
  "ring_advance cap blank stamp bucket_ns limit now_ns r =
     (if rg_count r = 0 then ring_start (blank now_ns) r
      else
        (let bucket_start = stamp (ring_newest r)
         in if now_ns < bucket_start + bucket_ns then r
            else
              (let new_count = unat ((now_ns - bucket_start) div bucket_ns);
                   to_add = min new_count limit
               in ring_extend cap (\<lambda>i. blank (bucket_start + (of_nat i + 1) * bucket_ns)) to_add r)))"

section \<open>The ring as a list, newest bucket first\<close>

definition ring_list :: "nat \<Rightarrow> 'b ring \<Rightarrow> 'b list" where
  "ring_list cap r = map (\<lambda>i. rg_buckets r ! ((rg_head r + cap - i) mod cap)) [0..<rg_count r]"

definition ring_wf :: "nat \<Rightarrow> 'b ring \<Rightarrow> bool" where
  "ring_wf cap r \<longleftrightarrow> length (rg_buckets r) = cap \<and> rg_head r < cap \<and> rg_count r \<le> cap"

locale newest_first =
  fixes wf :: "'r \<Rightarrow> bool" and contents :: "'r \<Rightarrow> 'b list" and cap :: nat
    and append :: "'b \<Rightarrow> 'r \<Rightarrow> 'r" and set_newest :: "'b \<Rightarrow> 'r \<Rightarrow> 'r" and newest :: "'r \<Rightarrow> 'b"
  assumes wf_append: "wf r \<Longrightarrow> wf (append b r)"
    and contents_append: "wf r \<Longrightarrow> contents (append b r) = take cap (b # contents r)"
    and wf_set: "wf r \<Longrightarrow> wf (set_newest b r)"
    and contents_set: "wf r \<Longrightarrow> contents r \<noteq> [] \<Longrightarrow> contents (set_newest b r) = b # tl (contents r)"
    and newest_hd: "wf r \<Longrightarrow> contents r \<noteq> [] \<Longrightarrow> newest r = hd (contents r)"
    and cap_pos: "0 < cap"
begin

definition extend :: "(nat \<Rightarrow> 'b) \<Rightarrow> nat \<Rightarrow> 'r \<Rightarrow> 'r" where
  "extend fresh n r = foldl (\<lambda>r i. append (fresh i) r) r [0..<n]"

lemma wf_extend: "wf r \<Longrightarrow> wf (extend fresh n r)"
  by (induction n) (simp_all add: extend_def wf_append)

lemma contents_extend:
  "wf r \<Longrightarrow> length (contents r) \<le> cap \<Longrightarrow>
     contents (extend fresh n r) = take cap (rev (map fresh [0..<n]) @ contents r)"
proof (induction n)
  case (Suc n)
  have "contents (extend fresh (Suc n) r) = take cap (fresh n # contents (extend fresh n r))"
    using contents_append [OF wf_extend [OF Suc.prems(1)]] by (simp add: extend_def)
  also have "\<dots> = take cap (fresh n # rev (map fresh [0..<n]) @ contents r)"
    using Suc by (cases cap) (simp_all add: min_def)
  finally show ?case by simp
qed (simp add: extend_def)

lemma contents_extend_not_Nil:
  "wf r \<Longrightarrow> length (contents r) \<le> cap \<Longrightarrow> contents r \<noteq> [] \<Longrightarrow> contents (extend fresh n r) \<noteq> []"
  using cap_pos by (auto simp: contents_extend)

text \<open>The newest bucket after an extension by at least one.\<close>

lemma hd_contents_extend:
  "wf r \<Longrightarrow> length (contents r) \<le> cap \<Longrightarrow> 0 < n \<Longrightarrow> hd (contents (extend fresh n r)) = fresh (n - 1)"
  using cap_pos by (cases n; cases cap) (simp_all add: contents_extend)

end

section \<open>The array implements the list\<close>

lemma length_ring_list [simp]: "length (ring_list cap r) = rg_count r"
  by (simp add: ring_list_def)

lemma ring_list_empty_iff [simp]: "ring_list cap r = [] \<longleftrightarrow> rg_count r = 0"
  using length_ring_list [of cap r] by (metis length_0_conv)

lemma ring_append_wf: "0 < cap \<Longrightarrow> ring_wf cap r \<Longrightarrow> ring_wf cap (ring_append cap b r)"
  by (auto simp: ring_wf_def ring_append_def Let_def)

lemma ring_start_wf: "0 < cap \<Longrightarrow> ring_wf cap r \<Longrightarrow> ring_wf cap (ring_start b r)"
  by (auto simp: ring_wf_def ring_start_def)

lemma ring_start_list: "0 < cap \<Longrightarrow> ring_wf cap r \<Longrightarrow> ring_list cap (ring_start b r) = [b]"
  by (simp add: ring_wf_def ring_start_def ring_list_def)

lemma ring_set_newest_wf: "ring_wf cap r \<Longrightarrow> ring_wf cap (ring_set_newest b r)"
  by (simp add: ring_wf_def ring_set_newest_def)

text \<open>Stepping back \<open>i\<close> places from the head meets distinct slots for \<open>i < cap\<close>.\<close>

lemma back_index: "(i :: nat) < cap \<Longrightarrow> h < cap \<Longrightarrow> (h + cap - i) mod cap = (if i \<le> h then h - i else h + cap - i)"
proof (cases "i \<le> h")
  case True
  assume "h < cap"
  then have "h + cap - i = cap + (h - i)" using True by arith
  then have "(h + cap - i) mod cap = (cap + (h - i)) mod cap" by (simp only:)
  also have "\<dots> = h - i" using \<open>h < cap\<close> by simp
  finally show ?thesis using True by simp
qed simp

lemma back_index_Suc: "0 < cap \<Longrightarrow> (i :: nat) < cap \<Longrightarrow> h < cap \<Longrightarrow>
    ((h + 1) mod cap + cap - (i + 1)) mod cap = (h + cap - i) mod cap"
proof (cases "h + 1 < cap")
  case False
  assume a: "0 < cap" "i < cap" "h < cap"
  then have h: "h = cap - 1" using False by arith
  have "h + cap - i = (cap - (i + 1)) + cap" using a h by arith
  moreover have "(h + 1) mod cap + cap - (i + 1) = cap - (i + 1)" using a h by simp
  ultimately show ?thesis by simp
qed simp

lemma back_index_neq: "0 < (i :: nat) \<Longrightarrow> i < cap \<Longrightarrow> h < cap \<Longrightarrow> (h + cap - i) mod cap \<noteq> h"
  by (cases "i \<le> h") (simp_all add: back_index)

lemma ring_list_append:
  assumes "0 < cap" "ring_wf cap r"
  shows "ring_list cap (ring_append cap b r) = take cap (b # ring_list cap r)"
proof (rule nth_equalityI)
  let ?h = "(rg_head r + 1) mod cap"
  have wf: "length (rg_buckets r) = cap" "rg_head r < cap" "rg_count r \<le> cap"
    using assms(2) by (simp_all add: ring_wf_def)
  show "length (ring_list cap (ring_append cap b r)) = length (take cap (b # ring_list cap r))"
    using wf by (simp add: ring_append_def Let_def)
  fix i assume i0: "i < length (ring_list cap (ring_append cap b r))"
  then have i: "i < cap" "i < Suc (rg_count r)" using wf by (auto simp: ring_append_def Let_def split: if_splits)
  have "ring_list cap (ring_append cap b r) ! i = (rg_buckets r)[?h := b] ! ((?h + cap - i) mod cap)"
    using i0 by (simp add: ring_list_def ring_append_def Let_def)
  also have "\<dots> = (b # ring_list cap r) ! i"
  proof (cases i)
    case 0
    then show ?thesis using assms(1) wf by simp
  next
    case (Suc j)
    have hc: "?h < cap" using assms(1) by simp
    have "(?h + cap - i) mod cap = (rg_head r + cap - j) mod cap"
      using back_index_Suc [of cap j "rg_head r"] Suc i assms(1) wf by simp
    moreover have "(?h + cap - i) mod cap \<noteq> ?h"
      using i(1) hc Suc by (intro back_index_neq) simp_all
    ultimately show ?thesis using Suc i by (simp add: ring_list_def nth_list_update)
  qed
  finally show "ring_list cap (ring_append cap b r) ! i = take cap (b # ring_list cap r) ! i"
    using i by simp
qed

lemma ring_list_set_newest:
  assumes "ring_wf cap r" "ring_list cap r \<noteq> []"
  shows "ring_list cap (ring_set_newest b r) = b # tl (ring_list cap r)"
proof (rule nth_equalityI)
  have wf: "length (rg_buckets r) = cap" "rg_head r < cap" "rg_count r \<le> cap" "0 < rg_count r"
    using assms by (simp_all add: ring_wf_def)
  show "length (ring_list cap (ring_set_newest b r)) = length (b # tl (ring_list cap r))"
    using wf by (simp add: ring_set_newest_def)
  fix i assume "i < length (ring_list cap (ring_set_newest b r))"
  then have i: "i < rg_count r" by (simp add: ring_set_newest_def)
  show "ring_list cap (ring_set_newest b r) ! i = (b # tl (ring_list cap r)) ! i"
  proof (cases i)
    case 0
    then show ?thesis using wf by (simp add: ring_list_def ring_set_newest_def)
  next
    case (Suc j)
    then have "(rg_head r + cap - i) mod cap \<noteq> rg_head r"
      using wf i by (intro back_index_neq) simp_all
    then show ?thesis using Suc i wf
      by (simp add: ring_list_def ring_set_newest_def nth_tl)
  qed
qed

lemma ring_newest_hd:
  "ring_wf cap r \<Longrightarrow> ring_list cap r \<noteq> [] \<Longrightarrow> ring_newest r = hd (ring_list cap r)"
  by (cases "rg_count r")
    (simp_all add: ring_newest_def ring_list_def ring_wf_def hd_map del: upt_Suc)

lemma ring_scan_list:
  "i \<le> rg_count r \<Longrightarrow>
     ring_scan cap older f r i acc = foldl f acc (takeWhile (\<lambda>b. \<not> older b) (drop i (ring_list cap r)))"
proof (induction "rg_count r - i" arbitrary: i acc)
  case 0
  then show ?case by (subst ring_scan.simps) simp
next
  case (Suc n)
  then have i: "i < rg_count r" by simp
  have d: "drop i (ring_list cap r) = rg_buckets r ! ((rg_head r + cap - i) mod cap) # drop (Suc i) (ring_list cap r)"
    using i by (simp add: Cons_nth_drop_Suc [symmetric] ring_list_def)
  show ?case
    using Suc.hyps(1) [of "Suc i"] Suc.hyps(2) i
    by (subst ring_scan.simps) (simp add: d Let_def)
qed

interpretation buckets: newest_first "ring_wf (Suc n)" "ring_list (Suc n)" "Suc n" "ring_append (Suc n)"
    ring_set_newest ring_newest for n
  by unfold_locales
    (simp_all add: ring_append_wf ring_list_append ring_set_newest_wf ring_list_set_newest ring_newest_hd)

lemma ring_extend_eq: "ring_extend (Suc n) fresh k r = buckets.extend n fresh k r"
  by (simp add: ring_extend_def buckets.extend_def)

lemma ring_extend_list:
  assumes "0 < cap" "ring_wf cap r"
  shows "ring_wf cap (ring_extend cap fresh k r) \<and>
    ring_list cap (ring_extend cap fresh k r) = take cap (rev (map fresh [0..<k]) @ ring_list cap r)"
proof -
  obtain n where n: "cap = Suc n" using assms(1) by (cases cap) auto
  have "length (ring_list cap r) \<le> cap" using assms(2) by (simp add: ring_wf_def)
  then show ?thesis
    using assms(2) buckets.wf_extend [of n r fresh k] buckets.contents_extend [of n r fresh k]
    by (simp add: n ring_extend_eq)
qed

section \<open>Buckets on a time grid\<close>

text \<open>
  As long as no gap between events is cut off at \<open>limit\<close>, bucket \<open>j\<close> starts \<open>j\<close> durations
  after the first event.  \<open>on_grid\<close>: the ring holds the last buckets \<open>f 0 \<dots> f k\<close>, newest first.
\<close>

definition on_grid :: "nat \<Rightarrow> (nat \<Rightarrow> 'b) \<Rightarrow> nat \<Rightarrow> 'b ring \<Rightarrow> bool" where
  "on_grid cap f k r \<longleftrightarrow> ring_wf cap r \<and> ring_list cap r = map (\<lambda>i. f (k - i)) [0..<min (Suc k) cap]"

definition grid_index :: "u64 \<Rightarrow> u64 \<Rightarrow> u64 \<Rightarrow> nat" where
  "grid_index t0 b t = (unat t - unat t0) div unat b"

definition grid_time :: "u64 \<Rightarrow> u64 \<Rightarrow> nat \<Rightarrow> u64" where
  "grid_time t0 b j = t0 + of_nat j * b"

lemma unat_grid_time:
  "unat t0 + j * unat b < 2 ^ 64 \<Longrightarrow> unat (grid_time t0 b j) = unat t0 + j * unat b"
proof -
  assume a: "unat t0 + j * unat b < 2 ^ 64"
  have "grid_time t0 b j = of_nat (unat t0 + j * unat b)" by (simp add: grid_time_def)
  then show ?thesis using a by (simp only: unsigned_of_nat) (simp add: take_bit_nat_eq_self)
qed

lemma grid_index_bounds:
  "0 < b \<Longrightarrow> t0 \<le> t \<Longrightarrow> unat t0 + grid_index t0 b t * unat b \<le> unat t \<and>
     unat t < unat t0 + Suc (grid_index t0 b t) * unat b"
proof -
  assume a: "0 < b" "t0 \<le> t"
  then have b: "0 < unat b" by (simp add: unat_gt_0)
  have le: "unat t0 \<le> unat t" using a(2) by (simp add: word_le_nat_alt)
  have "grid_index t0 b t * unat b \<le> unat t - unat t0"
    by (simp add: grid_index_def)
  moreover have "unat t - unat t0 < Suc (grid_index t0 b t) * unat b"
    unfolding grid_index_def using dividend_less_div_times [OF b, of "unat t - unat t0"]
    by (simp add: mult.commute)
  ultimately show ?thesis using le by linarith
qed

lemma grid_index_mono: "t \<le> t' \<Longrightarrow> grid_index t0 b t \<le> grid_index t0 b t'"
  by (simp add: grid_index_def div_le_mono diff_le_mono word_le_nat_alt)

lemma on_grid_start:
  "0 < cap \<Longrightarrow> ring_wf cap r \<Longrightarrow> on_grid cap f 0 (ring_start (f 0) r)"
  by (simp add: on_grid_def ring_start_wf ring_start_list min_def)

lemma on_grid_newest:
  assumes "0 < cap" "on_grid cap f k r"
  shows "ring_newest r = f k" and "0 < rg_count r"
proof -
  have wf: "ring_wf cap r" and l: "ring_list cap r = map (\<lambda>i. f (k - i)) [0..<min (Suc k) cap]"
    using assms(2) by (simp_all add: on_grid_def)
  have m: "0 < min (Suc k) cap" using assms(1) by simp
  then have "hd (ring_list cap r) = f k" "ring_list cap r \<noteq> []"
    unfolding l by (simp_all add: hd_map)
  then show "ring_newest r = f k" "0 < rg_count r" using ring_newest_hd [OF wf] by auto
qed

lemma on_grid_set:
  assumes "0 < cap" "on_grid cap f k r"
  shows "on_grid cap (f(k := b)) k (ring_set_newest b r)"
proof -
  have wf: "ring_wf cap r" and l: "ring_list cap r = map (\<lambda>i. f (k - i)) [0..<min (Suc k) cap]"
    using assms(2) by (simp_all add: on_grid_def)
  obtain m where m: "min (Suc k) cap = Suc m" using assms(1) by (cases "min (Suc k) cap") auto
  then have "m \<le> k" by simp
  have "ring_list cap r \<noteq> []" using on_grid_newest(2) [OF assms] by simp
  then have "ring_list cap (ring_set_newest b r) = b # tl (map (\<lambda>i. f (k - i)) [0..<Suc m])"
    using ring_list_set_newest [OF wf] l m by simp
  also have "\<dots> = b # map (\<lambda>i. f (k - i)) [Suc 0..<Suc m]"
    by (simp add: map_tl [symmetric] tl_upt del: upt_Suc)
  also have "\<dots> = map (\<lambda>i. (f(k := b)) (k - i)) [0..<Suc m]"
    using \<open>m \<le> k\<close> by (intro nth_equalityI) (auto simp: nth_Cons simp del: upt_Suc split: nat.splits)
  finally show ?thesis using ring_set_newest_wf [OF wf] m by (simp add: on_grid_def)
qed

lemma on_grid_extend:
  assumes "0 < cap" "on_grid cap f k r" "\<And>i. i < n \<Longrightarrow> fresh i = f (k + 1 + i)"
  shows "on_grid cap f (k + n) (ring_extend cap fresh n r)"
proof -
  have wf: "ring_wf cap r" and l: "ring_list cap r = map (\<lambda>i. f (k - i)) [0..<min (Suc k) cap]"
    using assms(2) by (simp_all add: on_grid_def)
  have "take cap (rev (map fresh [0..<n]) @ ring_list cap r) = map (\<lambda>i. f (k + n - i)) [0..<min (Suc (k + n)) cap]"
  proof (rule nth_equalityI)
    fix i assume "i < length (take cap (rev (map fresh [0..<n]) @ ring_list cap r))"
    then have i: "i < cap" "i < n + min (Suc k) cap" by (auto simp: l)
    show "take cap (rev (map fresh [0..<n]) @ ring_list cap r) ! i
        = map (\<lambda>i. f (k + n - i)) [0..<min (Suc (k + n)) cap] ! i"
    proof (cases "i < n")
      case True
      then have "Suc (k + (n - Suc i)) = k + n - i" by simp
      then show ?thesis using i True assms(3) [of "n - Suc i"] by (simp add: l nth_append rev_nth)
    next
      case False
      then have "k - (i - n) = k + n - i" by simp
      moreover have "i - n < min (Suc k) cap" using i False by auto
      then have "map (\<lambda>i. f (k - i)) [0..<min (Suc k) cap] ! (i - n) = f (k - (i - n))"
        by (simp del: upt_Suc)
      ultimately show ?thesis using i False by (simp add: l nth_append del: upt_Suc)
    qed
  qed (auto simp: l)
  then show ?thesis using ring_extend_list [OF assms(1) wf, of fresh n] by (simp add: on_grid_def)
qed

lemma grid_time_shift: "grid_time t0 b k + (of_nat i + 1) * b = grid_time t0 b (k + 1 + i)"
  by (simp add: grid_time_def algebra_simps)

text \<open>One call of \<open>advance_time\<close> moves along the grid to the bucket of the new event.\<close>

lemma ring_advance_on_grid:
  assumes "0 < cap" "0 < b" "on_grid cap f k r" "k = grid_index t0 b t"
    "\<And>j. j \<le> k \<Longrightarrow> stamp (f j) = grid_time t0 b j"
    "\<And>j. k < j \<Longrightarrow> f j = blank (grid_time t0 b j)"
    "t0 \<le> t" "t \<le> t'" "grid_index t0 b t' - k \<le> limit"
    "unat t' + unat b < 2 ^ 64"
  shows "on_grid cap f (grid_index t0 b t') (ring_advance cap blank stamp b limit t' r)"
proof -
  let ?k' = "grid_index t0 b t'"
  have b: "0 < unat b" using assms(2) by (simp add: unat_gt_0)
  have le: "unat t0 \<le> unat t" "unat t \<le> unat t'" using assms(7,8) by (simp_all add: word_le_nat_alt)
  have kk: "k \<le> ?k'" unfolding assms(4) by (rule grid_index_mono [OF assms(8)])
  note bt = grid_index_bounds [OF assms(2,7), folded assms(4)]
  have t0t': "t0 \<le> t'" using assms(7,8) by simp
  note bt' = grid_index_bounds [OF assms(2) t0t']
  have start: "stamp (ring_newest r) = grid_time t0 b k"
    using on_grid_newest(1) [OF assms(1,3)] assms(5) by simp
  have us: "unat (grid_time t0 b k) = unat t0 + k * unat b"
    using bt le assms(10) by (intro unat_grid_time) linarith
  have "grid_time t0 b k + b = grid_time t0 b (Suc k)" by (simp add: grid_time_def algebra_simps)
  moreover have "unat (grid_time t0 b (Suc k)) = unat t0 + Suc k * unat b"
    using bt le assms(10) by (intro unat_grid_time) simp
  ultimately have ue: "unat (grid_time t0 b k + b) = unat t0 + Suc k * unat b" by simp
  show ?thesis
  proof (cases "t' < grid_time t0 b k + b")
    case True
    then have "unat t' < unat t0 + Suc k * unat b" using ue by (simp add: word_less_nat_alt)
    then have "?k' * unat b < Suc k * unat b" using bt' by linarith
    then have "?k' < Suc k" by (simp only: mult_less_cancel2)
    then have "?k' = k" using kk by simp
    then show ?thesis
      using True start on_grid_newest(2) [OF assms(1,3)] assms(3) by (simp add: ring_advance_def Let_def)
  next
    case False
    have "unat (t' - grid_time t0 b k) = unat t' - unat t0 - k * unat b"
      using us bt le by (simp add: unat_sub_if')
    then have "unat ((t' - grid_time t0 b k) div b) = (unat t' - unat t0 - k * unat b) div unat b"
      by (simp add: unat_div)
    also have "\<dots> = ?k' - k"
    proof -
      have "k * unat b \<le> unat t' - unat t0" using bt le by linarith
      then obtain y where y: "unat t' - unat t0 = y + k * unat b"
        using le_add_diff_inverse2 by metis
      then have "?k' = y div unat b + k" using b by (simp add: grid_index_def)
      then show ?thesis using y by simp
    qed
    finally have n: "unat ((t' - grid_time t0 b k) div b) = ?k' - k" .
    have "on_grid cap f (k + (?k' - k))
        (ring_extend cap (\<lambda>i. blank (grid_time t0 b k + (of_nat i + 1) * b)) (?k' - k) r)"
      using assms(6) by (intro on_grid_extend assms(1,3)) (simp add: grid_time_shift)
    then show ?thesis
      using False start on_grid_newest(2) [OF assms(1,3)] kk n assms(9)
      by (simp add: ring_advance_def Let_def min_def)
  qed
qed

section \<open>Invariants of every call\<close>

lemma ring_set_newest_count [simp]: "rg_count (ring_set_newest b r) = rg_count r"
  by (simp add: ring_set_newest_def)

lemma ring_advance_wf [wf_intros]:
  "0 < cap \<Longrightarrow> ring_wf cap r \<Longrightarrow> ring_wf cap (ring_advance cap blank stamp b limit t r)"
  using ring_extend_list by (auto simp: ring_advance_def ring_start_wf Let_def)

lemma ring_extend_count:
  assumes "0 < cap" "ring_wf cap r"
  shows "rg_count (ring_extend cap fresh n r) = min cap (n + rg_count r)"
proof -
  have "rg_count (ring_extend cap fresh n r) = length (ring_list cap (ring_extend cap fresh n r))"
    by (simp only: length_ring_list)
  also have "\<dots> = min cap (n + rg_count r)" using ring_extend_list [OF assms, of fresh n] by simp
  finally show ?thesis .
qed

lemma ring_advance_count:
  "0 < cap \<Longrightarrow> ring_wf cap r \<Longrightarrow> 0 < rg_count (ring_advance cap blank stamp b limit t r)"
  by (auto simp: ring_advance_def ring_start_def ring_extend_count Let_def)

section \<open>Event histories on the grid\<close>

text \<open>
  A feed is paced when time never runs backwards, no gap spans more buckets than one call
  appends, and the times stay clear of the wrap-around.
\<close>

definition paced :: "u64 \<Rightarrow> u64 \<Rightarrow> nat \<Rightarrow> u64 list \<Rightarrow> bool" where
  "paced t0 b limit ts \<longleftrightarrow>
     successively (\<lambda>t t'. t \<le> t' \<and> grid_index t0 b t' - grid_index t0 b t \<le> limit) ts \<and>
     list_all (\<lambda>t. t0 \<le> t \<and> unat t + unat b < 2 ^ 64) ts"

lemma paced_snoc:
  "paced t0 b limit (ts @ [t]) \<longleftrightarrow> paced t0 b limit ts \<and> t0 \<le> t \<and> unat t + unat b < 2 ^ 64 \<and>
     (ts \<noteq> [] \<longrightarrow> last ts \<le> t \<and> grid_index t0 b t - grid_index t0 b (last ts) \<le> limit)"
  by (auto simp: paced_def successively_append_iff)

text \<open>What the events of bucket \<open>j\<close> contribute.\<close>

definition bucket_total ::
  "u64 \<Rightarrow> u64 \<Rightarrow> ('e \<Rightarrow> u64) \<Rightarrow> ('e \<Rightarrow> int) \<Rightarrow> 'e list \<Rightarrow> nat \<Rightarrow> int" where
  "bucket_total t0 b tm f hist j = sum_list (map f (filter (\<lambda>x. grid_index t0 b (tm x) = j) hist))"

lemma bucket_total_snoc:
  "bucket_total t0 b tm f (hist @ [x]) j = bucket_total t0 b tm f hist j + (if grid_index t0 b (tm x) = j then f x else 0)"
  by (simp add: bucket_total_def)

lemma bucket_total_bounds:
  assumes "\<And>x. 0 \<le> f x"
  shows "0 \<le> bucket_total t0 b tm f hist j \<and> bucket_total t0 b tm f hist j \<le> sum_list (map f hist)"
  by (induction hist) (use assms in \<open>auto simp: bucket_total_def intro: order_trans add_increasing\<close>)

lemma bucket_total_late:
  "(\<And>x. x \<in> set hist \<Longrightarrow> grid_index t0 b (tm x) < j) \<Longrightarrow> bucket_total t0 b tm f hist j = 0"
  by (induction hist) (auto simp: bucket_total_def)

text \<open>Summing the last \<open>m\<close> buckets is summing the events in them.\<close>

lemma sum_buckets:
  "\<forall>x \<in> set hist. grid_index t0 b (tm x) \<le> k \<Longrightarrow> m \<le> Suc k \<Longrightarrow>
     sum_list (map (\<lambda>i. bucket_total t0 b tm f hist (k - i)) [0..<m])
       = sum_list (map f (filter (\<lambda>x. k - grid_index t0 b (tm x) < m) hist))"
proof (induction hist)
  case Nil
  then show ?case by (simp add: bucket_total_def sum_list_0)
next
  case (Cons x hist)
  let ?g = "grid_index t0 b (tm x)"
  have one: "sum_list (map (\<lambda>i. if ?g = k - i then f x else 0) [0..<m]) = (if k - ?g < m then f x else 0)"
    using Cons.prems(2)
  proof (induction m)
    case (Suc m)
    have "?g = k - m \<longleftrightarrow> k - ?g = m" using Suc.prems Cons.prems(1) by auto
    then show ?case using Suc by auto
  qed simp
  have "bucket_total t0 b tm f (x # hist) j = (if ?g = j then f x else 0) + bucket_total t0 b tm f hist j" for j
    by (simp add: bucket_total_def)
  then have "sum_list (map (\<lambda>i. bucket_total t0 b tm f (x # hist) (k - i)) [0..<m])
      = sum_list (map (\<lambda>i. if ?g = k - i then f x else 0) [0..<m])
        + sum_list (map (\<lambda>i. bucket_total t0 b tm f hist (k - i)) [0..<m])"
    by (simp add: sum_list_addf)
  then show ?case using one Cons by simp
qed

lemma paced_last:
  "paced t0 b limit (map tm hist) \<Longrightarrow> y \<in> set hist \<Longrightarrow> tm y \<le> tm (last hist)"
proof (induction hist rule: rev_induct)
  case (snoc z hs)
  then show ?case by (cases "hs = []") (force simp: paced_snoc last_map)+
qed simp

text \<open>Advancing to the next event of a paced feed.\<close>

lemma advance_history:
  assumes "0 < cap" "0 < b" "hist \<noteq> []" "on_grid cap f (grid_index t0 b (tm (last hist))) r"
    "\<And>j. stamp (f j) = grid_time t0 b j"
    "\<And>j. (\<forall>y \<in> set hist. grid_index t0 b (tm y) < j) \<Longrightarrow> f j = blank (grid_time t0 b j)"
    "paced t0 b limit (map tm (hist @ [x]))"
  shows "on_grid cap f (grid_index t0 b (tm x)) (ring_advance cap blank stamp b limit (tm x) r)"
proof (rule ring_advance_on_grid [where t = "tm (last hist)"])
  have p: "paced t0 b limit (map tm hist)" using assms(7) by (simp add: paced_snoc)
  have "last hist \<in> set hist" using assms(3) by simp
  then show "t0 \<le> tm (last hist)" using p by (auto simp: paced_def list_all_iff)
  fix j assume "grid_index t0 b (tm (last hist)) < j"
  then have "\<forall>y \<in> set hist. grid_index t0 b (tm y) < j"
    using grid_index_mono [OF paced_last [OF p], of _ t0 b] by (meson le_less_trans)
  then show "f j = blank (grid_time t0 b j)" by (rule assms(6))
qed (use assms in \<open>auto simp: paced_snoc last_map\<close>)

section \<open>The window scanned\<close>

definition window_cutoff :: "u64 \<Rightarrow> u64 \<Rightarrow> u64" where
  "window_cutoff now_ns window_ns = (if window_ns \<le> now_ns then now_ns - window_ns else 0)"

lemma cutoff_not_later: "\<not> now_ns < window_cutoff now_ns w"
  by (auto simp: window_cutoff_def word_less_nat_alt word_le_nat_alt unat_sub_if')

lemma takeWhile_upt:
  "(\<And>i. i < m \<Longrightarrow> P i \<longleftrightarrow> i < n) \<Longrightarrow> takeWhile P [0..<m] = [0..<min m n]"
proof (induction m)
  case (Suc m)
  then have IH: "takeWhile P [0..<m] = [0..<min m n]" by simp
  show ?case
  proof (cases "n \<le> m")
    case True
    have "takeWhile P ([0..<m] @ [m]) = takeWhile P [0..<m]"
    proof (cases "\<forall>i \<in> set [0..<m]. P i")
      case all: True
      then have "takeWhile P [0..<m] = [0..<m]" by (simp only: takeWhile_eq_all_conv)
      moreover have "takeWhile P ([0..<m] @ [m]) = [0..<m]"
        using Suc.prems [of m] True all by (simp add: takeWhile_append)
      ultimately show ?thesis by (simp only:)
    next
      case False
      then obtain i where "i \<in> set [0..<m]" "\<not> P i" by blast
      then show ?thesis by (rule takeWhile_append1)
    qed
    then show ?thesis using IH True by simp
  next
    case False
    then have "\<forall>i < Suc m. P i" using Suc.prems by auto
    then show ?thesis using False by (simp add: takeWhile_append min_def)
  qed
qed simp

lemma grid_in_window:
  assumes "i \<le> k" "unat t0 + k * unat b < 2 ^ 64" "0 < unat b"
  shows "\<not> grid_time t0 b (k - i) < window_cutoff (grid_time t0 b k) w \<longleftrightarrow> i < Suc (unat w div unat b)"
proof -
  have m: "(k - i) * unat b = k * unat b - i * unat b" "i * unat b \<le> k * unat b"
    using assms(1) by (simp_all add: diff_mult_distrib)
  have k: "unat (grid_time t0 b k) = unat t0 + k * unat b" by (rule unat_grid_time [OF assms(2)])
  have i: "unat (grid_time t0 b (k - i)) = unat t0 + (k * unat b - i * unat b)"
    unfolding m(1) [symmetric] using assms(2) m by (intro unat_grid_time) simp
  have "unat (window_cutoff (grid_time t0 b k) w) = (unat t0 + k * unat b) - unat w"
    using k by (auto simp: window_cutoff_def word_le_nat_alt unat_sub_if')
  then have "\<not> grid_time t0 b (k - i) < window_cutoff (grid_time t0 b k) w \<longleftrightarrow> i * unat b \<le> unat w"
    using i m(2) unfolding word_less_nat_alt by linarith
  also have "\<dots> \<longleftrightarrow> i \<le> unat w div unat b" using assms(3) by (simp add: less_eq_div_iff_mult_less_eq)
  finally show ?thesis by (simp only: less_Suc_eq_le)
qed

text \<open>The newest bucket never starts earlier than before, nor later than the clock.\<close>

lemma ring_advance_newest:
  assumes "0 < cap" "0 < limit" "0 < b" "ring_wf cap r" "0 < rg_count r" "\<And>u. stamp (blank u) = u"
    "unat (stamp (ring_newest r)) + unat b < 2 ^ 64"
  shows "stamp (ring_newest r) \<le> stamp (ring_newest (ring_advance cap blank stamp b limit t r)) \<and>
    stamp (ring_newest (ring_advance cap blank stamp b limit t r)) \<le> max (stamp (ring_newest r)) t"
proof -
  let ?s = "stamp (ring_newest r)" and ?n = "min (unat ((t - stamp (ring_newest r)) div b)) limit"
  have b: "0 < unat b" using assms(3) by (simp add: unat_gt_0 word_neq_0_conv)
  have "unat (grid_time ?s b 1) = unat ?s + 1 * unat b" using assms(7) by (intro unat_grid_time) simp
  then have sb: "unat (?s + b) = unat ?s + unat b" by (simp add: grid_time_def)
  show ?thesis
  proof (cases "t < ?s + b")
    case True
    then show ?thesis using assms(5) by (simp add: ring_advance_def Let_def)
  next
    case False
    then have t: "unat ?s + unat b \<le> unat t" using sb unfolding word_less_nat_alt by linarith
    then have d: "unat ((t - ?s) div b) = (unat t - unat ?s) div unat b"
      by (simp add: unat_div unat_sub_if')
    then have n: "0 < ?n" "?n * unat b \<le> unat t - unat ?s"
      using t b assms(2) by (auto simp: div_greater_zero_iff intro: order_trans [OF mult_le_mono1 div_times_less_eq_dividend])
    have eq: "ring_advance cap blank stamp b limit t r
        = ring_extend cap (\<lambda>i. blank (?s + (of_nat i + 1) * b)) ?n r"
      using False assms(5) by (simp add: ring_advance_def Let_def)
    have wf: "ring_wf cap (ring_extend cap (\<lambda>i. blank (?s + (of_nat i + 1) * b)) ?n r)"
      and l: "ring_list cap (ring_extend cap (\<lambda>i. blank (?s + (of_nat i + 1) * b)) ?n r)
        = take cap (rev (map (\<lambda>i. blank (?s + (of_nat i + 1) * b)) [0..<?n]) @ ring_list cap r)"
      using ring_extend_list [OF assms(1,4)] by blast+
    obtain m where m: "?n = Suc m" using n(1) by (cases ?n) auto
    have "stamp (ring_newest (ring_advance cap blank stamp b limit t r)) = grid_time ?s b ?n"
    proof -
      obtain k where k: "cap = Suc k" using assms(1) by (cases cap) auto
      have h: "ring_list cap (ring_extend cap (\<lambda>i. blank (?s + (of_nat i + 1) * b)) ?n r)
          = blank (?s + (of_nat m + 1) * b) # take k (rev (map (\<lambda>i. blank (?s + (of_nat i + 1) * b)) [0..<m]) @ ring_list cap r)"
        unfolding l unfolding m k by simp
      have "ring_newest (ring_extend cap (\<lambda>i. blank (?s + (of_nat i + 1) * b)) ?n r) = blank (?s + (of_nat m + 1) * b)"
        using ring_newest_hd [OF wf] unfolding h by simp
      then show ?thesis unfolding eq by (simp add: assms(6) m grid_time_def algebra_simps)
    qed
    moreover have "unat (grid_time ?s b ?n) = unat ?s + ?n * unat b"
      using n(2) t unsigned_less [of t, where 'a = nat] by (intro unat_grid_time) simp
    ultimately show ?thesis using n(2) t by (auto simp: word_le_nat_alt max_def)
  qed
qed

text \<open>A property of all slots of the array, of which the list is a part.\<close>

lemma ring_list_in_buckets: "ring_wf cap r \<Longrightarrow> set (ring_list cap r) \<subseteq> set (rg_buckets r)"
  by (auto simp: ring_list_def ring_wf_def intro!: nth_mem mod_less_divisor)

lemma ring_newest_in_buckets: "ring_wf cap r \<Longrightarrow> ring_newest r \<in> set (rg_buckets r)"
  by (simp add: ring_newest_def ring_wf_def)

lemma list_all_update: "list_all P xs \<Longrightarrow> P x \<Longrightarrow> list_all P (xs[i := x])"
  using set_update_subset_insert [of xs i x] by (auto simp: list_all_iff)

lemma ring_set_newest_all:
  "list_all P (rg_buckets r) \<Longrightarrow> P b \<Longrightarrow> list_all P (rg_buckets (ring_set_newest b r))"
  by (simp add: ring_set_newest_def list_all_update)

lemma ring_extend_all:
  assumes "\<And>u. P (fresh u)"
  shows "list_all P (rg_buckets r) \<Longrightarrow> list_all P (rg_buckets (ring_extend cap fresh n r))"
  by (induction n) (use assms in \<open>simp_all add: ring_extend_def ring_append_def list_all_update Let_def\<close>)

lemma ring_advance_all [wf_intros]:
  "(\<And>u. P (blank u)) \<Longrightarrow> list_all P (rg_buckets r) \<Longrightarrow>
     list_all P (rg_buckets (ring_advance cap blank stamp b limit t r))"
  by (auto simp: ring_advance_def ring_start_def list_all_update Let_def intro!: ring_extend_all)

end
