(* ===== verification/Delta_Factor.thy ===== *)
theory Delta_Factor
  imports Bucket_Ring
begin

text \<open>
  \<open>DeltaFactor\<close> (\<open>include/smartquant/alpha/delta_factor.hpp\<close>,
  \<open>src/alpha/delta_factor.cpp\<close>): buy and sell volume in time buckets, the net imbalance over
  a sliding window, and its second difference over successive calls.
\<close>

section \<open>State\<close>

definition kDefaultWindowNs :: u64 where "kDefaultWindowNs = 100000000"
definition kDefaultBucketNs :: u64 where "kDefaultBucketNs = 10000000"
definition kMaxDeltaBuckets :: nat where "kMaxDeltaBuckets = 64"

record delta_bucket =
  db_ts_ns :: u64
  db_buy_vol :: f64
  db_sell_vol :: f64

definition delta_blank :: "u64 \<Rightarrow> delta_bucket" where
  "delta_blank ts = \<lparr> db_ts_ns = ts, db_buy_vol = 0, db_sell_vol = 0 \<rparr>"

record delta_factor =
  df_window_ns :: u64
  df_bucket_ns :: u64
  df_num_buckets :: nat
  df_ring :: "delta_bucket ring"
  df_midprice :: int
  df_net_delta :: f64
  df_prev_delta :: f64
  df_prev_prev_delta :: f64
  df_acceleration :: f64

definition delta_ring_empty :: "delta_bucket ring" where
  "delta_ring_empty = \<lparr> rg_buckets = replicate kMaxDeltaBuckets (delta_blank 0), rg_head = 0, rg_count = 0 \<rparr>"

text \<open>The constructor; \<open>None\<close> is the \<open>std::invalid_argument\<close> for a zero bucket.\<close>

definition delta_new :: "u64 \<Rightarrow> u64 \<Rightarrow> delta_factor option" where
  "delta_new window_ns bucket_ns =
     (if bucket_ns = 0 then None
      else Some \<lparr> df_window_ns = window_ns, df_bucket_ns = bucket_ns,
        df_num_buckets = min (unat ((window_ns + bucket_ns - 1) div bucket_ns + 1)) kMaxDeltaBuckets,
        df_ring = delta_ring_empty, df_midprice = 0, df_net_delta = 0, df_prev_delta = 0,
        df_prev_prev_delta = 0, df_acceleration = 0 \<rparr>)"

definition delta_default :: delta_factor where
  "delta_default = the (delta_new kDefaultWindowNs kDefaultBucketNs)"

section \<open>Operations\<close>

definition delta_reset :: "delta_factor \<Rightarrow> delta_factor" where
  "delta_reset d = d\<lparr>df_ring := delta_ring_empty, df_net_delta := 0, df_prev_delta := 0,
     df_prev_prev_delta := 0, df_acceleration := 0\<rparr>"

definition set_midprice :: "int \<Rightarrow> delta_factor \<Rightarrow> delta_factor" where
  "set_midprice mid d = d\<lparr>df_midprice := mid\<rparr>"

definition delta_advance_time :: "u64 \<Rightarrow> delta_factor \<Rightarrow> delta_factor" where
  "delta_advance_time now_ns d =
     d\<lparr>df_ring := ring_advance kMaxDeltaBuckets delta_blank db_ts_ns (df_bucket_ns d)
        (df_num_buckets d) now_ns (df_ring d)\<rparr>"

definition add_volumes :: "f64 \<times> f64 \<Rightarrow> delta_bucket \<Rightarrow> f64 \<times> f64" where
  "add_volumes acc b = (fst acc + db_buy_vol b, snd acc + db_sell_vol b)"

definition delta_recompute :: "delta_factor \<Rightarrow> delta_factor" where
  "delta_recompute d =
     (let cutoff = window_cutoff (db_ts_ns (ring_newest (df_ring d))) (df_window_ns d);
          (buy_sum, sell_sum) = ring_scan kMaxDeltaBuckets (\<lambda>b. db_ts_ns b < cutoff) add_volumes
             (df_ring d) 0 (0, 0);
          net = buy_sum - sell_sum
      in d\<lparr>df_prev_prev_delta := df_prev_delta d, df_prev_delta := df_net_delta d,
           df_net_delta := net,
           df_acceleration := net - Fin 2 * df_net_delta d + df_prev_delta d\<rparr>)"

definition delta_record_trade :: "lob_event \<Rightarrow> delta_factor \<Rightarrow> delta_factor" where
  "delta_record_trade ev d =
     (if ev_side ev = Trade \<and> 0 < ev_qty ev then
        (let b = ring_newest (df_ring d)
         in if df_midprice d \<le> 0 \<or> df_midprice d \<le> ev_price ev
            then d\<lparr>df_ring := ring_set_newest
                   (b\<lparr>db_buy_vol := db_buy_vol b + f64_of_int (ev_qty ev)\<rparr>) (df_ring d)\<rparr>
            else d\<lparr>df_ring := ring_set_newest
                   (b\<lparr>db_sell_vol := db_sell_vol b + f64_of_int (ev_qty ev)\<rparr>) (df_ring d)\<rparr>)
      else d)"

definition delta_on_event :: "lob_event \<Rightarrow> delta_factor \<Rightarrow> delta_factor" where
  "delta_on_event ev d =
     delta_recompute (delta_record_trade ev (delta_advance_time (ev_timestamp_ns ev) d))"

text \<open>A feed: before each event the signal engine sets the midprice.\<close>

definition delta_feed :: "delta_factor \<Rightarrow> (int \<times> lob_event) list \<Rightarrow> delta_factor" where
  "delta_feed d hist = foldl (\<lambda>d x. delta_on_event (snd x) (set_midprice (fst x) d)) d hist"

section \<open>Basic facts\<close>

lemma delta_ring_empty_wf [simp]: "ring_wf kMaxDeltaBuckets delta_ring_empty" "rg_count delta_ring_empty = 0"
  by (simp_all add: delta_ring_empty_def ring_wf_def kMaxDeltaBuckets_def)

lemma kMaxDeltaBuckets_pos [simp]: "0 < kMaxDeltaBuckets"
  by (simp add: kMaxDeltaBuckets_def)

lemma delta_feed_snoc:
  "delta_feed d (hist @ [x]) = delta_on_event (snd x) (set_midprice (fst x) (delta_feed d hist))"
  by (simp add: delta_feed_def)

lemma delta_on_event_params [simp]:
  "df_window_ns (delta_on_event ev d) = df_window_ns d"
  "df_bucket_ns (delta_on_event ev d) = df_bucket_ns d"
  "df_num_buckets (delta_on_event ev d) = df_num_buckets d"
  "df_midprice (delta_on_event ev d) = df_midprice d"
  by (simp_all add: delta_on_event_def delta_recompute_def delta_record_trade_def
      delta_advance_time_def Let_def case_prod_unfold)

lemma delta_feed_params [simp]:
  "df_window_ns (delta_feed d hist) = df_window_ns d"
  "df_bucket_ns (delta_feed d hist) = df_bucket_ns d"
  "df_num_buckets (delta_feed d hist) = df_num_buckets d"
  by (induction hist rule: rev_induct) (simp_all add: delta_feed_snoc set_midprice_def, simp_all add: delta_feed_def)

lemma set_midprice_params [simp]:
  "df_window_ns (set_midprice mid d) = df_window_ns d" "df_bucket_ns (set_midprice mid d) = df_bucket_ns d"
  "df_num_buckets (set_midprice mid d) = df_num_buckets d" "df_ring (set_midprice mid d) = df_ring d"
  by (simp_all add: set_midprice_def)

lemma delta_on_event_ring:
  "df_ring (delta_on_event ev d) = df_ring (delta_record_trade ev (delta_advance_time (ev_timestamp_ns ev) d))"
  by (simp add: delta_on_event_def delta_recompute_def Let_def case_prod_unfold)

section \<open>The second difference\<close>

lemma delta_on_event_shift:
  "df_prev_delta (delta_on_event ev d) = df_net_delta d"
  "df_prev_prev_delta (delta_on_event ev d) = df_prev_delta d"
  "df_acceleration (delta_on_event ev d)
     = df_net_delta (delta_on_event ev d) - Fin 2 * df_net_delta d + df_prev_delta d"
  by (simp_all add: delta_on_event_def delta_recompute_def delta_record_trade_def
      delta_advance_time_def Let_def case_prod_unfold)

text \<open>
  The published value is the second difference, in floating point, of the net imbalances
  after the last three calls: one difference step per event of any kind, not per bucket.
\<close>

theorem acceleration_is_second_difference:
  "let d1 = delta_on_event ev1 d; d2 = delta_on_event ev2 d1; d3 = delta_on_event ev3 d2
   in df_acceleration d3 = df_net_delta d3 - Fin 2 * df_net_delta d2 + df_net_delta d1"
  by (simp add: Let_def delta_on_event_shift)

section \<open>The window holds exactly the recent trades\<close>

text \<open>Volumes of one event under the midprice set before it.\<close>

definition buy_of :: "int \<times> lob_event \<Rightarrow> int" where
  "buy_of x = (if ev_side (snd x) = Trade \<and> 0 < ev_qty (snd x) \<and> (fst x \<le> 0 \<or> fst x \<le> ev_price (snd x))
     then ev_qty (snd x) else 0)"

definition sell_of :: "int \<times> lob_event \<Rightarrow> int" where
  "sell_of x = (if ev_side (snd x) = Trade \<and> 0 < ev_qty (snd x) \<and> \<not> (fst x \<le> 0 \<or> fst x \<le> ev_price (snd x))
     then ev_qty (snd x) else 0)"

definition time_of :: "int \<times> lob_event \<Rightarrow> u64" where
  "time_of x = ev_timestamp_ns (snd x)"

text \<open>
  Reference: the imbalance of the events whose bucket starts at most \<open>window_ns\<close> before the
  current bucket, by direct summation over the whole history.
\<close>

definition window_imbalance :: "u64 \<Rightarrow> u64 \<Rightarrow> (int \<times> lob_event) list \<Rightarrow> int" where
  "window_imbalance window_ns b hist =
     (let t0 = time_of (hd hist); k = grid_index t0 b (time_of (last hist))
      in sum_list (map (\<lambda>x. buy_of x - sell_of x)
           (filter (\<lambda>x. (k - grid_index t0 b (time_of x)) * unat b \<le> unat window_ns) hist)))"

definition hist_bucket :: "u64 \<Rightarrow> u64 \<Rightarrow> (int \<times> lob_event) list \<Rightarrow> nat \<Rightarrow> delta_bucket" where
  "hist_bucket t0 b hist j = \<lparr> db_ts_ns = grid_time t0 b j,
     db_buy_vol = Fin (of_int (bucket_total t0 b time_of buy_of hist j)),
     db_sell_vol = Fin (of_int (bucket_total t0 b time_of sell_of hist j)) \<rparr>"

lemma volumes_nonneg [simp]: "0 \<le> buy_of x" "0 \<le> sell_of x"
  by (simp_all add: buy_of_def sell_of_def)

definition delta_inv :: "u64 \<Rightarrow> (int \<times> lob_event) list \<Rightarrow> delta_factor \<Rightarrow> bool" where
  "delta_inv t0 hist d \<longleftrightarrow> on_grid kMaxDeltaBuckets (hist_bucket t0 (df_bucket_ns d) hist)
     (grid_index t0 (df_bucket_ns d) (time_of (last hist))) (df_ring d)"

lemma exact_volume:
  "0 \<le> f \<Longrightarrow> 0 \<le> m \<Longrightarrow> m + f \<le> 2 ^ 53 \<Longrightarrow> Fin (of_int m) + f64_of_int f = Fin (of_int (m + f))"
  using f64_add_int [of m f] by simp

lemma record_trade_ring:
  assumes "on_grid kMaxDeltaBuckets (hist_bucket t0 b hist) k (df_ring d)"
    "grid_index t0 b (ev_timestamp_ns ev) = k"
    "sum_list (map buy_of (hist @ [(df_midprice d, ev)])) \<le> 2 ^ 53"
    "sum_list (map sell_of (hist @ [(df_midprice d, ev)])) \<le> 2 ^ 53"
  shows "on_grid kMaxDeltaBuckets (hist_bucket t0 b (hist @ [(df_midprice d, ev)])) k
    (df_ring (delta_record_trade ev d))"
proof -
  let ?x = "(df_midprice d, ev)" and ?f = "hist_bucket t0 b hist"
  have new: "ring_newest (df_ring d) = ?f k" by (rule on_grid_newest(1) [OF _ assms(1)]) simp
  have bb: "0 \<le> bucket_total t0 b time_of buy_of hist k" "bucket_total t0 b time_of buy_of hist k + buy_of ?x \<le> 2 ^ 53"
    "0 \<le> bucket_total t0 b time_of sell_of hist k" "bucket_total t0 b time_of sell_of hist k + sell_of ?x \<le> 2 ^ 53"
    using bucket_total_bounds [of buy_of t0 b time_of hist k] bucket_total_bounds [of sell_of t0 b time_of hist k] assms(3,4)
    by simp_all
  have upd: "hist_bucket t0 b (hist @ [?x]) = ?f(k := hist_bucket t0 b (hist @ [?x]) k)"
    using assms(2) by (auto simp: fun_eq_iff hist_bucket_def bucket_total_snoc time_of_def)
  have set: "on_grid kMaxDeltaBuckets (hist_bucket t0 b (hist @ [?x])) k
      (ring_set_newest (hist_bucket t0 b (hist @ [?x]) k) (df_ring d))"
    by (subst upd) (rule on_grid_set [OF kMaxDeltaBuckets_pos assms(1)])
  show ?thesis
  proof (cases "ev_side ev = Trade \<and> 0 < ev_qty ev")
    case False
    then have "hist_bucket t0 b (hist @ [?x]) = ?f"
      by (auto simp: fun_eq_iff hist_bucket_def bucket_total_snoc buy_of_def sell_of_def)
    then show ?thesis using False assms(1) by (simp only: delta_record_trade_def if_False)
  next
    case True
    have "df_ring (delta_record_trade ev d) = ring_set_newest (hist_bucket t0 b (hist @ [?x]) k) (df_ring d)"
    proof (cases "df_midprice d \<le> 0 \<or> df_midprice d \<le> ev_price ev")
      case c: True
      then have v: "buy_of ?x = ev_qty ev" "sell_of ?x = 0" using True by (auto simp: buy_of_def sell_of_def)
      have "db_buy_vol (?f k) + f64_of_int (ev_qty ev) = Fin (of_int (bucket_total t0 b time_of buy_of hist k + ev_qty ev))"
        using bb v True by (simp only: hist_bucket_def delta_bucket.simps) (rule exact_volume; simp)
      then have "(?f k)\<lparr>db_buy_vol := db_buy_vol (?f k) + f64_of_int (ev_qty ev)\<rparr> = hist_bucket t0 b (hist @ [?x]) k"
        using v assms(2) by (simp add: hist_bucket_def bucket_total_snoc time_of_def)
      then show ?thesis using c True by (simp add: delta_record_trade_def new Let_def)
    next
      case c: False
      then have v: "sell_of ?x = ev_qty ev" "buy_of ?x = 0" using True by (auto simp: buy_of_def sell_of_def)
      have "db_sell_vol (?f k) + f64_of_int (ev_qty ev) = Fin (of_int (bucket_total t0 b time_of sell_of hist k + ev_qty ev))"
        using bb v True by (simp only: hist_bucket_def delta_bucket.simps) (rule exact_volume; simp)
      then have "(?f k)\<lparr>db_sell_vol := db_sell_vol (?f k) + f64_of_int (ev_qty ev)\<rparr> = hist_bucket t0 b (hist @ [?x]) k"
        using v assms(2) by (simp add: hist_bucket_def bucket_total_snoc time_of_def)
      then show ?thesis using c True by (simp add: delta_record_trade_def new Let_def)
    qed
    then show ?thesis using set by simp
  qed
qed

lemma delta_new_params:
  "delta_new w b = Some d \<Longrightarrow> df_window_ns d = w \<and> df_bucket_ns d = b \<and> b \<noteq> 0 \<and>
     df_ring d = delta_ring_empty \<and> df_midprice d = 0 \<and> df_num_buckets d \<le> kMaxDeltaBuckets"
  by (auto simp: delta_new_def split: if_splits)

text \<open>The first event of a feed, then every paced one, keeps the ring on the grid.\<close>

lemma delta_feed_inv:
  assumes "delta_new w b = Some d" "hist \<noteq> []" "t0 = time_of (hd hist)"
    "paced t0 b (df_num_buckets d) (map time_of hist)"
    "sum_list (map buy_of hist) \<le> 2 ^ 53" "sum_list (map sell_of hist) \<le> 2 ^ 53"
  shows "delta_inv t0 hist (delta_feed d hist)"
  using assms(2-6)
proof (induction hist rule: rev_induct)
  case Nil
  then show ?case by simp
next
  case (snoc x hist)
  note p = delta_new_params [OF assms(1)]
  let ?d = "set_midprice (fst x) (delta_feed d hist)" and ?t = "time_of x"
  have x: "(df_midprice (delta_advance_time ?t ?d), snd x) = x"
    by (cases x) (simp add: set_midprice_def delta_advance_time_def)
  have t: "ev_timestamp_ns (snd x) = ?t" by (simp add: time_of_def)
  have sums: "sum_list (map buy_of hist) \<le> 2 ^ 53" "sum_list (map sell_of hist) \<le> 2 ^ 53"
    using snoc.prems(4,5) volumes_nonneg [of x] by (simp_all del: volumes_nonneg)
  have pc: "paced t0 b (df_num_buckets d) (map time_of hist)" "t0 \<le> ?t" "unat ?t + unat b < 2 ^ 64"
    "hist \<noteq> [] \<Longrightarrow> time_of (last hist) \<le> ?t \<and>
       grid_index t0 b ?t - grid_index t0 b (time_of (last hist)) \<le> df_num_buckets d"
    using snoc.prems(3) by (simp_all add: paced_snoc last_map)
  have adv: "on_grid kMaxDeltaBuckets (hist_bucket t0 b hist) (grid_index t0 b ?t)
      (df_ring (delta_advance_time ?t ?d))"
  proof (cases "hist = []")
    case True
    have "hist_bucket t0 b [] 0 = delta_blank ?t"
      using snoc.prems(2) True
      by (simp add: hist_bucket_def delta_blank_def bucket_total_def grid_time_def zero_f64_def)
    then show ?thesis
      using on_grid_start [OF kMaxDeltaBuckets_pos delta_ring_empty_wf(1), of "hist_bucket t0 b []"]
        True p snoc.prems(2)
      by (simp add: delta_feed_def set_midprice_def delta_advance_time_def ring_advance_def grid_index_def)
  next
    case False
    then have "t0 = time_of (hd hist)" using snoc.prems(2) by simp
    then have inv: "delta_inv t0 hist (delta_feed d hist)" using snoc.IH False pc(1) sums by simp
    have "on_grid kMaxDeltaBuckets (hist_bucket t0 b hist) (grid_index t0 b ?t)
       (ring_advance kMaxDeltaBuckets delta_blank db_ts_ns b (df_num_buckets d) ?t (df_ring (delta_feed d hist)))"
    proof (rule advance_history [OF kMaxDeltaBuckets_pos _ False _ _ _ snoc.prems(3)])
      fix j assume "\<forall>y \<in> set hist. grid_index t0 b (time_of y) < j"
      then show "hist_bucket t0 b hist j = delta_blank (grid_time t0 b j)"
        by (simp add: hist_bucket_def delta_blank_def zero_f64_def bucket_total_late)
    qed (use inv p in \<open>auto simp: delta_inv_def hist_bucket_def word_neq_0_conv\<close>)
    then show ?thesis using p by (simp add: set_midprice_def delta_advance_time_def)
  qed
  have "on_grid kMaxDeltaBuckets (hist_bucket t0 b (hist @ [x])) (grid_index t0 b ?t)
      (df_ring (delta_record_trade (snd x) (delta_advance_time ?t ?d)))"
    using record_trade_ring [OF adv, of "snd x", unfolded x] snoc.prems(4,5) t by simp
  then show ?case using p by (simp add: delta_inv_def delta_feed_snoc delta_on_event_ring t)
qed

text \<open>Summation of exactly representable volumes does not round.\<close>

lemma foldl_add_volumes:
  "(\<And>j. 0 \<le> p j) \<Longrightarrow> (\<And>j. 0 \<le> q j) \<Longrightarrow> 0 \<le> x \<Longrightarrow> 0 \<le> y \<Longrightarrow>
     (\<And>j. db_buy_vol (f j) = Fin (of_int (p j))) \<Longrightarrow> (\<And>j. db_sell_vol (f j) = Fin (of_int (q j))) \<Longrightarrow>
     x + sum_list (map p js) \<le> 2 ^ 53 \<Longrightarrow> y + sum_list (map q js) \<le> 2 ^ 53 \<Longrightarrow>
     foldl add_volumes (Fin (of_int x), Fin (of_int y)) (map f js)
       = (Fin (of_int (x + sum_list (map p js))), Fin (of_int (y + sum_list (map q js))))"
proof (induction js arbitrary: x y)
  case (Cons j js)
  have n: "0 \<le> sum_list (map p js)" "0 \<le> sum_list (map q js)"
    using Cons.prems(1,2) by (auto intro!: sum_list_nonneg)
  have "add_volumes (Fin (of_int x), Fin (of_int y)) (f j) = (Fin (of_int (x + p j)), Fin (of_int (y + q j)))"
    using Cons.prems n f64_add_int [of x "p j"] f64_add_int [of y "q j"]
      Cons.prems(1) [of j] Cons.prems(2) [of j]
    by (simp add: add_volumes_def)
  moreover have "foldl add_volumes (Fin (of_int (x + p j)), Fin (of_int (y + q j))) (map f js)
     = (Fin (of_int (x + p j + sum_list (map p js))), Fin (of_int (y + q j + sum_list (map q js))))"
    using Cons.prems Cons.prems(1) [of j] Cons.prems(2) [of j] by (intro Cons.IH) (simp_all add: algebra_simps)
  ultimately show ?case by (simp add: algebra_simps)
qed simp

lemma delta_net_of_ring:
  "df_net_delta (delta_on_event ev d) =
     (let d' = delta_record_trade ev (delta_advance_time (ev_timestamp_ns ev) d);
          cutoff = window_cutoff (db_ts_ns (ring_newest (df_ring d'))) (df_window_ns d);
          vols = foldl add_volumes (0, 0) (takeWhile (\<lambda>b. \<not> db_ts_ns b < cutoff)
            (ring_list kMaxDeltaBuckets (df_ring d')))
      in fst vols - snd vols)"
proof -
  have w: "df_window_ns (delta_record_trade ev (delta_advance_time (ev_timestamp_ns ev) d)) = df_window_ns d"
    by (simp add: delta_record_trade_def delta_advance_time_def Let_def)
  show ?thesis
    by (simp add: delta_on_event_def delta_recompute_def ring_scan_list Let_def case_prod_unfold w)
qed

text \<open>The scan over the ring stops after the buckets of the window.\<close>

lemma window_scan:
  assumes "unat t0 + k * unat b < 2 ^ 64" "0 < unat b" "unat w div unat b < kMaxDeltaBuckets"
  shows "takeWhile (\<lambda>c. \<not> db_ts_ns c < window_cutoff (grid_time t0 b k) w)
      (map (\<lambda>i. hist_bucket t0 b hist (k - i)) [0..<min (Suc k) kMaxDeltaBuckets])
    = map (hist_bucket t0 b hist) (map (\<lambda>i. k - i) [0..<min (Suc k) (Suc (unat w div unat b))])"
proof -
  have "takeWhile ((\<lambda>c. \<not> db_ts_ns c < window_cutoff (grid_time t0 b k) w) \<circ> (\<lambda>i. hist_bucket t0 b hist (k - i)))
      [0..<min (Suc k) kMaxDeltaBuckets] = [0..<min (min (Suc k) kMaxDeltaBuckets) (Suc (unat w div unat b))]"
    by (rule takeWhile_upt) (use grid_in_window [OF _ assms(1,2), of _ w] in \<open>simp add: hist_bucket_def\<close>)
  also have "min (min (Suc k) kMaxDeltaBuckets) (Suc (unat w div unat b)) = min (Suc k) (Suc (unat w div unat b))"
    using assms(3) by linarith
  finally show ?thesis by (simp only: takeWhile_map map_map comp_def)
qed

lemma window_imbalance_exact:
  assumes "delta_new w b = Some d" and "hist \<noteq> []"
    and "paced (time_of (hd hist)) b (df_num_buckets d) (map time_of hist)"
    and "unat w div unat b < kMaxDeltaBuckets"
    and "sum_list (map buy_of hist) \<le> 2 ^ 53" and "sum_list (map sell_of hist) \<le> 2 ^ 53"
  shows "df_net_delta (delta_feed d hist) = Fin (of_int (window_imbalance w b hist))"
proof -
  let ?t0 = "time_of (hd hist)" and ?k = "grid_index (time_of (hd hist)) b (time_of (last hist))"
  let ?f = "hist_bucket ?t0 b hist" and ?m = "min (Suc ?k) (Suc (unat w div unat b))"
  note p = delta_new_params [OF assms(1)]
  have b: "0 < unat b" using p by (simp add: unat_gt_0 word_neq_0_conv)
  obtain hs x where hist: "hist = hs @ [x]" using assms(2) by (metis rev_exhaust)
  have inv: "delta_inv ?t0 hist (delta_feed d hist)"
    using delta_feed_inv [OF assms(1,2) refl assms(3,5,6)] .
  then have grid: "on_grid kMaxDeltaBuckets ?f ?k (df_ring (delta_feed d hist))"
    using p by (simp add: delta_inv_def)
  have pc: "?t0 \<le> time_of (last hist)" "unat (time_of (last hist)) + unat b < 2 ^ 64"
    using assms(3) by (simp_all add: hist paced_snoc)
  have nowrap: "unat ?t0 + ?k * unat b < 2 ^ 64"
    using grid_index_bounds [OF _ pc(1), of b] b pc(2) by (auto simp: word_less_nat_alt)
  have le: "grid_index ?t0 b (time_of y) \<le> ?k" if "y \<in> set hist" for y
    by (rule grid_index_mono [OF paced_last [OF assms(3) that]])
  define total where "total g = sum_list (map (\<lambda>i. bucket_total ?t0 b time_of g hist (?k - i)) [0..<?m])" for g
  have total: "total g = sum_list (map g (filter (\<lambda>y. (?k - grid_index ?t0 b (time_of y)) * unat b \<le> unat w) hist))" for g
  proof -
    have "?k - grid_index ?t0 b (time_of y) < ?m \<longleftrightarrow> (?k - grid_index ?t0 b (time_of y)) * unat b \<le> unat w" for y
      using b by (auto simp: less_Suc_eq_le less_eq_div_iff_mult_less_eq)
    then show ?thesis unfolding total_def using sum_buckets [of hist ?t0 b time_of ?k ?m g] le by simp
  qed
  have bound: "total g \<le> sum_list (map g hist)" if "\<And>y. 0 \<le> g y" for g
    unfolding total by (rule sum_list_filter_nonneg) (use that in simp)
  note scan = window_scan [OF nowrap b assms(4), of hist]
  have "df_net_delta (delta_feed d hist) = (let vols = foldl add_volumes (0, 0) (takeWhile
      (\<lambda>c. \<not> db_ts_ns c < window_cutoff (grid_time ?t0 b ?k) w) (map (\<lambda>i. ?f (?k - i)) [0..<min (Suc ?k) kMaxDeltaBuckets]))
      in fst vols - snd vols)"
    using grid on_grid_newest(1) [OF kMaxDeltaBuckets_pos grid] p
    by (simp add: hist delta_feed_snoc delta_net_of_ring delta_on_event_ring time_of_def on_grid_def
        hist_bucket_def Let_def del: upt_Suc)
  also have "foldl add_volumes (0, 0) (takeWhile (\<lambda>c. \<not> db_ts_ns c < window_cutoff (grid_time ?t0 b ?k) w)
      (map (\<lambda>i. ?f (?k - i)) [0..<min (Suc ?k) kMaxDeltaBuckets])) = (Fin (of_int (total buy_of)), Fin (of_int (total sell_of)))"
    unfolding scan zero_f64_def
    using foldl_add_volumes [of "bucket_total ?t0 b time_of buy_of hist" "bucket_total ?t0 b time_of sell_of hist" 0 0 ?f
        "map (\<lambda>i. ?k - i) [0..<?m]"] bound [of buy_of] bound [of sell_of] assms(5,6)
      bucket_total_bounds [of buy_of ?t0 b time_of hist] bucket_total_bounds [of sell_of ?t0 b time_of hist]
    by (simp add: total_def o_def hist_bucket_def del: upt_Suc)
  finally have "df_net_delta (delta_feed d hist) = Fin (of_int (total buy_of)) - Fin (of_int (total sell_of))"
    by simp
  also have "\<dots> = Fin (of_int (total buy_of - total sell_of))"
  proof (rule f64_sub_int)
    have "0 \<le> total g" if "\<And>y. 0 \<le> g y" for g unfolding total by (rule sum_list_nonneg) (use that in auto)
    then have "0 \<le> total buy_of" "0 \<le> total sell_of" by simp_all
    then show "\<bar>total buy_of - total sell_of\<bar> \<le> 2 ^ 53"
      using bound [of buy_of] bound [of sell_of] assms(5,6) by simp
  qed
  finally show ?thesis by (simp add: window_imbalance_def total sum_list_subtractf Let_def)
qed

text \<open>
  C19: After any paced feed (ordered in time, no gap longer than the \<open>num_buckets\<close> buckets that are
  advanced at once, 110 ms by default, the clock not at its end) with a window that fits the ring and at most \<open>2 ^ 53\<close> bought and as much sold, the
  published net imbalance is exactly (no rounding) buys minus sells over the events whose
  bucket started at most \<open>window_ns\<close> before the current bucket.  After a longer gap the code
  loses or misplaces trades, and the property does not hold.
\<close>

theorem net_delta_is_window_imbalance:
  assumes "delta_new w b = Some d" and "hist \<noteq> []"
    and "paced (time_of (hd hist)) b (df_num_buckets d) (map time_of hist)"
    and "unat w div unat b < kMaxDeltaBuckets"
    and "sum_list (map buy_of hist) \<le> 2 ^ 53" and "sum_list (map sell_of hist) \<le> 2 ^ 53"
  shows "df_net_delta (delta_feed d hist) = Fin (of_int (window_imbalance w b hist))"
  by (rule window_imbalance_exact [OF assms])

section \<open>After a long silence\<close>

definition delta_wf :: "delta_factor \<Rightarrow> bool" where
  "delta_wf d \<longleftrightarrow> ring_wf kMaxDeltaBuckets (df_ring d)"

lemma record_trade_keeps:
  "ring_wf cap (df_ring d) \<Longrightarrow> ring_wf cap (df_ring (delta_record_trade ev d))"
  "rg_count (df_ring (delta_record_trade ev d)) = rg_count (df_ring d)"
  by (auto simp: delta_record_trade_def Let_def ring_set_newest_wf)

lemma delta_on_event_wf [wf_intros]:
  "delta_wf d \<Longrightarrow> delta_wf (delta_on_event ev d) \<and> 0 < rg_count (df_ring (delta_on_event ev d))"
  by (simp add: delta_wf_def delta_on_event_ring record_trade_keeps delta_advance_time_def
      ring_advance_wf ring_advance_count)

lemma delta_feed_wf:
  "delta_new w b = Some d \<Longrightarrow> delta_wf (delta_feed d hist) \<and> (hist \<noteq> [] \<longrightarrow> 0 < rg_count (df_ring (delta_feed d hist)))"
proof (induction hist rule: rev_induct)
  case Nil
  then show ?case by (simp add: delta_feed_def delta_wf_def delta_new_params)
next
  case (snoc x hist)
  then have "delta_wf (set_midprice (fst x) (delta_feed d hist))" by (simp add: delta_wf_def)
  from delta_on_event_wf [OF this] show ?case by (simp add: delta_feed_snoc)
qed

text \<open>
  What an event does to the ring when more buckets have passed than \<open>num_buckets\<close>: the head
  moves by \<open>num_buckets\<close> only.
\<close>

definition newest_ts :: "delta_factor \<Rightarrow> u64" where
  "newest_ts d = db_ts_ns (ring_newest (df_ring d))"

lemma capped_advance:
  assumes "delta_wf d" "0 < rg_count (df_ring d)" "0 < df_bucket_ns d" "0 < df_num_buckets d"
    "unat (newest_ts d) + df_num_buckets d * unat (df_bucket_ns d) \<le> unat t"
  shows "ring_list kMaxDeltaBuckets (df_ring (delta_advance_time t d))
      = take kMaxDeltaBuckets (map (\<lambda>i. delta_blank (grid_time (newest_ts d) (df_bucket_ns d) (df_num_buckets d - i)))
          [0..<df_num_buckets d] @ ring_list kMaxDeltaBuckets (df_ring d))"
proof -
  let ?b = "df_bucket_ns d" and ?n = "df_num_buckets d" and ?s = "newest_ts d"
  have b: "0 < unat ?b" using assms(3) by (simp add: unat_gt_0 word_neq_0_conv)
  have tl: "unat t < 2 ^ 64" using unsigned_less [of t, where 'a = nat] by simp
  have sb: "unat (?s + ?b) = unat ?s + unat ?b"
  proof -
    have "unat ?b \<le> ?n * unat ?b" using assms(4) by simp
    then have "unat ?s + 1 * unat ?b < 2 ^ 64" using assms(5) tl by linarith
    from unat_grid_time [OF this] show ?thesis by (simp add: grid_time_def)
  qed
  have late: "\<not> t < ?s + ?b"
  proof -
    have "unat ?b \<le> ?n * unat ?b" using assms(4) by simp
    then show ?thesis using sb assms(5) unfolding word_less_nat_alt by linarith
  qed
  have "unat ?s \<le> unat t" using assms(5) by linarith
  then have "unat (t - ?s) = unat t - unat ?s" by (simp add: unat_sub_if')
  then have "?n \<le> unat (t - ?s) div unat ?b"
    using assms(5) b by (simp add: less_eq_div_iff_mult_less_eq)
  then have "min (unat ((t - ?s) div ?b)) ?n = ?n" by (simp add: unat_div)
  then have "df_ring (delta_advance_time t d)
      = ring_extend kMaxDeltaBuckets (\<lambda>i. delta_blank (?s + (of_nat i + 1) * ?b)) ?n (df_ring d)"
    using late assms(2) by (simp add: delta_advance_time_def ring_advance_def newest_ts_def Let_def)
  moreover have "rev (map (\<lambda>i. delta_blank (?s + (of_nat i + 1) * ?b)) [0..<?n])
      = map (\<lambda>i. delta_blank (grid_time ?s ?b (?n - i))) [0..<?n]"
  proof (rule nth_equalityI)
    fix i assume "i < length (rev (map (\<lambda>i. delta_blank (?s + (of_nat i + 1) * ?b)) [0..<?n]))"
    then have "i < ?n" by simp
    then have "of_nat (?n - Suc i) + 1 = (of_nat (?n - i) :: u64)" by (metis Suc_diff_Suc of_nat_Suc add.commute)
    then show "rev (map (\<lambda>i. delta_blank (?s + (of_nat i + 1) * ?b)) [0..<?n]) ! i
        = map (\<lambda>i. delta_blank (grid_time ?s ?b (?n - i))) [0..<?n] ! i"
      using \<open>i < ?n\<close> by (simp add: rev_nth grid_time_def)
  qed simp
  ultimately show ?thesis
    using ring_extend_list [OF kMaxDeltaBuckets_pos assms(1) [unfolded delta_wf_def]] by simp
qed

lemma record_on_blank:
  assumes "ring_wf kMaxDeltaBuckets (df_ring d)" "0 < rg_count (df_ring d)"
    "ring_newest (df_ring d) = delta_blank ts" "ev_qty ev \<le> 2 ^ 53"
  shows "ring_list kMaxDeltaBuckets (df_ring (delta_record_trade ev d))
    = \<lparr> db_ts_ns = ts, db_buy_vol = Fin (of_int (buy_of (df_midprice d, ev))),
         db_sell_vol = Fin (of_int (sell_of (df_midprice d, ev))) \<rparr>
      # tl (ring_list kMaxDeltaBuckets (df_ring d))"
proof (cases "ev_side ev = Trade \<and> 0 < ev_qty ev")
  case True
  then have "0 + f64_of_int (ev_qty ev) = Fin (of_int (ev_qty ev))"
    using exact_volume [of "ev_qty ev" 0] assms(4) by (simp add: zero_f64_def)
  then show ?thesis
    using True assms(2,3) ring_list_set_newest [OF assms(1)]
    by (auto simp: delta_record_trade_def delta_blank_def buy_of_def sell_of_def zero_f64_def Let_def)
next
  case False
  obtain c cs where l: "ring_list kMaxDeltaBuckets (df_ring d) = c # cs"
    using assms(2) by (cases "ring_list kMaxDeltaBuckets (df_ring d)") (auto dest: arg_cong [of _ _ length])
  then have "c = delta_blank ts" using ring_newest_hd [OF assms(1)] assms(3) by simp
  then show ?thesis using False l
    by (auto simp: delta_record_trade_def delta_blank_def buy_of_def sell_of_def zero_f64_def)
qed

definition default_timing :: "delta_factor \<Rightarrow> bool" where
  "default_timing d \<longleftrightarrow> df_window_ns d = 100000000 \<and> df_bucket_ns d = 10000000 \<and> df_num_buckets d = 11"

lemma delta_default_timing: "delta_new kDefaultWindowNs kDefaultBucketNs = Some delta_default"
    "default_timing delta_default"
  by (simp_all add: delta_default_def delta_new_def kDefaultWindowNs_def kDefaultBucketNs_def
      default_timing_def kMaxDeltaBuckets_def)

lemma capped_event:
  assumes "default_timing d" "delta_wf d" "0 < rg_count (df_ring d)"
    "unat (newest_ts d) + 110000000 \<le> unat (ev_timestamp_ns ev)" "ev_qty ev \<le> 2 ^ 53"
  shows "ring_list kMaxDeltaBuckets (df_ring (delta_on_event ev d)) =
    \<lparr> db_ts_ns = grid_time (newest_ts d) 10000000 11,
      db_buy_vol = Fin (of_int (buy_of (df_midprice d, ev))),
      db_sell_vol = Fin (of_int (sell_of (df_midprice d, ev))) \<rparr>
    # map (\<lambda>i. delta_blank (grid_time (newest_ts d) 10000000 (11 - i))) [1..<11]
    @ take 53 (ring_list kMaxDeltaBuckets (df_ring d))"
proof -
  let ?d = "delta_advance_time (ev_timestamp_ns ev) d"
  have p: "df_bucket_ns d = 10000000" "df_num_buckets d = 11" using assms(1) by (simp_all add: default_timing_def)
  have L: "ring_list kMaxDeltaBuckets (df_ring ?d)
      = map (\<lambda>i. delta_blank (grid_time (newest_ts d) 10000000 (11 - i))) [0..<11]
        @ take 53 (ring_list kMaxDeltaBuckets (df_ring d))"
    using capped_advance [OF assms(2,3), of "ev_timestamp_ns ev"] assms(4) p
    by (simp add: kMaxDeltaBuckets_def del: upt_Suc)
  have wf: "ring_wf kMaxDeltaBuckets (df_ring ?d)" "0 < rg_count (df_ring ?d)"
    using assms(2) by (simp_all add: delta_wf_def delta_advance_time_def ring_advance_wf ring_advance_count)
  have "ring_newest (df_ring ?d) = delta_blank (grid_time (newest_ts d) 10000000 11)"
    using ring_newest_hd [OF wf(1)] wf(2) unfolding L by (simp add: upt_conv_Cons)
  from record_on_blank [OF wf this assms(5)] show ?thesis
    unfolding L by (simp add: delta_on_event_ring upt_conv_Cons delta_advance_time_def)
qed

lemma newest_of_list: "delta_wf d \<Longrightarrow> ring_list kMaxDeltaBuckets (df_ring d) = c # cs \<Longrightarrow> newest_ts d = db_ts_ns c"
  using ring_newest_hd [of kMaxDeltaBuckets "df_ring d"] by (simp add: newest_ts_def delta_wf_def)

lemma capped_event_net:
  assumes "default_timing d" "delta_wf d" "0 < rg_count (df_ring d)"
    "unat (newest_ts d) + 110000000 \<le> unat (ev_timestamp_ns ev)" "ev_qty ev \<le> 2 ^ 53"
  shows "df_net_delta (delta_on_event ev d) = Fin (of_int (buy_of (df_midprice d, ev) - sell_of (df_midprice d, ev)))"
proof -
  let ?s = "newest_ts d" and ?b = "10000000 :: u64"
  let ?x = "(df_midprice d, ev)"
  let ?c = "\<lparr> db_ts_ns = grid_time ?s ?b 11, db_buy_vol = Fin (of_int (buy_of ?x)),
      db_sell_vol = Fin (of_int (sell_of ?x)) \<rparr>"
  let ?f = "\<lambda>i. if i = 0 then ?c else delta_blank (grid_time ?s ?b (11 - i))"
  let ?P = "\<lambda>c. \<not> db_ts_ns c < window_cutoff (grid_time ?s ?b 11) 100000000"
  note L = capped_event [OF assms]
  obtain c1 cs where l: "ring_list kMaxDeltaBuckets (df_ring d) = c1 # cs"
    using assms(3) by (cases "ring_list kMaxDeltaBuckets (df_ring d)") (auto dest: arg_cong [of _ _ length])
  have s: "db_ts_ns c1 = grid_time ?s ?b 0"
    using newest_of_list [OF assms(2) l] by (simp add: grid_time_def)
  have "unat ?s + 11 * unat ?b < 2 ^ 64"
    using assms(4) unsigned_less [of "ev_timestamp_ns ev", where 'a = nat] by simp
  then have w: "?P c \<longleftrightarrow> i < 11" if "db_ts_ns c = grid_time ?s ?b (11 - i)" "i \<le> 11" for c i
    using grid_in_window [of i 11 ?s ?b 100000000] that by simp
  have "df_window_ns d = 100000000" using assms(1) by (simp add: default_timing_def)
  moreover have wf: "delta_wf (delta_on_event ev d)" using delta_on_event_wf [OF assms(2)] by simp
  moreover have "newest_ts (delta_on_event ev d) = grid_time ?s ?b 11"
    using newest_of_list [OF wf] L by simp
  ultimately have "df_net_delta (delta_on_event ev d) = (let vols = foldl add_volumes (0, 0)
      (takeWhile ?P (ring_list kMaxDeltaBuckets (df_ring (delta_on_event ev d)))) in fst vols - snd vols)"
    by (simp add: delta_net_of_ring delta_on_event_ring newest_ts_def Let_def)
  also have "ring_list kMaxDeltaBuckets (df_ring (delta_on_event ev d)) = map ?f [0..<11] @ c1 # take 52 cs"
    unfolding L l by (simp add: upt_conv_Cons)
  also have "takeWhile ?P (map ?f [0..<11] @ c1 # take 52 cs) = map ?f [0..<11]"
  proof -
    have "\<forall>c \<in> set (map ?f [0..<11]). ?P c"
      using w [of ?c 0] w [of "delta_blank _"] by (auto simp: delta_blank_def)
    moreover have "\<not> ?P c1" using w [of c1 11] s by simp
    ultimately show ?thesis by (simp add: takeWhile_append del: upt_Suc)
  qed
  also have "foldl add_volumes (0, 0) (map ?f [0..<11]) = (Fin (of_int (buy_of ?x)), Fin (of_int (sell_of ?x)))"
  proof -
    let ?p = "\<lambda>v i :: nat. if i = 0 then v else (0 :: int)"
    have v: "sum_list (map (?p v) [0..<11]) = v" for v by (simp add: upt_conv_Cons)
    have le: "buy_of ?x \<le> 2 ^ 53" "sell_of ?x \<le> 2 ^ 53"
      using assms(5) by (simp_all add: buy_of_def sell_of_def)
    have "foldl add_volumes (Fin (of_int 0), Fin (of_int 0)) (map ?f [0..<11])
      = (Fin (of_int (0 + sum_list (map (?p (buy_of ?x)) [0..<11]))),
         Fin (of_int (0 + sum_list (map (?p (sell_of ?x)) [0..<11]))))"
      by (rule foldl_add_volumes [where p = "?p (buy_of ?x)" and q = "?p (sell_of ?x)" and f = ?f])
        (use le in \<open>simp_all add: v delta_blank_def zero_f64_def del: upt_Suc\<close>)
    then show ?thesis unfolding v by (simp add: zero_f64_def)
  qed
  finally show ?thesis
    using f64_sub_int [of "buy_of ?x" "sell_of ?x"] assms(5) by (simp add: buy_of_def sell_of_def)
qed

text \<open>
  After a silence of at least twenty-two default buckets the window is wrong for a while:
  the head of the ring lags behind the clock, so the next event discards the bucket of the
  previous one.  Of two trades that arrive together after such a silence, only the second is
  counted, however close they are.
\<close>

theorem silence_loses_trades:
  assumes "hist \<noteq> []" and "d = delta_feed delta_default hist"
    and "unat (newest_ts d) + 220000000 \<le> unat (time_of x)" and "time_of x \<le> time_of y"
    and "ev_qty (snd x) \<le> 2 ^ 53" and "ev_qty (snd y) \<le> 2 ^ 53"
  shows "df_net_delta (delta_feed delta_default (hist @ [x, y])) = Fin (of_int (buy_of y - sell_of y))"
proof -
  let ?d0 = "set_midprice (fst x) d"
  let ?d1 = "delta_on_event (snd x) ?d0"
  let ?d2 = "set_midprice (fst y) ?d1"
  have timing: "default_timing ?d0" "default_timing ?d2"
    using delta_default_timing(2) assms(2) by (simp_all add: default_timing_def)
  have wf0: "delta_wf ?d0" "0 < rg_count (df_ring ?d0)"
    using delta_feed_wf [OF delta_default_timing(1), of hist] assms(1,2) by (simp_all add: delta_wf_def)
  then have wf1: "delta_wf ?d1" "0 < rg_count (df_ring ?d1)" using delta_on_event_wf by blast+
  then have wf2: "delta_wf ?d2" "0 < rg_count (df_ring ?d2)" by (simp_all add: delta_wf_def)
  have n0: "newest_ts ?d0 = newest_ts d" by (simp add: newest_ts_def)
  have "newest_ts ?d1 = grid_time (newest_ts d) 10000000 11"
    using newest_of_list [OF wf1(1)] capped_event [OF timing(1) wf0, of "snd x"] assms(3,5)
    by (simp add: n0 time_of_def)
  moreover have "unat (newest_ts d) + 11 * unat (10000000 :: u64) < 2 ^ 64"
    using assms(3) unsigned_less [of "time_of x", where 'a = nat] by simp
  ultimately have "unat (newest_ts ?d1) = unat (newest_ts d) + 110000000"
    using unat_grid_time [of "newest_ts d" 11 10000000] by simp
  then have "unat (newest_ts ?d2) + 110000000 \<le> unat (ev_timestamp_ns (snd y))"
    using assms(3,4) by (simp add: newest_ts_def time_of_def word_le_nat_alt)
  from capped_event_net [OF timing(2) wf2 this assms(6)]
  have "df_net_delta (delta_on_event (snd y) ?d2) = Fin (of_int (buy_of y - sell_of y))"
    by (simp add: set_midprice_def)
  then show ?thesis
    using delta_feed_snoc [of delta_default "hist @ [x]" y] delta_feed_snoc [of delta_default hist x] assms(2)
    by simp
qed

section \<open>Reset\<close>

text \<open>
  \<open>reset\<close> empties the ring and the differences but keeps the midprice: a trade below the
  old midprice still counts as a sale, where a new factor counts it as a purchase.
\<close>

theorem reset_keeps_midprice:
  assumes "delta_new w b = Some d0" and "df_window_ns d = w" and "df_bucket_ns d = b"
    and "df_num_buckets d = df_num_buckets d0" and "0 < df_midprice d"
    and "ev_side ev = Trade" and "0 < ev_qty ev" and "ev_qty ev \<le> 2 ^ 53" and "ev_price ev < df_midprice d"
  shows "delta_reset d = set_midprice (df_midprice d) d0 \<and>
    df_net_delta (delta_on_event ev (delta_reset d)) = Fin (of_int (- ev_qty ev)) \<and>
    df_net_delta (delta_on_event ev d0) = Fin (of_int (ev_qty ev))"
proof -
  note p = delta_new_params [OF assms(1)]
  have new: "delta_reset d = set_midprice (df_midprice d) d0"
    using assms(1-4) by (auto simp: delta_reset_def set_midprice_def delta_new_def split: if_splits)
  have one: "df_net_delta (delta_on_event ev (set_midprice mid d0)) = Fin (of_int (buy_of (mid, ev) - sell_of (mid, ev)))" for mid
  proof -
    let ?d = "delta_advance_time (ev_timestamp_ns ev) (set_midprice mid d0)"
    have "df_ring ?d = ring_start (delta_blank (ev_timestamp_ns ev)) delta_ring_empty"
      using p by (simp add: delta_advance_time_def ring_advance_def)
    then have r: "ring_wf kMaxDeltaBuckets (df_ring ?d)" "ring_list kMaxDeltaBuckets (df_ring ?d) = [delta_blank (ev_timestamp_ns ev)]"
      by (simp_all add: ring_start_wf ring_start_list)
    have n: "ring_newest (df_ring ?d) = delta_blank (ev_timestamp_ns ev)" "0 < rg_count (df_ring ?d)"
      using ring_newest_hd [OF r(1)] length_ring_list [of kMaxDeltaBuckets "df_ring ?d", symmetric]
      unfolding r(2) by simp_all
    note L = record_on_blank [OF r(1) n(2,1) assms(8), unfolded r(2)]
    have m: "df_midprice ?d = mid" by (simp add: delta_advance_time_def set_midprice_def)
    have ts: "db_ts_ns (ring_newest (df_ring (delta_record_trade ev ?d))) = ev_timestamp_ns ev"
      using ring_newest_hd [OF record_trade_keeps(1) [OF r(1)], of ev] L by simp
    have "buy_of (mid, ev) \<le> 2 ^ 53" "sell_of (mid, ev) \<le> 2 ^ 53"
      using assms(8) by (simp_all add: buy_of_def sell_of_def)
    then show ?thesis
      using f64_add_int [of 0 "buy_of (mid, ev)"] f64_add_int [of 0 "sell_of (mid, ev)"]
        f64_sub_int [of "buy_of (mid, ev)" "sell_of (mid, ev)"] volumes_nonneg [of "(mid, ev)"]
      by (simp add: delta_net_of_ring ts L m cutoff_not_later add_volumes_def zero_f64_def Let_def
          del: volumes_nonneg)
  qed
  have "set_midprice 0 d0 = d0" using p by (simp add: set_midprice_def)
  then show ?thesis
    using new one [of "df_midprice d"] one [of 0] assms(5-9) by (simp add: buy_of_def sell_of_def)
qed

section \<open>Concrete feeds\<close>

definition trade_at :: "u64 \<Rightarrow> int \<Rightarrow> int \<Rightarrow> lob_event" where
  "trade_at ts price qty = \<lparr> ev_timestamp_ns = ts, ev_entry_id = 0, ev_price = price, ev_qty = qty,
     ev_action = New, ev_side = Trade \<rparr>"

definition sample_trades :: "(int \<times> lob_event) list" where
  "sample_trades = [(0, trade_at 1000000000 200010 5), (200000, trade_at 1025000000 199990 2),
     (200000, trade_at 1090000000 200020 4), (200000, trade_at 1125000000 200000 1)]"

theorem net_delta_is_window_imbalance_witness:
  "df_net_delta (delta_feed delta_default sample_trades) = Fin 3"
proof -
  have "window_imbalance kDefaultWindowNs kDefaultBucketNs sample_trades = 3"
    by (simp add: window_imbalance_def sample_trades_def trade_at_def time_of_def grid_index_def
        buy_of_def sell_of_def kDefaultWindowNs_def kDefaultBucketNs_def)
  moreover have "df_num_buckets delta_default = 11"
    using delta_default_timing(2) by (simp add: default_timing_def)
  ultimately show ?thesis
    using net_delta_is_window_imbalance [OF delta_default_timing(1), of sample_trades]
    by (simp add: sample_trades_def trade_at_def time_of_def paced_def grid_index_def buy_of_def sell_of_def
        kDefaultWindowNs_def kDefaultBucketNs_def kMaxDeltaBuckets_def)
qed

theorem silence_loses_trades_witness:
  "df_net_delta (delta_feed delta_default [(0, trade_at 1000000000 200000 1),
     (0, trade_at 2000000000 200000 7), (0, trade_at 2000000001 200000 5)]) = Fin 5"
proof -
  let ?h = "[(0, trade_at 1000000000 200000 1)]"
  have "delta_inv 1000000000 ?h (delta_feed delta_default ?h)"
    using delta_feed_inv [OF delta_default_timing(1), of ?h 1000000000]
    by (simp add: trade_at_def time_of_def paced_def buy_of_def sell_of_def kDefaultBucketNs_def)
  then have "ring_newest (df_ring (delta_feed delta_default ?h)) = hist_bucket 1000000000 kDefaultBucketNs ?h 0"
    using on_grid_newest(1) [OF kMaxDeltaBuckets_pos] delta_new_params [OF delta_default_timing(1)]
    by (fastforce simp: delta_inv_def time_of_def trade_at_def grid_index_def)
  then have "newest_ts (delta_feed delta_default ?h) = 1000000000"
    by (simp add: newest_ts_def hist_bucket_def grid_time_def)
  then show ?thesis
    using silence_loses_trades [of ?h "delta_feed delta_default ?h" "(0, trade_at 2000000000 200000 7)"
        "(0, trade_at 2000000001 200000 5)"]
    by (simp add: trade_at_def time_of_def buy_of_def sell_of_def word_le_nat_alt)
qed

theorem reset_keeps_midprice_witness:
  "df_net_delta (delta_on_event (trade_at 1000 150000 3) (delta_reset (set_midprice 200000 delta_default))) = Fin (- 3) \<and>
   df_net_delta (delta_on_event (trade_at 1000 150000 3) delta_default) = Fin 3"
  using reset_keeps_midprice [OF delta_default_timing(1), of "set_midprice 200000 delta_default" "trade_at 1000 150000 3",
      THEN conjunct2] delta_new_params [OF delta_default_timing(1)]
  by (simp add: trade_at_def) (simp add: set_midprice_def)

end
