(* ===== verification/Cancel_Factor.thy ===== *)
theory Cancel_Factor
  imports Bucket_Ring "HOL-Library.Multiset"
begin

text \<open>
  \<open>CancelFactor\<close> (\<open>include/smartquant/alpha/cancel_factor.hpp\<close>,
  \<open>src/alpha/cancel_factor.cpp\<close>): deletions per side in 10 ms buckets, their z-scores over the
  last second, and the 95th percentile of the z-scores of the last 30 seconds.
\<close>

section \<open>State\<close>

definition kBucketNs :: u64 where "kBucketNs = 10000000"
definition kWindowNs :: u64 where "kWindowNs = 1000000000"
definition kQuantileNs :: u64 where "kQuantileNs = 30000000000"
definition kMaxCancelBuckets :: nat where "kMaxCancelBuckets = 200"

record cancel_bucket =
  cb_ts_ns :: u64
  cb_bid_cancels :: f64
  cb_ask_cancels :: f64

definition cancel_blank :: "u64 \<Rightarrow> cancel_bucket" where
  "cancel_blank ts = \<lparr> cb_ts_ns = ts, cb_bid_cancels = 0, cb_ask_cancels = 0 \<rparr>"

record cancel_factor =
  cf_ring :: "cancel_bucket ring"
  cf_z_bid :: f64
  cf_z_ask :: f64
  cf_recent_z_bid :: "f64 list"
  cf_recent_z_ask :: "f64 list"
  cf_recent_ts :: "u64 list"

definition cancel_ring_empty :: "cancel_bucket ring" where
  "cancel_ring_empty =
     \<lparr> rg_buckets = replicate kMaxCancelBuckets (cancel_blank 0), rg_head = 0, rg_count = 0 \<rparr>"

definition cancel_new :: cancel_factor where
  "cancel_new = \<lparr> cf_ring = cancel_ring_empty, cf_z_bid = 0, cf_z_ask = 0,
     cf_recent_z_bid = [], cf_recent_z_ask = [], cf_recent_ts = [] \<rparr>"

section \<open>Operations\<close>

definition cancel_reset :: "cancel_factor \<Rightarrow> cancel_factor" where
  "cancel_reset c = c\<lparr>cf_ring := cancel_ring_empty, cf_z_bid := 0, cf_z_ask := 0,
     cf_recent_z_bid := [], cf_recent_z_ask := [], cf_recent_ts := []\<rparr>"

definition cancel_advance_time :: "u64 \<Rightarrow> cancel_factor \<Rightarrow> cancel_factor" where
  "cancel_advance_time now_ns c =
     c\<lparr>cf_ring := ring_advance kMaxCancelBuckets cancel_blank cb_ts_ns kBucketNs kMaxCancelBuckets
        now_ns (cf_ring c)\<rparr>"

definition count_delete :: "lob_event \<Rightarrow> cancel_factor \<Rightarrow> cancel_factor" where
  "count_delete ev c =
     (if ev_action ev = Delete then
        (let b = ring_newest (cf_ring c)
         in case ev_side ev of
              Bid \<Rightarrow> c\<lparr>cf_ring := ring_set_newest (b\<lparr>cb_bid_cancels := cb_bid_cancels b + 1\<rparr>) (cf_ring c)\<rparr>
            | Offer \<Rightarrow> c\<lparr>cf_ring := ring_set_newest (b\<lparr>cb_ask_cancels := cb_ask_cancels b + 1\<rparr>) (cf_ring c)\<rparr>
            | Trade \<Rightarrow> c)
      else c)"

text \<open>Sum, sum of squares and number of the samples of the window.\<close>

record window_sums =
  ws_sum_bid :: f64
  ws_sum_ask :: f64
  ws_sq_bid :: f64
  ws_sq_ask :: f64
  ws_n :: nat

definition add_sample :: "window_sums \<Rightarrow> cancel_bucket \<Rightarrow> window_sums" where
  "add_sample w b =
     \<lparr> ws_sum_bid = ws_sum_bid w + cb_bid_cancels b, ws_sum_ask = ws_sum_ask w + cb_ask_cancels b,
       ws_sq_bid = ws_sq_bid w + cb_bid_cancels b * cb_bid_cancels b,
       ws_sq_ask = ws_sq_ask w + cb_ask_cancels b * cb_ask_cancels b, ws_n = ws_n w + 1 \<rparr>"

definition z_score :: "nat \<Rightarrow> f64 \<Rightarrow> f64 \<Rightarrow> f64 \<Rightarrow> f64" where
  "z_score n sum_c squares c =
     (let fn = f64_of_int (int n);
          mu = f64_div sum_c fn;
          var = f64_div squares fn - mu * mu;
          sigma = (if 0 < var then f64_sqrt var else 1)
      in f64_div (c - mu) sigma)"

text \<open>The loop that pops expired entries off the fronts of the three queues.\<close>

fun expire_recent :: "u64 \<Rightarrow> u64 list \<times> f64 list \<times> f64 list \<Rightarrow> u64 list \<times> f64 list \<times> f64 list" where
  "expire_recent q_cutoff ([], zb, za) = ([], zb, za)"
| "expire_recent q_cutoff (t # ts, zb, za) =
     (if t < q_cutoff then expire_recent q_cutoff (ts, tl zb, tl za) else (t # ts, zb, za))"

definition recompute_zscores :: "cancel_factor \<Rightarrow> cancel_factor" where
  "recompute_zscores c =
     (if rg_count (cf_ring c) < 2 then c
      else
        (let now_ns = cb_ts_ns (ring_newest (cf_ring c));
             cutoff = window_cutoff now_ns kWindowNs;
             w = ring_scan kMaxCancelBuckets (\<lambda>b. cb_ts_ns b < cutoff) add_sample (cf_ring c) 0
                   \<lparr> ws_sum_bid = 0, ws_sum_ask = 0, ws_sq_bid = 0, ws_sq_ask = 0, ws_n = 0 \<rparr>
         in if ws_n w < 2 then c
            else
              (let z_bid = z_score (ws_n w) (ws_sum_bid w) (ws_sq_bid w)
                             (cb_bid_cancels (ring_newest (cf_ring c)));
                   z_ask = z_score (ws_n w) (ws_sum_ask w) (ws_sq_ask w)
                             (cb_ask_cancels (ring_newest (cf_ring c)));
                   q_cutoff = window_cutoff now_ns kQuantileNs;
                   (ts, zb, za) = expire_recent q_cutoff
                     (cf_recent_ts c @ [now_ns], cf_recent_z_bid c @ [z_bid], cf_recent_z_ask c @ [z_ask])
               in c\<lparr>cf_z_bid := z_bid, cf_z_ask := z_ask, cf_recent_z_bid := zb,
                    cf_recent_z_ask := za, cf_recent_ts := ts\<rparr>)))"

definition cancel_on_event :: "lob_event \<Rightarrow> cancel_factor \<Rightarrow> cancel_factor" where
  "cancel_on_event ev c = recompute_zscores (count_delete ev (cancel_advance_time (ev_timestamp_ns ev) c))"

text \<open>\<open>std::sort\<close> on doubles without NaN: the ascending arrangement.\<close>

fun f64_insort :: "f64 \<Rightarrow> f64 list \<Rightarrow> f64 list" where
  "f64_insort x [] = [x]"
| "f64_insort x (y # ys) = (if y < x then y # f64_insort x ys else x # y # ys)"

definition f64_sort :: "f64 list \<Rightarrow> f64 list" where
  "f64_sort xs = foldr f64_insort xs []"

text \<open>The double nearest to 0.95.\<close>

definition quantile_level :: f64 where
  "quantile_level = round64 (95 / 100)"

definition combined_scores :: "cancel_factor \<Rightarrow> f64 list" where
  "combined_scores c =
     map (\<lambda>i. std_max (cf_recent_z_bid c ! i) (cf_recent_z_ask c ! i)) [0..<length (cf_recent_z_bid c)]"

definition quantile_index :: "nat \<Rightarrow> nat" where
  "quantile_index n = nat (f64_trunc (quantile_level * f64_of_int (int n - 1)))"

definition dynamic_threshold :: "cancel_factor \<Rightarrow> f64" where
  "dynamic_threshold c =
     (if cf_recent_z_bid c = [] then Fin 2
      else (let combined = f64_sort (combined_scores c) in combined ! quantile_index (length combined)))"

definition cancel_feed :: "cancel_factor \<Rightarrow> lob_event list \<Rightarrow> cancel_factor" where
  "cancel_feed c evs = foldl (\<lambda>c ev. cancel_on_event ev c) c evs"

section \<open>Basic facts\<close>

lemma cancel_ring_empty_wf [simp]: "ring_wf kMaxCancelBuckets cancel_ring_empty" "rg_count cancel_ring_empty = 0"
  by (simp_all add: cancel_ring_empty_def ring_wf_def kMaxCancelBuckets_def)

lemma kMaxCancelBuckets_pos [simp]: "0 < kMaxCancelBuckets"
  by (simp add: kMaxCancelBuckets_def)

lemma cancel_feed_snoc: "cancel_feed c (evs @ [ev]) = cancel_on_event ev (cancel_feed c evs)"
  by (simp add: cancel_feed_def)

lemma recompute_ring [simp]: "cf_ring (recompute_zscores c) = cf_ring c"
  by (simp add: recompute_zscores_def Let_def case_prod_unfold)

section \<open>The percentile\<close>

lemma f64_insort_mset: "mset (f64_insort x xs) = add_mset x (mset xs)"
  by (induction xs) auto

lemma f64_sort_mset [simp]: "mset (f64_sort xs) = mset xs"
  unfolding f64_sort_def by (induction xs) (simp_all add: f64_insort_mset)

lemma f64_sort_length [simp]: "length (f64_sort xs) = length xs"
  by (metis f64_sort_mset size_mset)

lemma f64_sort_set [simp]: "set (f64_sort xs) = set xs"
  by (metis f64_sort_mset set_mset_mset)

lemma f64_not_less: "x \<noteq> NaN \<Longrightarrow> y \<noteq> NaN \<Longrightarrow> \<not> (y :: f64) < x \<Longrightarrow> x \<le> y"
  by (cases x; cases y) (auto simp: less_eq_f64_def)

lemma length_filter_take: "length (filter P (take k xs)) \<le> length (filter P xs)"
  by (metis append_take_drop_id filter_append length_append le_add1)

lemma length_filter_drop: "length (filter P (drop k xs)) \<le> length (filter P xs)"
  by (metis append_take_drop_id filter_append length_append le_add2)

lemma f64_insort_sorted:
  "x \<noteq> NaN \<Longrightarrow> NaN \<notin> set xs \<Longrightarrow> sorted_wrt (\<le>) xs \<Longrightarrow> sorted_wrt (\<le>) (f64_insort x xs)"
proof (induction xs)
  case (Cons y ys)
  have set: "set (f64_insort x ys) = insert x (set ys)"
    by (metis f64_insort_mset set_mset_add_mset_insert set_mset_mset)
  show ?case
  proof (cases "y < x")
    case True
    then show ?thesis using Cons by (auto simp: set less_eq_f64_def)
  next
    case False
    have "y \<noteq> NaN" using Cons.prems(2) by auto
    then have "x \<le> y" by (rule f64_not_less [OF Cons.prems(1) _ False])
    then show ?thesis using False Cons.prems f64_le_trans by auto
  qed
qed simp

lemma f64_sort_sorted: "NaN \<notin> set xs \<Longrightarrow> sorted_wrt (\<le>) (f64_sort xs)"
proof (induction xs)
  case (Cons x xs)
  have "sorted_wrt (\<le>) (f64_insort x (f64_sort xs))"
    by (rule f64_insort_sorted) (use Cons in auto)
  then show ?case by (simp add: f64_sort_def)
qed (simp add: f64_sort_def)

lemma quantile_level_bounds: "\<exists>q. quantile_level = Fin q \<and> 0 \<le> q \<and> q < 1"
proof -
  have "is_f53 (63 / 64)" using is_f53_dyadic [of 63 "- 6"] by (simp add: pow2_def)
  then have "rnd (95 / 100) \<le> 63 / 64" using rnd_mono [of "95 / 100" "63 / 64"] by simp
  then have r: "rnd (95 / 100) < 1" "0 \<le> rnd (95 / 100)"
    using rnd_nonneg [of "95 / 100"] by simp_all
  have "round64 (95 / 100) = Fin (rnd (95 / 100))" by (rule round64_small) (use r in simp)
  then show ?thesis using r by (auto simp: quantile_level_def)
qed

text \<open>The index is within the sorted vector, for any number of scores up to \<open>2 ^ 53\<close>.\<close>

lemma quantile_index_less:
  assumes "0 < n" "int n \<le> 2 ^ 53"
  shows "quantile_index n < n"
proof -
  obtain q where q: "quantile_level = Fin q" "0 \<le> q" "q \<le> 1"
    using quantile_level_bounds less_imp_le by blast
  let ?m = "of_int (int n - 1) :: rat"
  have m: "0 \<le> ?m" using assms by simp
  have m53: "is_f53 ?m" by (rule is_f53_int) (use assms in simp)
  have "q * ?m \<le> ?m" using q m mult_right_mono [of q 1 ?m] by simp
  then have r: "rnd (q * ?m) \<le> ?m" "0 \<le> rnd (q * ?m)"
    using rnd_mono [of "q * ?m" ?m] m m53 q rnd_nonneg [of "q * ?m"] by simp_all
  have lim: "?m \<le> 2 ^ 53"
  proof -
    have "?m \<le> of_int (2 ^ 53)" using assms(2) unfolding of_int_le_iff by simp
    then show ?thesis by simp
  qed
  have "round64 (q * ?m) = Fin (rnd (q * ?m))" by (rule round64_small) (use r lim in simp)
  then have eq: "quantile_level * f64_of_int (int n - 1) = Fin (rnd (q * ?m))"
  proof -
    have "f64_of_int (int n - 1) = Fin ?m" by (rule f64_of_int_exact) (use assms in simp)
    then show ?thesis using \<open>round64 (q * ?m) = _\<close> unfolding q(1) by (simp only: times_f64.simps)
  qed
  have "\<lfloor>rnd (q * ?m)\<rfloor> \<le> int n - 1" using r(1) floor_mono [of "rnd (q * ?m)" ?m] by simp
  then show ?thesis
    unfolding quantile_index_def eq using r(2) assms by (simp add: rat_trunc_def Let_def nat_less_iff)
qed

lemma quantile_index_2: "quantile_index 2 = 0"
proof -
  obtain q where q: "quantile_level = Fin q" "0 \<le> q" "q < 1" using quantile_level_bounds by blast
  have "f64_ok quantile_level" by (simp add: quantile_level_def)
  then have "is_f53 q" unfolding q(1) by simp
  then have "quantile_level * f64_of_int (int 2 - 1) = Fin q"
    using q round64_small [of q] unfolding q(1) by simp
  moreover have "\<lfloor>q\<rfloor> = 0" using q(2,3) by (simp add: floor_eq_iff)
  ultimately show ?thesis using q(2) by (simp only: quantile_index_def f64_trunc.simps rat_trunc_def Let_def) simp
qed

lemma combined_length [simp]: "length (combined_scores c) = length (cf_recent_z_bid c)"
  by (simp add: combined_scores_def)

lemma percentile_of_scores:
  assumes "cf_recent_z_bid c \<noteq> []" and "int (length (cf_recent_z_bid c)) \<le> 2 ^ 53"
    and "NaN \<notin> set (combined_scores c)"
  shows "let n = length (cf_recent_z_bid c); k = quantile_index n; thr = dynamic_threshold c
    in k < n \<and> thr \<in> set (combined_scores c) \<and>
       k + 1 \<le> length (filter (\<lambda>z. z \<le> thr) (combined_scores c)) \<and>
       n - k \<le> length (filter (\<lambda>z. thr \<le> z) (combined_scores c))"
proof -
  let ?xs = "f64_sort (combined_scores c)" and ?n = "length (cf_recent_z_bid c)"
  let ?k = "quantile_index ?n"
  have k: "?k < ?n" using quantile_index_less assms(1,2) by simp
  have thr: "dynamic_threshold c = ?xs ! ?k" using assms(1) by (simp add: dynamic_threshold_def Let_def)
  have srt: "sorted_wrt (\<le>) ?xs" by (rule f64_sort_sorted [OF assms(3)])
  have mem: "?xs ! ?k \<in> set (combined_scores c)" using k nth_mem [of ?k ?xs] by simp
  have refl: "?xs ! ?k \<le> ?xs ! ?k" using mem assms(3) f64_le_refl by metis
  have len: "length (filter P (combined_scores c)) = length (filter P ?xs)" for P
    by (metis f64_sort_mset mset_filter size_mset)
  have lower: "\<forall>z \<in> set (take (Suc ?k) ?xs). z \<le> ?xs ! ?k"
    using srt refl k by (auto simp: in_set_conv_nth less_Suc_eq sorted_wrt_iff_nth_less)
  have upper: "\<forall>z \<in> set (drop ?k ?xs). ?xs ! ?k \<le> z"
  proof
    fix z assume "z \<in> set (drop ?k ?xs)"
    then obtain i where i: "i < ?n - ?k" "z = ?xs ! (?k + i)" by (auto simp: in_set_conv_nth)
    then show "?xs ! ?k \<le> z" using srt refl by (cases i) (auto simp: sorted_wrt_iff_nth_less)
  qed
  have "?k + 1 \<le> length (filter (\<lambda>z. z \<le> ?xs ! ?k) ?xs)"
  proof -
    have "filter (\<lambda>z. z \<le> ?xs ! ?k) (take (Suc ?k) ?xs) = take (Suc ?k) ?xs" using lower by (simp add: filter_id_conv)
    then have "length (filter (\<lambda>z. z \<le> ?xs ! ?k) (take (Suc ?k) ?xs)) = Suc ?k" using k by simp
    then show ?thesis using length_filter_take [of "\<lambda>z. z \<le> ?xs ! ?k" "Suc ?k" ?xs] by linarith
  qed
  moreover have "?n - ?k \<le> length (filter (\<lambda>z. ?xs ! ?k \<le> z) ?xs)"
  proof -
    have "filter (\<lambda>z. ?xs ! ?k \<le> z) (drop ?k ?xs) = drop ?k ?xs" using upper by (simp add: filter_id_conv)
    then have "length (filter (\<lambda>z. ?xs ! ?k \<le> z) (drop ?k ?xs)) = ?n - ?k" by simp
    then show ?thesis using length_filter_drop [of "\<lambda>z. ?xs ! ?k \<le> z" ?k ?xs] by linarith
  qed
  ultimately show ?thesis using k mem by (simp add: Let_def thr len)
qed

section \<open>Scores are finite doubles\<close>

text \<open>Counts saturate at \<open>2 ^ 53\<close>, so the sums of a window and their quotients stay in range.\<close>

definition bucket_ok :: "cancel_bucket \<Rightarrow> bool" where
  "bucket_ok b \<longleftrightarrow> in_range 0 (pow2 53) (cb_bid_cancels b) \<and> in_range 0 (pow2 53) (cb_ask_cancels b)"

lemma pow2_nat [simp]: "pow2 (numeral n) = 2 ^ numeral n"
  by (simp add: pow2_def)

lemma bucket_ok_blank [simp]: "bucket_ok (cancel_blank ts)"
  by (simp add: bucket_ok_def cancel_blank_def zero_f64_def)

lemma f64_add_range:
  assumes "in_range 0 (of_int m * pow2 e) x" "in_range 0 (of_int n * pow2 e) y"
    "0 \<le> m" "0 \<le> n" "m + n \<le> 2 ^ 53" "0 \<le> e" "e \<le> 900"
  shows "in_range 0 (of_int (m + n) * pow2 e) (x + y)"
proof -
  obtain a b where x: "x = Fin a" "0 \<le> a" "a \<le> of_int m * pow2 e" and y: "y = Fin b" "0 \<le> b" "b \<le> of_int n * pow2 e"
    using in_rangeE [OF assms(1)] in_rangeE [OF assms(2)] by blast
  have "a + b \<le> of_int (m + n) * pow2 e" using x y by (simp add: distrib_right)
  then show ?thesis
    using x y in_range_round64 [OF is_double_0 is_double_scaled [of "m + n" e], of "a + b"] assms(3-7) by simp
qed

lemma add_one_range: "in_range 0 (pow2 53) x \<Longrightarrow> in_range 0 (pow2 53) (x + 1)"
proof -
  assume "in_range 0 (pow2 53) x"
  then obtain a where x: "x = Fin a" "0 \<le> a" "a \<le> pow2 53" using in_rangeE by blast
  have p: "pow2 53 = of_int (2 ^ 53)" using pow2_of_nat [of 53] by simp
  have up: "rnd (a + 1) \<le> rnd (of_int (2 ^ 53) + 1)" using x(3) p by (intro rnd_mono) simp
  have "expo (of_int (2 ^ 53) + 1) = 53"
    by (rule expo_unique) (simp_all add: pow2_def)
  moreover have "rne (9007199254740993 / 2) = 4503599627370496"
  proof -
    have "\<lfloor>9007199254740993 / 2 :: rat\<rfloor> = 4503599627370496" by (simp add: floor_eq_iff)
    then show ?thesis by (simp only: rne_def Let_def) simp
  qed
  ultimately have "rnd (of_int (2 ^ 53) + 1) = of_int (2 ^ 53)"
    by (simp add: rnd_def ulp_exp_def pow2_def)
  then have "rnd (a + 1) \<le> pow2 53" using up p by simp
  moreover have "0 \<le> rnd (a + 1)" using x(2) by (intro rnd_nonneg) simp
  moreover have "\<bar>pow2 53\<bar> < f64_limit" using is_double_pow2 [of 53] unfolding is_double_def by simp
  ultimately show ?thesis using x by (simp add: one_f64_def round64_def)
qed

definition sums_ok :: "window_sums \<Rightarrow> bool" where
  "sums_ok w \<longleftrightarrow> in_range 0 (of_int (int (ws_n w)) * pow2 53) (ws_sum_bid w) \<and>
     in_range 0 (of_int (int (ws_n w)) * pow2 53) (ws_sum_ask w) \<and>
     in_range 0 (of_int (int (ws_n w)) * pow2 106) (ws_sq_bid w) \<and>
     in_range 0 (of_int (int (ws_n w)) * pow2 106) (ws_sq_ask w)"

lemma square_range: "in_range 0 (pow2 53) x \<Longrightarrow> in_range 0 (of_int 1 * pow2 106) (x * x)"
proof -
  assume "in_range 0 (pow2 53) x"
  then obtain a where x: "x = Fin a" "0 \<le> a" "a \<le> pow2 53" using in_rangeE by blast
  have "a * a \<le> pow2 53 * pow2 53" using x by (intro mult_mono) simp_all
  then have "a * a \<le> pow2 106" unfolding pow2_add [symmetric] by simp
  then show ?thesis using x in_range_round64 [OF is_double_0 is_double_pow2 [of 106], of "a * a"] by simp
qed

lemma add_sample_ok: "sums_ok w \<Longrightarrow> bucket_ok b \<Longrightarrow> ws_n w < 2 ^ 50 \<Longrightarrow> sums_ok (add_sample w b)"
proof -
  assume a: "sums_ok w" "bucket_ok b" "ws_n w < 2 ^ 50"
  have n: "0 \<le> int (ws_n w)" "int (ws_n w) + 1 \<le> 2 ^ 53" using a(3) by simp_all
  have b: "in_range 0 (of_int 1 * pow2 53) (cb_bid_cancels b)" "in_range 0 (of_int 1 * pow2 53) (cb_ask_cancels b)"
    using a(2) by (simp_all add: bucket_ok_def)
  note sq = square_range [of "cb_bid_cancels b"] square_range [of "cb_ask_cancels b"]
  have s: "in_range 0 (of_int (int (ws_n w)) * pow2 53) (ws_sum_bid w)"
     "in_range 0 (of_int (int (ws_n w)) * pow2 53) (ws_sum_ask w)"
     "in_range 0 (of_int (int (ws_n w)) * pow2 106) (ws_sq_bid w)"
     "in_range 0 (of_int (int (ws_n w)) * pow2 106) (ws_sq_ask w)"
    using a(1) by (simp_all add: sums_ok_def)
  have e: "int (ws_n (add_sample w b)) = int (ws_n w) + 1" by (simp add: add_sample_def)
  show ?thesis
    unfolding sums_ok_def e
    using f64_add_range [OF s(1) b(1)] f64_add_range [OF s(2) b(2)] n a(2)
      f64_add_range [OF s(3) sq(1)] f64_add_range [OF s(4) sq(2)]
    by (simp add: add_sample_def bucket_ok_def)
qed

lemma foldl_sample_ok:
  "sums_ok w \<Longrightarrow> list_all bucket_ok bs \<Longrightarrow> ws_n w + length bs < 2 ^ 50 \<Longrightarrow>
     sums_ok (foldl add_sample w bs) \<and> ws_n (foldl add_sample w bs) = ws_n w + length bs"
proof (induction bs arbitrary: w)
  case (Cons b bs)
  have "sums_ok (add_sample w b)" using Cons.prems by (intro add_sample_ok) simp_all
  moreover have "ws_n (add_sample w b) = Suc (ws_n w)" by (simp add: add_sample_def)
  ultimately show ?case using Cons.IH [of "add_sample w b"] Cons.prems by simp
qed simp

text \<open>The last two steps of a score: a standard deviation that is not tiny, and the quotient by it.\<close>

lemma quotient_range:
  assumes "\<bar>u\<bar> \<le> pow2 j" "pow2 (- k) \<le> r" "j + k \<le> l" "0 \<le> l" "l \<le> 900"
  shows "in_range (- pow2 l) (pow2 l) (round64 (u / r))"
proof -
  have r: "0 < r" using assms(2) pow2_pos [of "- k"] by linarith
  have "pow2 j = pow2 (j + k) * pow2 (- k)" unfolding pow2_add [symmetric] by simp
  also have "\<dots> \<le> pow2 l * r" using assms(2,3) by (intro mult_mono) (simp_all del: pow2_nat)
  finally have "\<bar>u\<bar> \<le> pow2 l * r" using assms(1) by linarith
  then have "\<bar>u / r\<bar> \<le> pow2 l" using r by (simp add: abs_divide pos_divide_le_eq del: pow2_nat)
  moreover have "is_double (pow2 l)" "is_double (- pow2 l)"
    using is_double_pow2 [of l] is_double_minus assms(4,5) by simp_all
  ultimately show ?thesis by (intro in_range_round64) linarith+
qed

lemma deviation_not_tiny:
  assumes "f64_ok (Fin var)"
  shows "\<exists>r. (if 0 < Fin var then f64_sqrt (Fin var) else 1) = Fin r \<and> pow2 (- 600) \<le> r"
proof (cases "0 < var")
  case True
  then show ?thesis using f64_sqrt_lower [of var] assms by (simp add: zero_f64_def)
next
  case False
  have "pow2 (- 600) \<le> pow2 0" unfolding pow2_le_iff by simp
  then show ?thesis using False by (simp add: zero_f64_def one_f64_def)
qed

lemma z_score_finite:
  assumes "1 \<le> n" "n \<le> 200" "in_range 0 (of_int (int n) * pow2 53) s"
    "in_range 0 (of_int (int n) * pow2 106) sq" "in_range 0 (pow2 53) c"
  shows "in_range (- pow2 700) (pow2 700) (z_score n s sq c)"
proof -
  obtain a b d where v: "s = Fin a" "0 \<le> a" "a \<le> of_int (int n) * pow2 53"
      "sq = Fin b" "0 \<le> b" "b \<le> of_int (int n) * pow2 106" "c = Fin d" "0 \<le> d" "d \<le> pow2 53"
    using in_rangeE [OF assms(3)] in_rangeE [OF assms(4)] in_rangeE [OF assms(5)] by blast
  have n: "(0 :: rat) < of_nat n" using assms(1) by simp
  have fn: "f64_of_int (int n) = Fin (of_nat n)" using assms(2) f64_of_int_exact [of "int n"] by simp
  have h: "in_range 0 (pow2 53) (round64 (a / of_nat n))" "in_range 0 (pow2 106) (round64 (b / of_nat n))"
    using v n by (intro in_range_round64 is_double_pow2 is_double_0;
        simp add: pos_divide_le_eq mult.commute del: pow2_nat)+
  then obtain m k where m: "f64_div s (f64_of_int (int n)) = Fin m" "0 \<le> m" "m \<le> pow2 53"
      and k: "f64_div sq (f64_of_int (int n)) = Fin k" "0 \<le> k" "k \<le> pow2 106"
  proof -
    have "f64_div s (f64_of_int (int n)) = round64 (a / of_nat n)"
      "f64_div sq (f64_of_int (int n)) = round64 (b / of_nat n)"
      unfolding v(1,4) fn using n by simp_all
    then show ?thesis using that in_rangeE [OF h(1)] in_rangeE [OF h(2)] by auto
  qed
  have "in_range 0 (of_int 1 * pow2 106) (Fin m * Fin m)" using m by (intro square_range) simp
  then obtain p where p: "Fin m * Fin m = Fin p" "0 \<le> p" "p \<le> pow2 106"
    using in_rangeE by fastforce
  have dbl: "is_double (pow2 106)" "is_double (- pow2 106)" "is_double (pow2 53)" "is_double (- pow2 53)"
    using is_double_pow2 is_double_minus by (simp_all del: pow2_nat)
  have hv: "in_range (- pow2 106) (pow2 106) (round64 (k + - p))"
    using k p by (intro in_range_round64 dbl) linarith+
  then obtain var where var: "Fin k - Fin p = Fin var" "f64_ok (Fin var)"
    using in_rangeE [OF hv] round64_ok [of "k + - p"] that by (auto simp: minus_f64_def simp del: round64_ok)
  obtain r where r: "(if 0 < Fin var then f64_sqrt (Fin var) else 1) = Fin r" "pow2 (- 600) \<le> r"
    using deviation_not_tiny [OF var(2)] by blast
  have hu: "in_range (- pow2 53) (pow2 53) (round64 (d + - m))"
    using v m by (intro in_range_round64 dbl) linarith+
  then obtain u where u: "c - Fin m = Fin u" "- pow2 53 \<le> u" "u \<le> pow2 53"
    using in_rangeE [OF hu] v(7) that by (auto simp: minus_f64_def)
  have "0 < r" using r(2) pow2_pos [of "- 600"] by linarith
  moreover have "in_range (- pow2 700) (pow2 700) (round64 (u / r))"
    using u(2,3) r(2) by (intro quotient_range [of u 53 600]) (simp_all add: abs_le_iff del: pow2_nat)
  moreover have "z_score n s sq c = round64 (u / r)"
    unfolding z_score_def Let_def m(1) k(1) p(1) var(1) u(1) r(1)
    using \<open>0 < r\<close> by simp
  ultimately show ?thesis by simp
qed

definition score_ok :: "f64 \<Rightarrow> bool" where
  "score_ok z \<longleftrightarrow> in_range (- pow2 700) (pow2 700) z"

definition cancel_inv :: "cancel_factor \<Rightarrow> bool" where
  "cancel_inv c \<longleftrightarrow> ring_wf kMaxCancelBuckets (cf_ring c) \<and> list_all bucket_ok (rg_buckets (cf_ring c)) \<and>
     list_all score_ok (cf_recent_z_bid c) \<and> list_all score_ok (cf_recent_z_ask c) \<and>
     length (cf_recent_z_bid c) = length (cf_recent_ts c) \<and>
     length (cf_recent_z_ask c) = length (cf_recent_ts c)"

lemma expire_recent_drop:
  "length zb = length ts \<Longrightarrow> length za = length ts \<Longrightarrow>
     expire_recent q (ts, zb, za) =
       (let k = length (takeWhile (\<lambda>t. t < q) ts) in (drop k ts, drop k zb, drop k za))"
proof (induction ts arbitrary: zb za)
  case (Cons t ts)
  obtain b bs a as where "zb = b # bs" "za = a # as" using Cons.prems by (cases zb; cases za) auto
  then show ?case using Cons by (simp add: Let_def)
qed simp

lemma count_delete_inv:
  "cancel_inv c \<Longrightarrow> cancel_inv (count_delete ev c)"
proof -
  assume c: "cancel_inv c"
  then have "bucket_ok (ring_newest (cf_ring c))"
    using ring_newest_in_buckets by (auto simp: cancel_inv_def list_all_iff)
  then show ?thesis using c
    by (auto simp: count_delete_def cancel_inv_def Let_def bucket_ok_def
        intro!: ring_set_newest_wf ring_set_newest_all add_one_range simp del: pow2_nat
        split: md_entry_type.splits)
qed

lemma advance_inv: "cancel_inv c \<Longrightarrow> cancel_inv (cancel_advance_time t c)"
  by (simp add: cancel_inv_def cancel_advance_time_def wf_intros)

text \<open>The sums over the window.\<close>

definition window_of :: "cancel_factor \<Rightarrow> cancel_bucket list" where
  "window_of c = takeWhile (\<lambda>b. \<not> cb_ts_ns b < window_cutoff (cb_ts_ns (ring_newest (cf_ring c))) kWindowNs)
     (ring_list kMaxCancelBuckets (cf_ring c))"

definition sums_of :: "cancel_bucket list \<Rightarrow> window_sums" where
  "sums_of bs = foldl add_sample
     \<lparr> ws_sum_bid = 0, ws_sum_ask = 0, ws_sq_bid = 0, ws_sq_ask = 0, ws_n = 0 \<rparr> bs"

lemma sums_of_n: "ws_n (sums_of bs) = length bs"
proof -
  have "ws_n (foldl add_sample w bs) = ws_n w + length bs" for w
    by (induction bs arbitrary: w) (simp_all add: add_sample_def)
  then show ?thesis by (simp add: sums_of_def)
qed

lemma recompute_cases:
  "recompute_zscores c =
     (if rg_count (cf_ring c) < 2 \<or> length (window_of c) < 2 then c
      else
        (let w = sums_of (window_of c); b = ring_newest (cf_ring c);
             z_bid = z_score (length (window_of c)) (ws_sum_bid w) (ws_sq_bid w) (cb_bid_cancels b);
             z_ask = z_score (length (window_of c)) (ws_sum_ask w) (ws_sq_ask w) (cb_ask_cancels b);
             (ts, zb, za) = expire_recent (window_cutoff (cb_ts_ns b) kQuantileNs)
               (cf_recent_ts c @ [cb_ts_ns b], cf_recent_z_bid c @ [z_bid], cf_recent_z_ask c @ [z_ask])
         in c\<lparr>cf_z_bid := z_bid, cf_z_ask := z_ask, cf_recent_z_bid := zb,
              cf_recent_z_ask := za, cf_recent_ts := ts\<rparr>))"
proof -
  have w: "ring_scan kMaxCancelBuckets
      (\<lambda>b. cb_ts_ns b < window_cutoff (cb_ts_ns (ring_newest (cf_ring c))) kWindowNs) add_sample (cf_ring c) 0
      \<lparr> ws_sum_bid = 0, ws_sum_ask = 0, ws_sq_bid = 0, ws_sq_ask = 0, ws_n = 0 \<rparr> = sums_of (window_of c)"
    by (simp add: ring_scan_list window_of_def sums_of_def)
  show ?thesis
    unfolding recompute_zscores_def Let_def w sums_of_n by simp
qed

lemma window_sums_ok:
  assumes "cancel_inv c"
  shows "sums_ok (sums_of (window_of c)) \<and> length (window_of c) \<le> 200"
proof -
  have wf: "ring_wf kMaxCancelBuckets (cf_ring c)" using assms by (simp add: cancel_inv_def)
  have "set (window_of c) \<subseteq> set (rg_buckets (cf_ring c))"
    using ring_list_in_buckets [OF wf] set_takeWhileD by (fastforce simp: window_of_def)
  then have all: "list_all bucket_ok (window_of c)"
    using assms by (auto simp: cancel_inv_def list_all_iff)
  have "length (window_of c) \<le> rg_count (cf_ring c)"
    using length_takeWhile_le by (metis length_ring_list window_of_def)
  then have len: "length (window_of c) \<le> 200" using wf by (simp add: ring_wf_def kMaxCancelBuckets_def)
  have "sums_ok \<lparr> ws_sum_bid = 0, ws_sum_ask = 0, ws_sq_bid = 0, ws_sq_ask = 0, ws_n = 0 \<rparr>"
    by (simp add: sums_ok_def zero_f64_def)
  then show ?thesis using foldl_sample_ok [OF _ all] len by (simp add: sums_of_def)
qed

lemma recompute_inv: "cancel_inv c \<Longrightarrow> cancel_inv (recompute_zscores c)"
proof (cases "rg_count (cf_ring c) < 2 \<or> length (window_of c) < 2")
  case True
  assume "cancel_inv c"
  then show ?thesis using True by (simp add: recompute_cases)
next
  case False
  assume inv: "cancel_inv c"
  let ?w = "sums_of (window_of c)" and ?b = "ring_newest (cf_ring c)" and ?n = "length (window_of c)"
  let ?zb = "z_score ?n (ws_sum_bid ?w) (ws_sq_bid ?w) (cb_bid_cancels ?b)"
  let ?za = "z_score ?n (ws_sum_ask ?w) (ws_sq_ask ?w) (cb_ask_cancels ?b)"
  have "bucket_ok ?b" using inv ring_newest_in_buckets by (auto simp: cancel_inv_def list_all_iff)
  then have z: "score_ok ?zb" "score_ok ?za"
    using window_sums_ok [OF inv] False unfolding score_ok_def
    by (auto simp: bucket_ok_def sums_ok_def sums_of_n intro!: z_score_finite simp del: pow2_nat)
  have len: "length (cf_recent_z_bid c @ [?zb]) = length (cf_recent_ts c @ [cb_ts_ns ?b])"
     "length (cf_recent_z_ask c @ [?za]) = length (cf_recent_ts c @ [cb_ts_ns ?b])"
    using inv by (simp_all add: cancel_inv_def)
  have "list_all score_ok (drop k xs)" if "list_all score_ok xs" for k xs
    using that set_drop_subset by (fastforce simp: list_all_iff)
  then show ?thesis
    using inv z False
    by (simp add: recompute_cases expire_recent_drop [OF len] Let_def cancel_inv_def del: drop_append)
qed

lemma cancel_feed_inv: "cancel_inv (cancel_feed cancel_new evs)"
proof (induction evs rule: rev_induct)
  case Nil
  have "list_all bucket_ok (rg_buckets cancel_ring_empty)"
    by (simp add: cancel_ring_empty_def list_all_iff)
  then show ?case by (simp add: cancel_feed_def cancel_new_def cancel_inv_def)
next
  case (snoc ev evs)
  then show ?case
    by (simp add: cancel_feed_snoc cancel_on_event_def advance_inv count_delete_inv recompute_inv)
qed

lemma std_max_ok: "score_ok a \<Longrightarrow> score_ok b \<Longrightarrow> score_ok (std_max a b)"
  by (simp add: std_max_def)

lemma combined_scores_finite:
  assumes "cancel_inv c" and "z \<in> set (combined_scores c)"
  shows "\<exists>r. z = Fin r"
proof -
  obtain i where i: "i < length (cf_recent_z_bid c)" "z = std_max (cf_recent_z_bid c ! i) (cf_recent_z_ask c ! i)"
    using assms(2) by (auto simp: combined_scores_def)
  have "score_ok z" using assms(1) i(1) unfolding i(2) cancel_inv_def
    by (intro std_max_ok) (auto simp: list_all_length)
  then show ?thesis using in_rangeE unfolding score_ok_def by blast
qed

section \<open>The index of the percentile\<close>

text \<open>
  The constant 0.95 is rounded down, so the product is a little below \<open>0.95 (n - 1)\<close>; the rounding of the
  product makes up for that where it matters.
\<close>

lemma quantile_level_value: "quantile_level = Fin (19 / 20 - 2 / 5 / 2 ^ 53)"
proof -
  have c: "(95 / 100 :: rat) = 19 / 20" by simp
  have e: "expo (19 / 20) = - 1" by (rule expo_unique) (simp_all add: pow2_def)
  have u: "ulp_exp (19 / 20) = - 53" by (simp add: ulp_exp_def e)
  have "rne (19 / 20 * 2 ^ 53) = 8556839292003942"
  proof -
    have "\<lfloor>19 / 20 * 2 ^ 53 :: rat\<rfloor> = 8556839292003942" by (simp add: floor_eq_iff)
    then show ?thesis by (simp add: rne_def)
  qed
  moreover have p: "pow2 (- 53) = 1 / 2 ^ 53" by (simp add: pow2_def)
  ultimately have "rnd (19 / 20) = of_int 8556839292003942 * (1 / 2 ^ 53)" using rnd_def [of "19 / 20"] unfolding u p by simp
  then have r: "rnd (19 / 20) = 19 / 20 - 2 / 5 / 2 ^ 53" by simp
  have "round64 (19 / 20) = Fin (rnd (19 / 20))" by (rule round64_small) (simp add: r)
  then show ?thesis by (simp add: quantile_level_def c r)
qed

text \<open>An exact multiple is not lost to the error of the constant: half a unit in the last place is more.\<close>

lemma rnd_exact_multiple:
  fixes m k :: int
  assumes "19 * m = 20 * k" "0 < m" "m \<le> 2 ^ 48"
  shows "rnd ((19 / 20 - 2 / 5 / 2 ^ 53) * of_int m) = of_int k"
proof -
  let ?m = "of_int m :: rat" and ?x = "(19 / 20 - 2 / 5 / 2 ^ 53) * of_int m :: rat"
  have m: "20 \<le> ?m" "?m \<le> 2 ^ 48"
  proof -
    have "20 \<le> m" using assms by presburger
    then show "20 \<le> ?m" by linarith
    have "?m \<le> of_int (2 ^ 48)" unfolding of_int_le_iff by (rule assms(3))
    then show "?m \<le> 2 ^ 48" by simp
  qed
  have x: "9 / 10 * ?m \<le> ?x" "?x \<le> ?m" using m by (simp_all add: algebra_simps)
  have k: "of_int k = 19 / 20 * ?m"
  proof -
    have "(of_int (19 * m) :: rat) = of_int (20 * k)" by (simp only: assms(1))
    then show ?thesis by simp
  qed
  define e where "e = expo ?x"
  have xpos: "0 < ?x" using x m by linarith
  have b: "pow2 e \<le> ?x" "?x < pow2 (e + 1)" using expo_bounds [OF xpos] by (simp_all add: e_def)
  have "pow2 0 \<le> ?x" using x m by (simp add: pow2_def)
  then have e0: "0 \<le> e" unfolding e_def by (rule expo_ge)
  have "?x < pow2 (48 + 1)" using x m by (simp add: pow2_def)
  then have e48: "e \<le> 48" unfolding e_def by (rule expo_le [OF xpos])
  have u: "ulp_exp ?x = e - 52" using xpos e0 by (simp add: ulp_exp_def e_def)
  define j where "j = nat (52 - e)"
  have j: "int j = 52 - e" using e48 by (simp add: j_def)
  have p: "pow2 (e - 52) = 1 / 2 ^ j" "pow2 e * 2 ^ j = 2 ^ 52"
  proof -
    have j2: "pow2 (int j) = 2 ^ j" by (simp add: pow2_of_nat)
    have "pow2 (e - 52) * pow2 (int j) = 1" by (simp add: j flip: pow2_add)
    then show "pow2 (e - 52) = 1 / 2 ^ j" by (simp add: j2 field_simps)
    have "pow2 e * pow2 (int j) = pow2 52" by (simp add: j flip: pow2_add)
    then show "pow2 e * 2 ^ j = 2 ^ 52" unfolding j2 by simp
  qed
  have "\<bar>?x / pow2 (e - 52) - of_int (k * 2 ^ j)\<bar> < 1 / 2"
  proof -
    have "?x / pow2 (e - 52) - of_int (k * 2 ^ j) = - (2 / 5 * ?m / 2 ^ 53 * 2 ^ j)"
      unfolding p k of_int_mult by (simp add: algebra_simps)
    moreover have "2 / 5 * ?m < pow2 e" using b(2) [unfolded pow2_Suc] x(1) xpos m(1) by linarith
    then have "2 / 5 * ?m * 2 ^ j < pow2 e * 2 ^ j" by simp
    ultimately show ?thesis unfolding p(2) using m by simp
  qed
  then have "rne (?x / pow2 (e - 52)) = k * 2 ^ j"
    using rne_error [of "?x / pow2 (e - 52)"] by linarith
  then show ?thesis using xpos unfolding rnd_def u p by simp
qed

lemma quantile_index_eq:
  assumes "0 < n" "n \<le> 2 ^ 48"
  shows "quantile_index n = 19 * (n - 1) div 20"
proof -
  let ?m = "int n - 1" and ?x = "(19 / 20 - 2 / 5 / 2 ^ 53) * of_int (int n - 1) :: rat"
  define k where "k = 19 * ?m div 20"
  have m: "0 \<le> ?m" "?m \<le> 2 ^ 48" using assms by simp_all
  have kb: "0 \<le> k" "20 * k \<le> 19 * ?m" "19 * ?m \<le> 20 * k + 19" "k < 2 ^ 48"
  proof -
    have d: "20 * k + 19 * ?m mod 20 = 19 * ?m" unfolding k_def by (rule mult_div_mod_eq)
    moreover have b: "0 \<le> 19 * ?m mod 20" "19 * ?m mod 20 < 20" by simp_all
    ultimately show le: "20 * k \<le> 19 * ?m" "19 * ?m \<le> 20 * k + 19" by linarith+
    show "0 \<le> k" unfolding k_def using m(1) by (simp add: pos_imp_zdiv_nonneg_iff)
    show "k < 2 ^ 48" using le(1) assms(2) m(1) by simp
  qed
  have mr: "0 \<le> (of_int ?m :: rat)" "(of_int ?m :: rat) \<le> 2 ^ 48"
  proof -
    have "(of_int 0 :: rat) \<le> of_int ?m" "(of_int ?m :: rat) \<le> of_int (2 ^ 48)" unfolding of_int_le_iff by (rule m)+
    then show "0 \<le> (of_int ?m :: rat)" "(of_int ?m :: rat) \<le> 2 ^ 48" by simp_all
  qed
  have "(of_int (19 * ?m) :: rat) \<le> of_int (20 * k + 19)" unfolding of_int_le_iff by (rule kb(3))
  then have up: "?x \<le> of_int k + 31 / 32" using mr by (simp add: algebra_simps)
  have "is_f53 (of_int (32 * k + 31) * pow2 (- 5))" by (rule is_f53_dyadic) (use kb in simp_all)
  moreover have "of_int (32 * k + 31) * pow2 (- 5) = of_int k + 31 / 32" by (simp add: pow2_def)
  ultimately have "is_f53 (of_int k + 31 / 32)" by simp
  then have hi: "rnd ?x \<le> of_int k + 31 / 32" using rnd_mono [OF up] by simp
  have lo: "of_int k \<le> rnd ?x"
  proof (cases "19 * ?m = 20 * k")
    case True
    then show ?thesis using rnd_exact_multiple [OF True] m kb by (cases "?m = 0") simp_all
  next
    case False
    then have "20 * k + 1 \<le> 19 * ?m" using kb by simp
    then have "(of_int (20 * k + 1) :: rat) \<le> of_int (19 * ?m)" unfolding of_int_le_iff .
    then have "of_int k \<le> ?x" using mr by (simp add: algebra_simps)
    moreover have "is_f53 (of_int k)" by (rule is_f53_int) (use kb in simp)
    ultimately show ?thesis using rnd_mono [of "of_int k" ?x] by simp
  qed
  have "rnd ?x \<le> 2 ^ 53"
  proof -
    have "(of_int k :: rat) \<le> of_int (2 ^ 48)" unfolding of_int_le_iff using kb(4) by simp
    then show ?thesis using hi by simp
  qed
  then have "round64 ?x = Fin (rnd ?x)" using lo kb(1) by (intro round64_small) simp
  moreover have "f64_of_int ?m = Fin (of_int ?m)" by (rule f64_of_int_exact) (use m in simp)
  ultimately have "quantile_level * f64_of_int ?m = Fin (rnd ?x)"
    unfolding quantile_level_value by (simp only: times_f64.simps)
  moreover have "\<lfloor>rnd ?x\<rfloor> = k" using hi lo by (simp add: floor_eq_iff)
  ultimately have "quantile_index n = nat k"
    using lo kb(1,4) unfolding quantile_index_def by (simp add: rat_trunc_def Let_def)
  also have "\<dots> = 19 * (n - 1) div 20"
  proof -
    have "?m = int (n - 1)" using assms(1) by simp
    then have "k = int (19 * (n - 1) div 20)" unfolding k_def by (simp only: zdiv_int of_nat_mult of_nat_numeral)
    then show ?thesis by simp
  qed
  finally show ?thesis .
qed
text \<open>
  C30: After any feed that recorded between 1 and \<open>2 ^ 48\<close> scores, every recorded maximum is a
  finite double, and the dynamic threshold is the 95th percentile of them: the element of index
  \<open>0.95 (n - 1)\<close>, truncated, of the sorted vector, in which it lies.  It is one of the
  maxima, more than that many of them are at most it, and all the others at least it.
\<close>

theorem threshold_is_percentile:
  assumes "c = cancel_feed cancel_new evs" and "cf_recent_z_bid c \<noteq> []"
    and "length (cf_recent_z_bid c) \<le> 2 ^ 48"
  shows "let n = length (cf_recent_z_bid c); k = 19 * (n - 1) div 20; thr = dynamic_threshold c
    in k < n \<and> quantile_index n = k \<and> (\<forall>z \<in> set (combined_scores c). \<exists>r. z = Fin r) \<and>
       thr \<in> set (combined_scores c) \<and>
       k + 1 \<le> length (filter (\<lambda>z. z \<le> thr) (combined_scores c)) \<and>
       n - k \<le> length (filter (\<lambda>z. thr \<le> z) (combined_scores c))"
proof -
  have fin: "\<forall>z \<in> set (combined_scores c). \<exists>r. z = Fin r"
    using combined_scores_finite cancel_feed_inv [of evs] assms(1) by blast
  moreover from this have "NaN \<notin> set (combined_scores c)" by auto
  ultimately show ?thesis
    using percentile_of_scores [OF assms(2)] assms(2,3) quantile_index_eq [of "length (cf_recent_z_bid c)"]
    by (simp add: Let_def)
qed

section \<open>The last thirty seconds\<close>

definition recent_inv :: "cancel_factor \<Rightarrow> bool" where
  "recent_inv c \<longleftrightarrow> cancel_inv c \<and>
     (0 < rg_count (cf_ring c) \<longrightarrow> unat (cb_ts_ns (ring_newest (cf_ring c))) + unat kBucketNs < 2 ^ 64) \<and>
     (cf_recent_ts c \<noteq> [] \<longrightarrow> 0 < rg_count (cf_ring c)) \<and> sorted (cf_recent_ts c) \<and>
     list_all (\<lambda>t. t \<le> cb_ts_ns (ring_newest (cf_ring c)) \<and>
        unat (last (cf_recent_ts c)) \<le> unat t + unat kQuantileNs) (cf_recent_ts c)"

lemma count_delete_keeps:
  "rg_count (cf_ring (count_delete ev c)) = rg_count (cf_ring c)"
  "cf_recent_ts (count_delete ev c) = cf_recent_ts c"
  "cf_recent_z_bid (count_delete ev c) = cf_recent_z_bid c"
  "cf_recent_z_ask (count_delete ev c) = cf_recent_z_ask c"
  by (simp_all add: count_delete_def Let_def split: md_entry_type.splits)

lemma count_delete_newest:
  "ring_wf kMaxCancelBuckets (cf_ring c) \<Longrightarrow>
     cb_ts_ns (ring_newest (cf_ring (count_delete ev c))) = cb_ts_ns (ring_newest (cf_ring c))"
  by (simp add: count_delete_def Let_def ring_newest_def ring_set_newest_def ring_wf_def
      split: md_entry_type.splits)

lemma count_delete_recent: "recent_inv c \<Longrightarrow> recent_inv (count_delete ev c)"
proof -
  assume r: "recent_inv c"
  then have "ring_wf kMaxCancelBuckets (cf_ring c)" by (simp add: recent_inv_def cancel_inv_def)
  then show ?thesis using r
    by (simp add: recent_inv_def count_delete_inv count_delete_keeps count_delete_newest)
qed

lemma ring_start_newest: "0 < cap \<Longrightarrow> ring_wf cap r \<Longrightarrow> ring_newest (ring_start b r) = b"
  by (simp add: ring_newest_def ring_start_def ring_wf_def)

lemma advance_recent:
  assumes "recent_inv c" "unat t + unat kBucketNs < 2 ^ 64"
  shows "recent_inv (cancel_advance_time t c)"
proof (cases "rg_count (cf_ring c) = 0")
  case True
  have "ring_wf kMaxCancelBuckets (cf_ring c)" using assms(1) by (simp add: recent_inv_def cancel_inv_def)
  note start = ring_start_newest [OF kMaxCancelBuckets_pos this, of "cancel_blank t"]
  show ?thesis using True assms advance_inv [of c t]
    by (simp add: recent_inv_def cancel_advance_time_def ring_advance_def start) (simp add: cancel_blank_def)
next
  case False
  let ?r = "ring_advance kMaxCancelBuckets cancel_blank cb_ts_ns kBucketNs kMaxCancelBuckets t (cf_ring c)"
  have wf: "ring_wf kMaxCancelBuckets (cf_ring c)" using assms(1) by (simp add: recent_inv_def cancel_inv_def)
  have n: "cb_ts_ns (ring_newest (cf_ring c)) \<le> cb_ts_ns (ring_newest ?r) \<and>
      cb_ts_ns (ring_newest ?r) \<le> max (cb_ts_ns (ring_newest (cf_ring c))) t"
    by (rule ring_advance_newest [OF kMaxCancelBuckets_pos kMaxCancelBuckets_pos _ wf])
      (use assms(1) False in \<open>simp_all add: recent_inv_def kBucketNs_def cancel_blank_def\<close>)
  have "unat (cb_ts_ns (ring_newest ?r)) + unat kBucketNs < 2 ^ 64"
    using n assms False by (auto simp: recent_inv_def max_def word_le_nat_alt split: if_splits)
  then show ?thesis
    using assms(1) n False advance_inv [of c t] ring_advance_count [OF kMaxCancelBuckets_pos wf]
    by (auto simp: recent_inv_def cancel_advance_time_def list_all_iff intro: order.trans)
qed

lemma expire_sorted:
  "sorted ts \<Longrightarrow> list_all (\<lambda>t. q \<le> t) (drop (length (takeWhile (\<lambda>t. t < q) ts)) ts)"
proof (induction ts)
  case (Cons t ts)
  then show ?case by (auto simp: list_all_iff not_less intro: order.trans)
qed simp

lemma recompute_recent:
  assumes "recent_inv c"
  shows "recent_inv (recompute_zscores c)"
proof (cases "rg_count (cf_ring c) < 2 \<or> length (window_of c) < 2")
  case True
  then show ?thesis using assms by (simp add: recompute_cases)
next
  case False
  let ?now = "cb_ts_ns (ring_newest (cf_ring c))"
  let ?ts = "cf_recent_ts c @ [?now]" and ?q = "window_cutoff ?now kQuantileNs"
  let ?k = "length (takeWhile (\<lambda>t. t < ?q) ?ts)"
  have inv: "cancel_inv c" using assms by (simp add: recent_inv_def)
  have "cf_recent_ts (recompute_zscores c) = drop ?k ?ts"
    using False inv by (simp add: recompute_cases expire_recent_drop cancel_inv_def Let_def del: drop_append)
  moreover have srt: "sorted ?ts"
    using assms by (simp add: recent_inv_def sorted_append list_all_iff)
  moreover have "last (drop ?k ?ts) = ?now" if "drop ?k ?ts \<noteq> []"
    using that by (metis last_drop last_snoc drop_eq_Nil not_le)
  moreover have "t \<le> ?now" if "t \<in> set (drop ?k ?ts)" for t
    using that assms by (auto dest!: in_set_dropD simp: recent_inv_def list_all_iff)
  moreover have "unat ?now \<le> unat t + unat kQuantileNs" if "t \<in> set (drop ?k ?ts)" for t
  proof -
    have "?q \<le> t" using expire_sorted [OF srt, of ?q] that by (simp only: list_all_iff)
    then show ?thesis by (auto simp: window_cutoff_def word_le_nat_alt unat_sub_if' split: if_splits)
  qed
  moreover have "sorted (drop ?k ?ts)" using srt by (rule sorted_wrt_drop)
  moreover have "0 < rg_count (cf_ring c)" using False by linarith
  ultimately have "list_all (\<lambda>t. t \<le> ?now \<and> unat (last (cf_recent_ts (recompute_zscores c))) \<le> unat t + unat kQuantileNs)
      (cf_recent_ts (recompute_zscores c))" "sorted (cf_recent_ts (recompute_zscores c))" "0 < rg_count (cf_ring c)"
    unfolding list_all_iff by (metis empty_iff list.set(1))+
  then show ?thesis using assms recompute_inv [OF inv] by (simp add: recent_inv_def)
qed

lemma cancel_feed_recent:
  "list_all (\<lambda>ev. unat (ev_timestamp_ns ev) + unat kBucketNs < 2 ^ 64) evs \<Longrightarrow>
     recent_inv (cancel_feed cancel_new evs)"
proof (induction evs rule: rev_induct)
  case Nil
  then show ?case using cancel_feed_inv [of "[]"] by (simp add: recent_inv_def cancel_feed_def cancel_new_def)
next
  case (snoc ev evs)
  then show ?case
    by (simp add: cancel_feed_snoc cancel_on_event_def advance_recent count_delete_recent recompute_recent)
qed

text \<open>
  After any feed, in any order of time stamps clear of the wrap-around, the three queues
  have the same length, their times ascend, and none is more than 30 seconds older than the
  last: the adaptive threshold only sees the last 30 seconds.
\<close>

theorem recent_scores_within_30s:
  assumes "list_all (\<lambda>ev. unat (ev_timestamp_ns ev) + unat kBucketNs < 2 ^ 64) evs"
    and "c = cancel_feed cancel_new evs"
  shows "length (cf_recent_z_bid c) = length (cf_recent_ts c) \<and>
    length (cf_recent_z_ask c) = length (cf_recent_ts c) \<and> sorted (cf_recent_ts c) \<and>
    list_all (\<lambda>t. unat (last (cf_recent_ts c)) \<le> unat t + 30000000000) (cf_recent_ts c)"
  using cancel_feed_recent [OF assms(1)] assms(2)
  by (auto simp: recent_inv_def cancel_inv_def kQuantileNs_def list_all_iff)

section \<open>The scores of a paced feed\<close>

definition deletes :: "md_entry_type \<Rightarrow> lob_event \<Rightarrow> int" where
  "deletes sd ev = (if ev_action ev = Delete \<and> ev_side ev = sd then 1 else 0)"

text \<open>Deletions of a side in bucket \<open>j\<close> of a feed.\<close>

definition deletes_in :: "u64 \<Rightarrow> md_entry_type \<Rightarrow> lob_event list \<Rightarrow> nat \<Rightarrow> int" where
  "deletes_in t0 sd evs = bucket_total t0 kBucketNs ev_timestamp_ns (deletes sd) evs"

definition cancel_hist_bucket :: "u64 \<Rightarrow> lob_event list \<Rightarrow> nat \<Rightarrow> cancel_bucket" where
  "cancel_hist_bucket t0 evs j = \<lparr> cb_ts_ns = grid_time t0 kBucketNs j,
     cb_bid_cancels = Fin (of_int (deletes_in t0 Bid evs j)),
     cb_ask_cancels = Fin (of_int (deletes_in t0 Offer evs j)) \<rparr>"

text \<open>The bucket of the last event, and the counts of the window, newest first.\<close>

definition last_bucket :: "lob_event list \<Rightarrow> nat" where
  "last_bucket evs = grid_index (ev_timestamp_ns (hd evs)) kBucketNs (ev_timestamp_ns (last evs))"

definition window_counts :: "md_entry_type \<Rightarrow> lob_event list \<Rightarrow> int list" where
  "window_counts sd evs = map (\<lambda>i. deletes_in (ev_timestamp_ns (hd evs)) sd evs (last_bucket evs - i))
     [0..<min (Suc (last_bucket evs)) 101]"

text \<open>Reference: the z-score of the newest of a list of counts against all of them.\<close>

definition z_of_counts :: "int list \<Rightarrow> f64" where
  "z_of_counts cs = z_score (length cs) (f64_of_int (sum_list cs))
     (f64_of_int (sum_list (map (\<lambda>c. c * c) cs))) (f64_of_int (hd cs))"

definition paced_feed :: "lob_event list \<Rightarrow> bool" where
  "paced_feed evs \<longleftrightarrow> paced (ev_timestamp_ns (hd evs)) kBucketNs kMaxCancelBuckets (map ev_timestamp_ns evs)"

lemma deletes_nonneg [simp]: "0 \<le> deletes sd ev"
  by (simp add: deletes_def)

lemma sum_deletes_le: "sum_list (map (deletes sd) evs) \<le> int (length evs)"
  by (induction evs) (auto simp: deletes_def)

lemma deletes_in_bounds: "0 \<le> deletes_in t0 sd evs j \<and> deletes_in t0 sd evs j \<le> int (length evs)"
  using bucket_total_bounds [of "deletes sd" t0 kBucketNs ev_timestamp_ns evs j] sum_deletes_le [of sd evs]
  by (auto simp: deletes_in_def)

lemma deletes_in_snoc:
  "deletes_in t0 sd (evs @ [ev]) j
     = deletes_in t0 sd evs j + (if grid_index t0 kBucketNs (ev_timestamp_ns ev) = j then deletes sd ev else 0)"
  by (simp add: deletes_in_def bucket_total_snoc)

lemma exact_count: "0 \<le> m \<Longrightarrow> m < 2 ^ 53 \<Longrightarrow> Fin (of_int m) + 1 = Fin (of_int (m + 1))"
  using f64_add_int [of m 1] by (simp add: one_f64_def)

lemma count_delete_grid:
  assumes "on_grid kMaxCancelBuckets (cancel_hist_bucket t0 evs) k (cf_ring c)"
    "grid_index t0 kBucketNs (ev_timestamp_ns ev) = k" "int (length evs) < 2 ^ 53"
  shows "on_grid kMaxCancelBuckets (cancel_hist_bucket t0 (evs @ [ev])) k (cf_ring (count_delete ev c))"
proof -
  let ?f = "cancel_hist_bucket t0 evs" and ?b = "cancel_hist_bucket t0 (evs @ [ev]) k"
  have new: "ring_newest (cf_ring c) = ?f k" by (rule on_grid_newest(1) [OF _ assms(1)]) simp
  have upd: "cancel_hist_bucket t0 (evs @ [ev]) = ?f(k := ?b)"
    using assms(2) by (auto simp: fun_eq_iff cancel_hist_bucket_def deletes_in_snoc)
  have bnd: "0 \<le> deletes_in t0 sd evs k" "deletes_in t0 sd evs k < 2 ^ 53" for sd
    using deletes_in_bounds [of t0 sd evs k] assms(3) by simp_all
  have set: "on_grid kMaxCancelBuckets (cancel_hist_bucket t0 (evs @ [ev])) k (ring_set_newest ?b (cf_ring c))"
    by (subst upd) (rule on_grid_set [OF kMaxCancelBuckets_pos assms(1)])
  show ?thesis
  proof (cases "ev_action ev = Delete \<and> ev_side ev \<noteq> Trade")
    case True
    then have "cf_ring (count_delete ev c) = ring_set_newest ?b (cf_ring c)"
      using exact_count [OF bnd] assms(2) new
      by (cases "ev_side ev")
        (auto simp: count_delete_def cancel_hist_bucket_def deletes_in_snoc deletes_def Let_def)
    then show ?thesis using set by simp
  next
    case False
    then have "cancel_hist_bucket t0 (evs @ [ev]) = ?f"
      by (auto simp: fun_eq_iff cancel_hist_bucket_def deletes_in_snoc deletes_def)
    moreover have "count_delete ev c = c" using False by (auto simp: count_delete_def split: md_entry_type.splits)
    ultimately show ?thesis using assms(1) by simp
  qed
qed

lemma cancel_feed_grid:
  "evs \<noteq> [] \<Longrightarrow> t0 = ev_timestamp_ns (hd evs) \<Longrightarrow> paced_feed evs \<Longrightarrow> int (length evs) \<le> 2 ^ 53 \<Longrightarrow>
     on_grid kMaxCancelBuckets (cancel_hist_bucket t0 evs) (last_bucket evs) (cf_ring (cancel_feed cancel_new evs))"
proof (induction evs rule: rev_induct)
  case (snoc ev evs)
  let ?t = "ev_timestamp_ns ev" and ?c = "cancel_feed cancel_new evs"
  have adv: "on_grid kMaxCancelBuckets (cancel_hist_bucket t0 evs) (grid_index t0 kBucketNs ?t)
      (cf_ring (cancel_advance_time ?t ?c))"
  proof (cases "evs = []")
    case True
    have "cancel_hist_bucket t0 [] 0 = cancel_blank ?t"
      using snoc.prems(2) True by (simp add: cancel_hist_bucket_def cancel_blank_def deletes_in_def
          bucket_total_def grid_time_def zero_f64_def)
    then show ?thesis
      using on_grid_start [OF kMaxCancelBuckets_pos cancel_ring_empty_wf(1), of "cancel_hist_bucket t0 []"]
        True snoc.prems(2)
      by (simp add: cancel_feed_def cancel_new_def cancel_advance_time_def ring_advance_def grid_index_def)
  next
    case False
    have hd: "hd (evs @ [ev]) = hd evs" using False by simp
    have p: "paced t0 kBucketNs kMaxCancelBuckets (map ev_timestamp_ns (evs @ [ev]))"
      using snoc.prems(2,3) by (simp only: paced_feed_def)
    then have "paced_feed evs" using False snoc.prems(2) by (simp add: paced_feed_def paced_snoc)
    then have IH: "on_grid kMaxCancelBuckets (cancel_hist_bucket t0 evs) (last_bucket evs) (cf_ring ?c)"
      using snoc.IH False snoc.prems by simp
    have "on_grid kMaxCancelBuckets (cancel_hist_bucket t0 evs) (grid_index t0 kBucketNs ?t)
        (ring_advance kMaxCancelBuckets cancel_blank cb_ts_ns kBucketNs kMaxCancelBuckets ?t (cf_ring ?c))"
    proof (rule advance_history [OF kMaxCancelBuckets_pos _ False _ _ _ p])
      fix j assume "\<forall>y \<in> set evs. grid_index t0 kBucketNs (ev_timestamp_ns y) < j"
      then show "cancel_hist_bucket t0 evs j = cancel_blank (grid_time t0 kBucketNs j)"
        by (simp add: cancel_hist_bucket_def cancel_blank_def zero_f64_def deletes_in_def bucket_total_late)
    qed (use IH False snoc.prems(2) in \<open>simp_all add: last_bucket_def cancel_hist_bucket_def kBucketNs_def\<close>)
    then show ?thesis by (simp add: cancel_advance_time_def)
  qed
  have "last_bucket (evs @ [ev]) = grid_index t0 kBucketNs ?t" using snoc.prems(2) by (simp add: last_bucket_def)
  then show ?case
    using count_delete_grid [OF adv refl] snoc.prems(4) by (simp add: cancel_feed_snoc cancel_on_event_def)
qed simp

text \<open>Sums and sums of squares of the window's counts are exact.\<close>

lemma foldl_add_sample:
  "(\<And>j. 0 \<le> p j) \<Longrightarrow> (\<And>j. 0 \<le> q j) \<Longrightarrow> 0 \<le> x \<Longrightarrow> 0 \<le> y \<Longrightarrow> 0 \<le> u \<Longrightarrow> 0 \<le> v \<Longrightarrow>
     (\<And>j. cb_bid_cancels (f j) = Fin (of_int (p j))) \<Longrightarrow> (\<And>j. cb_ask_cancels (f j) = Fin (of_int (q j))) \<Longrightarrow>
     x + sum_list (map p js) \<le> 2 ^ 53 \<Longrightarrow> y + sum_list (map q js) \<le> 2 ^ 53 \<Longrightarrow>
     u + sum_list (map (\<lambda>j. p j * p j) js) \<le> 2 ^ 53 \<Longrightarrow> v + sum_list (map (\<lambda>j. q j * q j) js) \<le> 2 ^ 53 \<Longrightarrow>
     foldl add_sample \<lparr> ws_sum_bid = Fin (of_int x), ws_sum_ask = Fin (of_int y), ws_sq_bid = Fin (of_int u),
         ws_sq_ask = Fin (of_int v), ws_n = n \<rparr> (map f js)
       = \<lparr> ws_sum_bid = Fin (of_int (x + sum_list (map p js))), ws_sum_ask = Fin (of_int (y + sum_list (map q js))),
           ws_sq_bid = Fin (of_int (u + sum_list (map (\<lambda>j. p j * p j) js))),
           ws_sq_ask = Fin (of_int (v + sum_list (map (\<lambda>j. q j * q j) js))), ws_n = n + length js \<rparr>"
proof (induction js arbitrary: x y u v n)
  case (Cons j js)
  have n: "0 \<le> sum_list (map p js)" "0 \<le> sum_list (map q js)"
      "0 \<le> sum_list (map (\<lambda>j. p j * p j) js)" "0 \<le> sum_list (map (\<lambda>j. q j * q j) js)"
    using Cons.prems(1,2) by (auto intro!: sum_list_nonneg)
  note pos = Cons.prems(1) [of j] Cons.prems(2) [of j]
  have sq: "0 \<le> p j * p j" "0 \<le> q j * q j" by simp_all
  let ?w = "\<lambda>x y u v n. \<lparr> ws_sum_bid = Fin (of_int x), ws_sum_ask = Fin (of_int y), ws_sq_bid = Fin (of_int u),
         ws_sq_ask = Fin (of_int v), ws_n = n \<rparr>"
  have "Fin (of_int (p j)) * Fin (of_int (p j)) = Fin (of_int (p j * p j))"
    "Fin (of_int (q j)) * Fin (of_int (q j)) = Fin (of_int (q j * q j))"
    "Fin (of_int x) + Fin (of_int (p j)) = Fin (of_int (x + p j))"
    "Fin (of_int y) + Fin (of_int (q j)) = Fin (of_int (y + q j))"
    "Fin (of_int u) + Fin (of_int (p j * p j)) = Fin (of_int (u + p j * p j))"
    "Fin (of_int v) + Fin (of_int (q j * q j)) = Fin (of_int (v + q j * q j))"
    using Cons.prems(3-6,9-12) n pos sq by (intro f64_mult_int f64_add_int; simp)+
  then have "add_sample (?w x y u v n) (f j) = ?w (x + p j) (y + q j) (u + p j * p j) (v + q j * q j) (n + 1)"
    using Cons.prems(7,8) by (simp only: add_sample_def window_sums.simps)
  moreover have "foldl add_sample (?w (x + p j) (y + q j) (u + p j * p j) (v + q j * q j) (n + 1)) (map f js)
     = \<lparr> ws_sum_bid = Fin (of_int (x + p j + sum_list (map p js))), ws_sum_ask = Fin (of_int (y + q j + sum_list (map q js))),
           ws_sq_bid = Fin (of_int (u + p j * p j + sum_list (map (\<lambda>j. p j * p j) js))),
           ws_sq_ask = Fin (of_int (v + q j * q j + sum_list (map (\<lambda>j. q j * q j) js))), ws_n = n + 1 + length js \<rparr>"
    using Cons.prems pos sq by (intro Cons.IH) (simp_all only: list.map sum_list.Cons add.assoc add_nonneg_nonneg)
  ultimately show ?case by (simp only: list.map foldl_Cons sum_list.Cons add.assoc list.size plus_1_eq_Suc add_Suc_right add_Suc) simp
qed simp

lemma sum_squares_le:
  "(\<And>c. c \<in> set cs \<Longrightarrow> 0 \<le> c) \<Longrightarrow> sum_list (map (\<lambda>c. c * c) cs) \<le> sum_list cs * sum_list (cs :: int list)"
proof (induction cs)
  case (Cons c cs)
  have "0 \<le> sum_list cs" using Cons.prems by (auto intro: sum_list_nonneg)
  moreover have "0 \<le> c" using Cons.prems by simp
  ultimately have "0 \<le> c * sum_list cs" by simp
  then show ?case using Cons by (simp add: algebra_simps)
qed simp

lemma window_counts_bounds:
  assumes "paced_feed evs" "int (length evs) \<le> 2 ^ 26"
  shows "0 \<le> sum_list (window_counts sd evs) \<and> sum_list (window_counts sd evs) \<le> 2 ^ 26 \<and>
    sum_list (map (\<lambda>c. c * c) (window_counts sd evs)) \<le> 2 ^ 53"
proof -
  let ?t0 = "ev_timestamp_ns (hd evs)"
  have nonneg: "0 \<le> c" if "c \<in> set (window_counts sd evs)" for c
    using that deletes_in_bounds by (auto simp: window_counts_def)
  have "\<forall>ev \<in> set evs. grid_index ?t0 kBucketNs (ev_timestamp_ns ev) \<le> last_bucket evs"
    using paced_last [OF assms(1) [unfolded paced_feed_def]] by (auto simp: last_bucket_def intro: grid_index_mono)
  then have "sum_list (window_counts sd evs) \<le> sum_list (map (deletes sd) evs)"
    unfolding window_counts_def deletes_in_def
    by (subst sum_buckets) (simp_all add: sum_list_filter_nonneg)
  then have s: "0 \<le> sum_list (window_counts sd evs)" "sum_list (window_counts sd evs) \<le> 2 ^ 26"
    using sum_deletes_le [of sd evs] assms(2) nonneg by (auto intro: sum_list_nonneg)
  then have "sum_list (window_counts sd evs) * sum_list (window_counts sd evs) \<le> 2 ^ 26 * 2 ^ 26"
    by (intro mult_mono) simp_all
  then show ?thesis using s sum_squares_le [OF nonneg, of "window_counts sd evs"] by simp
qed

lemma feed_last_step:
  "evs \<noteq> [] \<Longrightarrow> \<exists>c. cancel_feed cancel_new evs = recompute_zscores c"
  by (cases evs rule: rev_cases) (simp_all add: cancel_feed_snoc cancel_on_event_def, blast)

lemma feed_sums:
  assumes "evs \<noteq> []" "paced_feed evs" "int (length evs) \<le> 2 ^ 26"
    "on_grid kMaxCancelBuckets (cancel_hist_bucket (ev_timestamp_ns (hd evs)) evs) (last_bucket evs) (cf_ring c)"
  shows "sums_of (window_of c) =
    \<lparr> ws_sum_bid = f64_of_int (sum_list (window_counts Bid evs)), ws_sum_ask = f64_of_int (sum_list (window_counts Offer evs)),
      ws_sq_bid = f64_of_int (sum_list (map (\<lambda>c. c * c) (window_counts Bid evs))),
      ws_sq_ask = f64_of_int (sum_list (map (\<lambda>c. c * c) (window_counts Offer evs))),
      ws_n = min (Suc (last_bucket evs)) 101 \<rparr> \<and> length (window_of c) = min (Suc (last_bucket evs)) 101"
proof -
  let ?t0 = "ev_timestamp_ns (hd evs)" and ?k = "last_bucket evs"
  let ?f = "cancel_hist_bucket ?t0 evs" and ?m = "min (Suc (last_bucket evs)) 101"
  have kb: "unat kBucketNs = 10000000" "0 < kBucketNs" by (simp_all add: kBucketNs_def)
  have p: "paced ?t0 kBucketNs kMaxCancelBuckets (map ev_timestamp_ns evs)" using assms(2) by (simp only: paced_feed_def)
  obtain es e where evs: "evs = es @ [e]" using assms(1) by (metis rev_exhaust)
  have t: "?t0 \<le> ev_timestamp_ns (last evs)" "unat (ev_timestamp_ns (last evs)) + unat kBucketNs < 2 ^ 64"
    using p by (simp_all add: evs paced_snoc)
  have nowrap: "unat ?t0 + ?k * unat kBucketNs < 2 ^ 64"
    using grid_index_bounds [OF kb(2) t(1)] t(2) by (simp add: last_bucket_def)
  have l: "ring_list kMaxCancelBuckets (cf_ring c) = map (\<lambda>i. ?f (?k - i)) [0..<min (Suc ?k) kMaxCancelBuckets]"
    using assms(4) by (simp add: on_grid_def)
  have new: "cb_ts_ns (ring_newest (cf_ring c)) = grid_time ?t0 kBucketNs ?k"
    using on_grid_newest(1) [OF kMaxCancelBuckets_pos assms(4)] by (simp add: cancel_hist_bucket_def)
  have "takeWhile ((\<lambda>b. \<not> cb_ts_ns b < window_cutoff (grid_time ?t0 kBucketNs ?k) kWindowNs) \<circ> (\<lambda>i. ?f (?k - i)))
      [0..<min (Suc ?k) kMaxCancelBuckets] = [0..<min (min (Suc ?k) kMaxCancelBuckets) 101]"
    by (rule takeWhile_upt)
      (use grid_in_window [OF _ nowrap, of _ kWindowNs] kb in \<open>simp add: cancel_hist_bucket_def kWindowNs_def\<close>)
  also have "\<dots> = [0..<?m]" by (simp add: kMaxCancelBuckets_def min_def)
  finally have w: "window_of c = map ?f (map (\<lambda>i. ?k - i) [0..<?m])"
    by (simp add: window_of_def new l takeWhile_map)
  note bnd = window_counts_bounds [OF assms(2,3)]
  have cm: "window_counts sd evs = map (deletes_in ?t0 sd evs) (map (\<lambda>i. ?k - i) [0..<?m])" for sd
    by (simp add: window_counts_def)
  have sq: "map (\<lambda>c. c * c) (window_counts sd evs) = map (\<lambda>j. deletes_in ?t0 sd evs j * deletes_in ?t0 sd evs j) (map (\<lambda>i. ?k - i) [0..<?m])" for sd
    by (simp add: window_counts_def)
  have "foldl add_sample \<lparr> ws_sum_bid = Fin (of_int 0), ws_sum_ask = Fin (of_int 0), ws_sq_bid = Fin (of_int 0),
         ws_sq_ask = Fin (of_int 0), ws_n = 0 \<rparr> (map ?f (map (\<lambda>i. ?k - i) [0..<?m]))
    = \<lparr> ws_sum_bid = Fin (of_int (0 + sum_list (window_counts Bid evs))), ws_sum_ask = Fin (of_int (0 + sum_list (window_counts Offer evs))),
        ws_sq_bid = Fin (of_int (0 + sum_list (map (\<lambda>c. c * c) (window_counts Bid evs)))),
        ws_sq_ask = Fin (of_int (0 + sum_list (map (\<lambda>c. c * c) (window_counts Offer evs)))), ws_n = 0 + length (map (\<lambda>i. ?k - i) [0..<?m]) \<rparr>"
    unfolding sq unfolding cm
    using deletes_in_bounds [of ?t0 _ evs] bnd [of Bid, unfolded sq, unfolded cm] bnd [of Offer, unfolded sq, unfolded cm]
    by (intro foldl_add_sample [where f = ?f]) (simp_all add: cancel_hist_bucket_def del: map_map upt_Suc)
  moreover have "f64_of_int (sum_list (window_counts sd evs)) = Fin (of_int (sum_list (window_counts sd evs)))"
     "f64_of_int (sum_list (map (\<lambda>c. c * c) (window_counts sd evs))) = Fin (of_int (sum_list (map (\<lambda>c. c * c) (window_counts sd evs))))" for sd
  proof -
    have "0 \<le> sum_list (map (\<lambda>c. c * c) (window_counts sd evs))" by (rule sum_list_nonneg) auto
    then show "f64_of_int (sum_list (window_counts sd evs)) = Fin (of_int (sum_list (window_counts sd evs)))"
      "f64_of_int (sum_list (map (\<lambda>c. c * c) (window_counts sd evs))) = Fin (of_int (sum_list (map (\<lambda>c. c * c) (window_counts sd evs))))"
      using bnd [of sd] by (intro f64_of_int_exact; simp)+
  qed
  ultimately show ?thesis unfolding sums_of_def w by (simp add: zero_f64_def del: map_map upt_Suc)
qed

lemma feed_records:
  assumes "evs \<noteq> []" "paced_feed evs" "int (length evs) \<le> 2 ^ 26" "1 \<le> last_bucket evs"
  shows "cf_recent_z_bid (cancel_feed cancel_new evs) \<noteq> []"
proof -
  let ?c = "cancel_feed cancel_new evs"
  obtain c where c: "?c = recompute_zscores c" "cancel_inv c"
    using assms(1) cancel_feed_inv count_delete_inv advance_inv
    by (cases evs rule: rev_cases) (auto simp: cancel_feed_snoc cancel_on_event_def)
  have grid: "on_grid kMaxCancelBuckets (cancel_hist_bucket (ev_timestamp_ns (hd evs)) evs) (last_bucket evs) (cf_ring c)"
    using cancel_feed_grid [OF assms(1) refl assms(2)] assms(3) c(1) by simp
  have "rg_count (cf_ring c) = min (Suc (last_bucket evs)) kMaxCancelBuckets"
    using grid length_ring_list [of kMaxCancelBuckets "cf_ring c"] by (simp add: on_grid_def)
  then have run: "\<not> (rg_count (cf_ring c) < 2 \<or> length (window_of c) < 2)"
    using assms(4) feed_sums [OF assms(1-3) grid] by (simp add: kMaxCancelBuckets_def)
  let ?now = "cb_ts_ns (ring_newest (cf_ring c))"
  have "length (takeWhile (\<lambda>t. t < window_cutoff ?now kQuantileNs) (cf_recent_ts c @ [?now])) < length (cf_recent_ts c @ [?now])"
    using cutoff_not_later [of ?now kQuantileNs] length_takeWhile_le [of "\<lambda>t. t < window_cutoff ?now kQuantileNs" "cf_recent_ts c"]
    by (auto simp: takeWhile_append less_Suc_eq_le)
  moreover have "cf_recent_ts ?c = drop (length (takeWhile (\<lambda>t. t < window_cutoff ?now kQuantileNs) (cf_recent_ts c @ [?now])))
      (cf_recent_ts c @ [?now])"
    unfolding c(1) using run c(2)
    by (simp add: recompute_cases expire_recent_drop cancel_inv_def Let_def del: drop_append)
  ultimately have "cf_recent_ts ?c \<noteq> []" by (simp only: drop_eq_Nil not_le)
  moreover have "length (cf_recent_z_bid ?c) = length (cf_recent_ts ?c)"
    using cancel_feed_inv [of evs] by (simp add: cancel_inv_def)
  ultimately show ?thesis by auto
qed

text \<open>Before the clock reads 30 seconds nothing expires: each score is appended.\<close>

lemma expire_nothing: "expire_recent 0 (ts, zb, za) = (ts, zb, za)"
  by (cases ts) simp_all

lemma cancel_event_records:
  assumes "paced_feed (evs @ [ev])" "int (length (evs @ [ev])) \<le> 2 ^ 26" "1 \<le> last_bucket (evs @ [ev])"
    "unat (ev_timestamp_ns ev) < 30000000000"
  shows "let c = cancel_feed cancel_new (evs @ [ev]); c0 = cancel_feed cancel_new evs
    in cf_recent_z_bid c = cf_recent_z_bid c0 @ [cf_z_bid c] \<and>
       cf_recent_z_ask c = cf_recent_z_ask c0 @ [cf_z_ask c]"
proof -
  let ?evs = "evs @ [ev]" and ?prev = "cancel_feed cancel_new evs"
  let ?c = "count_delete ev (cancel_advance_time (ev_timestamp_ns ev) ?prev)"
  have ne: "?evs \<noteq> []" by simp
  have c: "cancel_feed cancel_new ?evs = recompute_zscores ?c" by (simp add: cancel_feed_snoc cancel_on_event_def)
  have grid: "on_grid kMaxCancelBuckets (cancel_hist_bucket (ev_timestamp_ns (hd ?evs)) ?evs) (last_bucket ?evs) (cf_ring ?c)"
    using cancel_feed_grid [OF ne refl assms(1)] assms(2) c by simp
  have "rg_count (cf_ring ?c) = min (Suc (last_bucket ?evs)) kMaxCancelBuckets"
    using grid length_ring_list [of kMaxCancelBuckets "cf_ring ?c"] by (simp add: on_grid_def)
  then have run: "\<not> (rg_count (cf_ring ?c) < 2 \<or> length (window_of ?c) < 2)"
    using assms(3) feed_sums [OF ne assms(1,2) grid] by (simp add: kMaxCancelBuckets_def)
  have tm: "ev_timestamp_ns (hd ?evs) \<le> ev_timestamp_ns ev" "unat (ev_timestamp_ns ev) + unat kBucketNs < 2 ^ 64"
    using assms(1) by (simp_all add: paced_feed_def paced_snoc)
  have kb: "0 < kBucketNs" by (simp add: kBucketNs_def)
  have "unat (grid_time (ev_timestamp_ns (hd ?evs)) kBucketNs (last_bucket ?evs)) \<le> unat (ev_timestamp_ns ev)"
    using grid_index_bounds [OF kb tm(1)] tm(2) unat_grid_time [of "ev_timestamp_ns (hd ?evs)" "last_bucket ?evs" kBucketNs]
    by (simp add: last_bucket_def)
  then have "window_cutoff (cb_ts_ns (ring_newest (cf_ring ?c))) kQuantileNs = 0"
    using on_grid_newest(1) [OF kMaxCancelBuckets_pos grid] assms(4)
    by (simp add: cancel_hist_bucket_def window_cutoff_def kQuantileNs_def word_le_nat_alt)
  then have appended: "cf_recent_z_bid (recompute_zscores ?c) = cf_recent_z_bid ?c @ [cf_z_bid (recompute_zscores ?c)] \<and>
      cf_recent_z_ask (recompute_zscores ?c) = cf_recent_z_ask ?c @ [cf_z_ask (recompute_zscores ?c)]"
    using run by (simp add: recompute_cases Let_def expire_nothing)
  have keep: "cf_recent_z_bid ?c = cf_recent_z_bid ?prev" "cf_recent_z_ask ?c = cf_recent_z_ask ?prev"
    by (simp_all add: count_delete_keeps cancel_advance_time_def)
  show ?thesis using appended unfolding keep c Let_def .
qed

lemma window_scores_exact:
  assumes "evs \<noteq> []" and "paced_feed evs" and "int (length evs) \<le> 2 ^ 26" and "1 \<le> last_bucket evs"
  shows "cf_z_bid (cancel_feed cancel_new evs) = z_of_counts (window_counts Bid evs) \<and>
    cf_z_ask (cancel_feed cancel_new evs) = z_of_counts (window_counts Offer evs)"
proof -
  let ?t0 = "ev_timestamp_ns (hd evs)" and ?k = "last_bucket evs"
  obtain c where c: "cancel_feed cancel_new evs = recompute_zscores c" using feed_last_step [OF assms(1)] by blast
  have grid: "on_grid kMaxCancelBuckets (cancel_hist_bucket ?t0 evs) ?k (cf_ring c)"
    using cancel_feed_grid [OF assms(1) refl assms(2)] assms(3) c by simp
  note s = feed_sums [OF assms(1-3) grid]
  have "rg_count (cf_ring c) = min (Suc ?k) kMaxCancelBuckets"
    using grid length_ring_list [of kMaxCancelBuckets "cf_ring c"] by (simp add: on_grid_def)
  then have run: "\<not> (rg_count (cf_ring c) < 2 \<or> length (window_of c) < 2)"
    using assms(4) s by (simp add: kMaxCancelBuckets_def)
  have new: "ring_newest (cf_ring c) = cancel_hist_bucket ?t0 evs ?k"
    by (rule on_grid_newest(1) [OF kMaxCancelBuckets_pos grid])
  have hd: "f64_of_int (hd (window_counts sd evs)) = Fin (of_int (deletes_in ?t0 sd evs ?k))" for sd
  proof -
    have "hd (window_counts sd evs) = deletes_in ?t0 sd evs ?k" by (simp add: window_counts_def hd_map del: upt_Suc)
    then show ?thesis using deletes_in_bounds [of ?t0 sd evs ?k] assms(3) by simp
  qed
  have len: "length (window_counts sd evs) = min (Suc ?k) 101" for sd by (simp add: window_counts_def)
  show ?thesis
    unfolding c recompute_cases if_not_P [OF run] Let_def z_of_counts_def hd len
    using s by (simp add: case_prod_unfold new cancel_hist_bucket_def)
qed

text \<open>
  C20: After any paced feed (ordered in time, no gap over the 2 seconds of the ring, the clock not
  at its end) of up to \<open>2 ^ 26\<close> events that has reached its second bucket of 10 ms, both
  z-scores are those of the newest deletion count against the counts of the last 101 buckets
  (fewer at the start): the counts, their sums and sums of squares are exact.
\<close>

theorem z_scores_of_window:
  assumes "evs \<noteq> []" and "paced_feed evs" and "int (length evs) \<le> 2 ^ 26" and "1 \<le> last_bucket evs"
  shows "cf_z_bid (cancel_feed cancel_new evs) = z_of_counts (window_counts Bid evs) \<and>
    cf_z_ask (cancel_feed cancel_new evs) = z_of_counts (window_counts Offer evs)"
  by (rule window_scores_exact [OF assms])

lemma steady_score:
  assumes "cs \<noteq> []" and "length cs \<le> 200" and "\<forall>c \<in> set cs. c = hd cs" and "0 \<le> hd cs" and "hd cs \<le> 2 ^ 20"
  shows "z_of_counts cs = Fin 0"
proof -
  let ?c = "hd cs" and ?n = "int (length cs)"
  have n: "1 \<le> ?n" "?n \<le> 200" using assms(1,2) by (cases cs; simp)+
  have rep: "cs = replicate (length cs) ?c" using assms(3) by (metis replicate_length_same)
  have "sum_list (replicate k x) = int k * x" for k x by (induction k) (simp_all add: algebra_simps)
  then have sums: "sum_list cs = ?n * ?c" "sum_list (map (\<lambda>c. c * c) cs) = ?n * (?c * ?c)"
    by (metis rep) (metis rep map_replicate \<open>\<And>x k. sum_list (replicate k x) = int k * x\<close>)
  have cc: "0 \<le> ?c * ?c" "?c * ?c \<le> 2 ^ 20 * 2 ^ 20"
    using assms(4,5) by (simp, intro mult_mono) simp_all
  have p: "0 \<le> ?n * ?c" "0 \<le> ?n * (?c * ?c)" using n assms(4) by simp_all
  have p1: "?n * ?c \<le> 200 * 2 ^ 20" using n assms(4,5) by (intro mult_mono) simp_all
  have p2: "?n * (?c * ?c) \<le> 200 * (2 ^ 20 * 2 ^ 20)" by (rule mult_mono) (use n cc in simp_all)
  have e: "f64_of_int (?n * ?c) = Fin (of_int (?n * ?c))" "f64_of_int (?n * (?c * ?c)) = Fin (of_int (?n * (?c * ?c)))"
    "f64_of_int ?c = Fin (of_int ?c)" "f64_of_int ?n = Fin (of_int ?n)"
    using assms(4,5) n p p1 p2 by (intro f64_of_int_exact; simp)+
  have nz: "(of_int ?n :: rat) \<noteq> 0" using assms(1) by simp
  have "f64_div (Fin (of_int (?n * ?c))) (Fin (of_int ?n)) = round64 (of_int ?c)"
    "f64_div (Fin (of_int (?n * (?c * ?c)))) (Fin (of_int ?n)) = round64 (of_int (?c * ?c))"
    using nz by simp_all
  moreover have "round64 (of_int ?c) = Fin (of_int ?c)" "round64 (of_int (?c * ?c)) = Fin (of_int (?c * ?c))"
    "Fin (of_int ?c) * Fin (of_int ?c) = Fin (of_int (?c * ?c))"
    "Fin (of_int (?c * ?c)) - Fin (of_int (?c * ?c)) = Fin (of_int (?c * ?c - ?c * ?c))"
    "Fin (of_int ?c) - Fin (of_int ?c) = Fin (of_int (?c - ?c))"
    using assms(4,5) cc by (intro round64_int f64_mult_int f64_sub_int; simp)+
  ultimately show ?thesis
    unfolding z_of_counts_def z_score_def sums e Let_def by (simp add: zero_f64_def one_f64_def)
qed

text \<open>
  A steady rate is never anomalous: when every bucket of the window has the same count,
  the score is exactly zero in floating point.
\<close>

theorem steady_rate_scores_zero:
  assumes "cs \<noteq> []" and "length cs \<le> 101" and "\<forall>c \<in> set cs. c = hd cs" and "0 \<le> hd cs" and "hd cs \<le> 2 ^ 20"
  shows "z_of_counts cs = Fin 0"
  using assms by (intro steady_score) simp_all

section \<open>Concrete feeds\<close>

definition delete_at :: "u64 \<Rightarrow> md_entry_type \<Rightarrow> lob_event" where
  "delete_at ts sd = \<lparr> ev_timestamp_ns = ts, ev_entry_id = 1, ev_price = 200000, ev_qty = 1,
     ev_action = Delete, ev_side = sd \<rparr>"

definition sample_deletes :: "lob_event list" where
  "sample_deletes = [delete_at 1000000000 Bid, delete_at 1012000000 Bid, delete_at 1013000000 Bid,
     delete_at 1021000000 Offer]"

lemma sample_deletes_facts:
  "sample_deletes \<noteq> []" "paced_feed sample_deletes" "int (length sample_deletes) \<le> 2 ^ 26"
  "1 \<le> last_bucket sample_deletes" "last_bucket sample_deletes = 2"
  by (simp_all add: sample_deletes_def delete_at_def paced_feed_def paced_def grid_index_def
      last_bucket_def kBucketNs_def kMaxCancelBuckets_def)

theorem z_scores_of_window_witness:
  "cf_z_bid (cancel_feed cancel_new sample_deletes) = z_of_counts [0, 2, 1] \<and>
   cf_z_ask (cancel_feed cancel_new sample_deletes) = z_of_counts [1, 0, 0]"
proof -
  have "window_counts Bid sample_deletes = [0, 2, 1]" "window_counts Offer sample_deletes = [1, 0, 0]"
    unfolding window_counts_def sample_deletes_facts(5)
    by (simp_all add: sample_deletes_def delete_at_def deletes_in_def bucket_total_def deletes_def
        grid_index_def kBucketNs_def upt_conv_Cons)
  then show ?thesis using z_scores_of_window [OF sample_deletes_facts(1-4)] by simp
qed

theorem steady_rate_scores_zero_witness: "z_of_counts [4, 4, 4] = Fin 0"
  by (rule steady_rate_scores_zero) simp_all

theorem threshold_is_percentile_witness:
  "dynamic_threshold (cancel_feed cancel_new sample_deletes)
     \<in> set (combined_scores (cancel_feed cancel_new sample_deletes))"
proof -
  let ?c = "cancel_feed cancel_new sample_deletes"
  have ne: "cf_recent_z_bid ?c \<noteq> []" using feed_records [OF sample_deletes_facts(1-4)] .
  have "length (cf_recent_z_bid (recompute_zscores c)) \<le> Suc (length (cf_recent_z_bid c))" if "cancel_inv c" for c
    using that by (simp add: recompute_cases expire_recent_drop cancel_inv_def Let_def del: drop_append)
  note that = this
  have step: "length (cf_recent_z_bid (cancel_feed cancel_new (evs @ [ev])))
      \<le> Suc (length (cf_recent_z_bid (cancel_feed cancel_new evs)))" for evs ev
  proof -
    have "cf_recent_z_bid (cancel_advance_time t c) = cf_recent_z_bid c" for t c
      by (simp add: cancel_advance_time_def)
    then show ?thesis
      using that [OF count_delete_inv [OF advance_inv [OF cancel_feed_inv [of evs]]]]
      by (metis (no_types) cancel_feed_snoc cancel_on_event_def count_delete_keeps(3))
  qed
  have "length (cf_recent_z_bid (cancel_feed cancel_new evs)) \<le> length evs" for evs
  proof (induction evs rule: rev_induct)
    case (snoc ev evs)
    then show ?case using step [of evs ev] by simp
  qed (simp add: cancel_feed_def cancel_new_def)
  from this [of sample_deletes] have "length (cf_recent_z_bid ?c) \<le> 2 ^ 48"
    by (simp add: sample_deletes_def)
  from threshold_is_percentile [OF refl ne this] show ?thesis by (simp add: Let_def)
qed

theorem recent_scores_within_30s_witness:
  "sorted (cf_recent_ts (cancel_feed cancel_new sample_deletes))"
  using recent_scores_within_30s [OF _ refl, of sample_deletes]
  by (simp add: sample_deletes_def delete_at_def kBucketNs_def)

end
