(* ===== verification/Score_Bounds.thy ===== *)
theory Score_Bounds
  imports Cancel_Factor
begin

text \<open>
  How large the scores of \<open>CancelFactor::recompute_zscores\<close> can get: with at most 8192
  deletions of a side in any 10 ms both z-scores stay within \<open>2 ^ 24\<close>, through every
  rounding.  Either all counts agree and the score is zero, or the exact variance is at least
  \<open>1 / n\<^sup>2\<close>, which the rounding errors cannot eat up.
\<close>

section \<open>The spread of a list of integers\<close>

abbreviation sum_squares :: "int list \<Rightarrow> int" where
  "sum_squares xs \<equiv> sum_list (map (\<lambda>x. x * x) xs)"

definition deviation :: "int \<Rightarrow> int list \<Rightarrow> int" where
  "deviation c xs = sum_list (map (\<lambda>x. (x - c) * (x - c)) xs)"

lemma deviation_expand:
  "deviation c xs = sum_squares xs - 2 * c * sum_list xs + int (length xs) * (c * c)"
  by (induction xs) (simp_all add: deviation_def algebra_simps)

lemma deviation_nonneg: "0 \<le> deviation c xs"
  unfolding deviation_def by (rule sum_list_nonneg) auto

lemma deviation_pos: "x \<in> set xs \<Longrightarrow> x \<noteq> c \<Longrightarrow> 1 \<le> deviation c xs"
proof (induction xs)
  case (Cons y xs)
  have "deviation c (y # xs) = (y - c) * (y - c) + deviation c xs" by (simp add: deviation_def)
  moreover have "0 \<le> (y - c) * (y - c)" by simp
  moreover have "1 \<le> (y - c) * (y - c)" if "y \<noteq> c"
  proof -
    have "0 < (y - c) * (y - c)" using that by (simp add: zero_less_mult_iff linorder_neq_iff [symmetric])
    then show ?thesis by simp
  qed
  ultimately show ?case using Cons deviation_nonneg [of c xs] by fastforce
qed simp

lemma spread_cons:
  "int (length (c # xs)) * sum_squares (c # xs) - sum_list (c # xs) * sum_list (c # xs)
     = int (length xs) * sum_squares xs - sum_list xs * sum_list xs + deviation c xs"
  by (simp add: deviation_expand algebra_simps)

lemma spread_nonneg: "sum_list xs * sum_list xs \<le> int (length xs) * sum_squares xs"
proof (induction xs)
  case (Cons c xs)
  then show ?case using spread_cons [of c xs] deviation_nonneg [of c xs] by linarith
qed simp

lemma spread_pos:
  assumes "x \<in> set cs" "x \<noteq> hd cs"
  shows "sum_list cs * sum_list cs + 1 \<le> int (length cs) * sum_squares cs"
proof -
  obtain c xs where cs: "cs = c # xs" using assms(1) by (cases cs) simp_all
  have "1 \<le> deviation c xs" using assms cs by (intro deviation_pos [of x]) auto
  then show ?thesis unfolding cs using spread_cons [of c xs] spread_nonneg [of xs] by linarith
qed

section \<open>Bounded counts, bounded score\<close>

definition counts_ok :: "int list \<Rightarrow> bool" where
  "counts_ok cs \<longleftrightarrow> cs \<noteq> [] \<and> length cs \<le> 200 \<and> (\<forall>c \<in> set cs. 0 \<le> c \<and> c \<le> 8192)"

lemma counts_ok_sums:
  assumes "counts_ok cs"
  shows "0 \<le> sum_list cs" "sum_list cs \<le> int (length cs) * 8192"
    "0 \<le> sum_squares cs" "sum_squares cs \<le> int (length cs) * 67108864"
proof -
  have c: "\<forall>c \<in> set cs. 0 \<le> c \<and> c \<le> 8192" using assms by (simp add: counts_ok_def)
  have sq: "x * x \<le> 67108864" if "x \<in> set cs" for x :: int
    using mult_mono [of x 8192 x 8192] c that by auto
  have bound: "(\<And>x. x \<in> set xs \<Longrightarrow> f x \<le> k) \<Longrightarrow> sum_list (map f xs) \<le> int (length xs) * k" for f k and xs :: "int list"
    by (induction xs) (auto simp: algebra_simps add_mono)
  show "0 \<le> sum_list cs" using c by (auto intro: sum_list_nonneg)
  show "sum_list cs \<le> int (length cs) * 8192" using bound [of cs "\<lambda>x. x" 8192] c by simp
  show "0 \<le> sum_squares cs" by (rule sum_list_nonneg) auto
  show "sum_squares cs \<le> int (length cs) * 67108864" using bound [of cs "\<lambda>x. x * x"] sq by simp
qed

lemma counts_ok_length: "counts_ok cs \<Longrightarrow> 1 \<le> int (length cs) \<and> int (length cs) \<le> 200"
  by (auto simp: counts_ok_def Suc_le_eq)

lemma counts_ok_hd: "counts_ok cs \<Longrightarrow> 0 \<le> hd cs \<and> hd cs \<le> 8192"
  by (simp add: counts_ok_def)

lemma counts_ok_means:
  assumes "counts_ok cs"
  defines "n \<equiv> of_int (int (length cs)) :: rat"
  shows "0 \<le> of_int (sum_list cs) / n" "of_int (sum_list cs) / n \<le> 8192"
    "0 \<le> of_int (sum_squares cs) / n" "of_int (sum_squares cs) / n \<le> 67108864"
proof -
  have n: "0 < n" using assms(1) by (simp add: n_def counts_ok_def)
  have "(of_int (sum_list cs) :: rat) \<le> of_int (int (length cs) * 8192)"
    "(of_int (sum_squares cs) :: rat) \<le> of_int (int (length cs) * 67108864)"
    using counts_ok_sums [OF assms(1)] by (simp_all only: of_int_le_iff)
  then have "of_int (sum_list cs) \<le> 8192 * n" "of_int (sum_squares cs) \<le> 67108864 * n" by (simp_all add: n_def)
  then show "of_int (sum_list cs) / n \<le> 8192" "of_int (sum_squares cs) / n \<le> 67108864"
    unfolding pos_divide_le_eq [OF n] .
  show "0 \<le> of_int (sum_list cs) / n" "0 \<le> of_int (sum_squares cs) / n"
    using n counts_ok_sums [OF assms(1)] by simp_all
qed

text \<open>Rounding a rational that is zero or not tiny.\<close>

lemma rnd_close:
  assumes "x = 0 \<or> pow2 (- 100) \<le> x" "x \<le> k" "0 \<le> k"
  shows "\<bar>rnd x - x\<bar> \<le> k * pow2 (- 53)"
proof (cases "x = 0")
  case False
  then have x: "pow2 (- 100) \<le> x" using assms(1) by blast
  moreover have "pow2 (- 1022) \<le> pow2 (- 100)" by simp
  ultimately have "\<bar>rnd x - x\<bar> \<le> x * pow2 (- 53)" by (intro rnd_relative) linarith
  also have "\<dots> \<le> k * pow2 (- 53)" using assms(2) by (intro mult_right_mono) simp_all
  finally show ?thesis .
qed (use assms in simp)

lemma integer_quotient:
  assumes "0 \<le> a" "1 \<le> n" "n \<le> 200"
  shows "(of_int a / of_int n :: rat) = 0 \<or> 1 / 200 \<le> (of_int a / of_int n :: rat)"
proof (cases "a = 0")
  case False
  then have "(1 :: rat) / 200 \<le> of_int a / of_int n" using assms by (intro frac_le) simp_all
  then show ?thesis ..
qed simp

text \<open>The squared mean, rounded, against its exact value.\<close>

lemma mean_square_close:
  assumes "m = 0 \<or> 1 / 200 \<le> m" "m \<le> (8192 :: rat)"
  shows "\<bar>rnd (rnd m * rnd m) - m * m\<bar> \<le> pow2 (- 24)" "0 \<le> rnd m" "rnd m \<le> 8192"
proof -
  have p: "pow2 (- 100) \<le> pow2 (- 8)" "pow2 (- 8) = 1 / 256" by (simp_all add: pow2_def)
  have f: "is_f53 8192" using is_f53_int [of 8192] by simp
  have z: "0 \<le> m" using assms(1) by auto
  show b: "0 \<le> rnd m" "rnd m \<le> 8192" using rnd_between [OF is_f53_0 f z assms(2)] by simp_all
  have e1: "\<bar>rnd m - m\<bar> \<le> 8192 * pow2 (- 53)" using assms p by (intro rnd_close) auto
  have "rnd m * rnd m - m * m = (rnd m - m) * (rnd m + m)" by (simp add: algebra_simps)
  then have "\<bar>rnd m * rnd m - m * m\<bar> = \<bar>rnd m - m\<bar> * (rnd m + m)" using b z by (simp only: abs_mult)
  also have "\<dots> \<le> (8192 * pow2 (- 53)) * (8192 + 8192)"
    using e1 b z assms(2) by (intro mult_mono) simp_all
  finally have e2: "\<bar>rnd m * rnd m - m * m\<bar> \<le> 134217728 * pow2 (- 53)" by simp
  have low: "rnd m = 0 \<or> pow2 (- 8) \<le> rnd m"
  proof (cases "m = 0")
    case False
    then have "pow2 (- 8) \<le> m" using assms(1) p by auto
    from rnd_mono [OF this] show ?thesis using rnd_f53 [OF is_f53_pow2, of "- 8"] by simp
  qed simp
  have "pow2 (- 8) * pow2 (- 8) \<le> rnd m * rnd m" if "pow2 (- 8) \<le> rnd m"
    using that b(1) by (intro mult_mono) simp_all
  moreover have "pow2 (- 100) \<le> pow2 (- 8) * pow2 (- 8)" by (simp flip: pow2_add)
  ultimately have "rnd m * rnd m = 0 \<or> pow2 (- 100) \<le> rnd m * rnd m" using low by fastforce
  moreover have "rnd m * rnd m \<le> 8192 * 8192" using b by (intro mult_mono) simp_all
  ultimately have "\<bar>rnd (rnd m * rnd m) - rnd m * rnd m\<bar> \<le> (8192 * 8192) * pow2 (- 53)"
    by (rule rnd_close) simp
  moreover have "134217728 * pow2 (- 53) + (8192 * 8192) * pow2 (- 53) \<le> pow2 (- 24)"
    by (simp add: pow2_def)
  ultimately show "\<bar>rnd (rnd m * rnd m) - m * m\<bar> \<le> pow2 (- 24)" using e2 by linarith
qed

lemma div_moderate: "n \<noteq> 0 \<Longrightarrow> 0 \<le> a / n \<Longrightarrow> a / n \<le> pow2 200 \<Longrightarrow> f64_div (Fin a) (Fin n) = Fin (rnd (a / n))"
  using round64_moderate [of "a / n"] by simp

text \<open>Unless all counts agree, the computed variance is at least \<open>2 ^ -16\<close>.\<close>

lemma variance_lower:
  assumes "counts_ok cs" "x \<in> set cs" "x \<noteq> hd cs"
  defines "n \<equiv> of_int (int (length cs)) :: rat"
  shows "pow2 (- 16) \<le> rnd (of_int (sum_squares cs) / n)
      - rnd (rnd (of_int (sum_list cs) / n) * rnd (of_int (sum_list cs) / n))"
proof -
  let ?S = "of_int (sum_list cs) :: rat" and ?Q = "of_int (sum_squares cs) :: rat"
  note s = counts_ok_sums [OF assms(1)]
  have len: "1 \<le> int (length cs)" "int (length cs) \<le> 200" using counts_ok_length [OF assms(1)] by simp_all
  then have n: "1 \<le> n" "n \<le> 200" by (simp_all add: n_def)
  have S: "?S / n = 0 \<or> 1 / 200 \<le> ?S / n" and Q: "?Q / n = 0 \<or> 1 / 200 \<le> ?Q / n"
    unfolding n_def using s len by (intro integer_quotient; simp)+
  note b = counts_ok_means(2,4) [OF assms(1), folded n_def]
  have "pow2 (- 100) \<le> 1 / 200"
  proof -
    have "pow2 (- 100) \<le> pow2 (- 8)" by simp
    also have "\<dots> \<le> 1 / 200" by (simp add: pow2_def)
    finally show ?thesis .
  qed
  then have "?Q / n = 0 \<or> pow2 (- 100) \<le> ?Q / n" using Q by linarith
  from rnd_close [OF this b(2)] have eq: "\<bar>rnd (?Q / n) - ?Q / n\<bar> \<le> 67108864 * pow2 (- 53)" by simp
  note em = mean_square_close(1) [OF S b(1)]
  have "(of_int (sum_list cs * sum_list cs + 1) :: rat) \<le> of_int (int (length cs) * sum_squares cs)"
    unfolding of_int_le_iff by (rule spread_pos [OF assms(2,3)])
  then have "?S * ?S + 1 \<le> n * ?Q" by (simp add: n_def)
  then have "(?S * ?S + 1) / (n * n) \<le> n * ?Q / (n * n)" using n by (intro divide_right_mono) simp_all
  then have v: "?S / n * (?S / n) + 1 / (n * n) \<le> ?Q / n" using n by (simp add: add_divide_distrib)
  have "n * n \<le> 200 * 200" using n by (intro mult_mono) simp_all
  then have "1 / (200 * 200) \<le> 1 / (n * n)" using n by (intro frac_le) simp_all
  moreover have "pow2 (- 16) + pow2 (- 24) + 67108864 * pow2 (- 53) \<le> 1 / (200 * 200)" by (simp add: pow2_def)
  ultimately show ?thesis using v eq em by linarith
qed

lemma score_bounded:
  assumes "counts_ok cs"
  shows "in_range (- pow2 24) (pow2 24) (z_of_counts cs)"
proof (cases "\<forall>c \<in> set cs. c = hd cs")
  case True
  then have "z_of_counts cs = Fin 0"
    using assms counts_ok_hd [OF assms] by (intro steady_score) (auto simp: counts_ok_def intro: order.trans [of _ 8192])
  then show ?thesis by simp
next
  case False
  then obtain x where x: "x \<in> set cs" "x \<noteq> hd cs" by blast
  let ?n = "of_int (int (length cs)) :: rat"
  let ?m = "rnd (of_int (sum_list cs) / ?n)"
  let ?q = "rnd (of_int (sum_squares cs) / ?n)"
  let ?v = "rnd (?q - rnd (?m * ?m))"
  note s = counts_ok_sums [OF assms]
  have len: "1 \<le> int (length cs)" "int (length cs) \<le> 200" using counts_ok_length [OF assms] by simp_all
  have hd: "0 \<le> hd cs" "hd cs \<le> 8192" using counts_ok_hd [OF assms] by simp_all
  have e: "f64_of_int (sum_list cs) = Fin (of_int (sum_list cs))" "f64_of_int (int (length cs)) = Fin ?n"
    "f64_of_int (sum_squares cs) = Fin (of_int (sum_squares cs))" "f64_of_int (hd cs) = Fin (of_int (hd cs))"
    using hd s len by (intro f64_of_int_exact; simp)+
  note b = counts_ok_means(2,4,1,3) [OF assms]
  note mean = mean_square_close [OF integer_quotient [OF s(1) len] b(1)]
  have big: "67108864 \<le> pow2 200" "8192 \<le> pow2 200"
    using pow2_le_iff [of 26 200] pow2_le_iff [of 13 200] by (simp_all add: pow2_def)
  have q: "?q \<le> 67108864" "0 \<le> ?q"
    using rnd_between [OF is_f53_0 _ b(4,2)] is_f53_int [of 67108864] by simp_all
  have mm: "0 \<le> ?m * ?m" "?m * ?m \<le> 8192 * 8192" using mean(2,3) by (simp, intro mult_mono) simp_all
  have rmm: "0 \<le> rnd (?m * ?m)" using mm(1) by (rule rnd_nonneg)
  have var: "pow2 (- 16) \<le> ?q - rnd (?m * ?m)" by (rule variance_lower [OF assms x])
  have p16: "0 < pow2 (- 16)" by simp
  have d: "0 \<le> ?q - rnd (?m * ?m)" "?q - rnd (?m * ?m) \<le> pow2 200" using var p16 q(1) rmm big(1) by linarith+
  have ops: "f64_div (Fin (of_int (sum_list cs))) (Fin ?n) = Fin ?m"
    "f64_div (Fin (of_int (sum_squares cs))) (Fin ?n) = Fin ?q"
    "Fin ?m * Fin ?m = Fin (rnd (?m * ?m))" "Fin ?q - Fin (rnd (?m * ?m)) = Fin ?v"
  proof -
    have nz: "?n \<noteq> 0" using assms by (simp add: counts_ok_def)
    show "f64_div (Fin (of_int (sum_list cs))) (Fin ?n) = Fin ?m"
      by (rule div_moderate [OF nz b(3) order.trans [OF b(1) big(2)]])
    show "f64_div (Fin (of_int (sum_squares cs))) (Fin ?n) = Fin ?q"
      by (rule div_moderate [OF nz b(4) order.trans [OF b(2) big(1)]])
    have "?m * ?m \<le> pow2 200" using mm(2) big(1) by linarith
    then show "Fin ?m * Fin ?m = Fin (rnd (?m * ?m))" using round64_moderate [OF mm(1)] by simp
    show "Fin ?q - Fin (rnd (?m * ?m)) = Fin ?v" using round64_moderate [OF d] by (simp add: minus_f64_def)
  qed
  have v: "pow2 (2 * - 8) \<le> ?v" using rnd_mono [OF var] rnd_f53 [OF is_f53_pow2, of "- 16"] by simp
  then have vpos: "0 < ?v" using pow2_pos [of "2 * - 8"] by linarith
  obtain r where r: "f64_sqrt (Fin ?v) = Fin r" "pow2 (- 8) \<le> r" using f64_sqrt_at_least [OF v] by auto
  have rpos: "0 < r" using r(2) pow2_pos [of "- 8"] by linarith
  have hd_rat: "0 \<le> (of_int (hd cs) :: rat)" "(of_int (hd cs) :: rat) \<le> 8192" using hd by simp_all
  have dbl: "is_double (pow2 14)" "is_double (- pow2 14)"
    using is_double_pow2 is_double_minus by (simp_all del: pow2_nat)
  have "in_range (- pow2 14) (pow2 14) (round64 (of_int (hd cs) + - ?m))"
    using hd_rat mean(2,3) by (intro in_range_round64 dbl) simp_all
  then obtain u where u: "Fin (of_int (hd cs)) - Fin ?m = Fin u" "\<bar>u\<bar> \<le> pow2 14"
    using in_rangeE by (fastforce simp: minus_f64_def abs_le_iff)
  have "in_range (- pow2 24) (pow2 24) (round64 (u / r))" using u(2) r(2) by (intro quotient_range [of u 14 8]) simp_all
  moreover have "z_of_counts cs = round64 (u / r)"
    unfolding z_of_counts_def z_score_def Let_def e ops u(1)
    using vpos rpos r(1) by (simp add: zero_f64_def del: f64_sqrt.simps)
  ultimately show ?thesis by simp
qed

section \<open>Calm feeds\<close>

text \<open>The deletions of a side in a piece of a feed.\<close>

definition deleted :: "md_entry_type \<Rightarrow> lob_event list \<Rightarrow> nat" where
  "deleted sd evs = length (filter (\<lambda>ev. ev_action ev = Delete \<and> ev_side ev = sd) evs)"

definition near :: "u64 \<Rightarrow> lob_event \<Rightarrow> bool" where
  "near t ev \<longleftrightarrow> t \<le> ev_timestamp_ns ev \<and> ev_timestamp_ns ev - t < kBucketNs"

text \<open>
  An ordered feed, the clock not at its very end, with at most 8192 deletions of each side in
  the 10 ms from any of its events.
\<close>

definition calm_feed :: "lob_event list \<Rightarrow> bool" where
  "calm_feed evs \<longleftrightarrow> sorted (map ev_timestamp_ns evs) \<and>
     list_all (\<lambda>ev. unat (ev_timestamp_ns ev) + unat kBucketNs < 2 ^ 64 \<and>
       deleted Bid (filter (near (ev_timestamp_ns ev)) evs) \<le> 8192 \<and>
       deleted Offer (filter (near (ev_timestamp_ns ev)) evs) \<le> 8192) evs"

lemma deleted_append [simp]: "deleted sd (xs @ ys) = deleted sd xs + deleted sd ys"
  by (simp add: deleted_def)

lemma calm_butlast: "calm_feed (evs @ [ev]) \<Longrightarrow> calm_feed evs"
  by (fastforce simp: calm_feed_def sorted_append list_all_iff)

text \<open>The buckets of a ring that has only counted so many.\<close>

definition plain_bucket :: "u64 \<times> nat \<times> nat \<Rightarrow> cancel_bucket" where
  "plain_bucket x = (case x of (t, m, n) \<Rightarrow> \<lparr> cb_ts_ns = t, cb_bid_cancels = Fin (of_int (int m)),
     cb_ask_cancels = Fin (of_int (int n)) \<rparr>)"

definition small_bucket :: "cancel_bucket \<Rightarrow> bool" where
  "small_bucket b \<longleftrightarrow> (\<exists>t m n. b = plain_bucket (t, m, n) \<and> m \<le> 8192 \<and> n \<le> 8192)"

lemma blank_plain: "cancel_blank t = plain_bucket (t, 0, 0)"
  by (simp add: cancel_blank_def plain_bucket_def zero_f64_def)

lemma blank_small [simp]: "small_bucket (cancel_blank t)"
  unfolding small_bucket_def blank_plain by blast

lemma plain_stamp [simp]: "cb_ts_ns (plain_bucket (t, m, n)) = t"
  by (simp add: plain_bucket_def)

text \<open>The newest bucket counts a last piece of the feed, all of it within 10 ms.\<close>

definition counts_last :: "lob_event list \<Rightarrow> cancel_bucket \<Rightarrow> bool" where
  "counts_last evs b \<longleftrightarrow> (\<exists>pre ev seg u. evs = pre @ ev # seg \<and> u \<le> ev_timestamp_ns ev \<and>
     list_all (near (ev_timestamp_ns ev)) (ev # seg) \<and>
     b = plain_bucket (u, deleted Bid (ev # seg), deleted Offer (ev # seg)))"

definition counted :: "lob_event list \<Rightarrow> cancel_factor \<Rightarrow> bool" where
  "counted evs c \<longleftrightarrow> ring_wf kMaxCancelBuckets (cf_ring c) \<and> list_all small_bucket (rg_buckets (cf_ring c)) \<and>
     (if evs = [] then rg_count (cf_ring c) = 0
      else 0 < rg_count (cf_ring c) \<and> counts_last evs (ring_newest (cf_ring c)))"

lemma counts_last_small: "calm_feed evs \<Longrightarrow> counts_last evs b \<Longrightarrow> small_bucket b"
proof -
  assume calm: "calm_feed evs" and "counts_last evs b"
  then obtain pre ev seg u where e: "evs = pre @ ev # seg" "list_all (near (ev_timestamp_ns ev)) (ev # seg)"
    "b = plain_bucket (u, deleted Bid (ev # seg), deleted Offer (ev # seg))" by (auto simp: counts_last_def)
  have "filter (near (ev_timestamp_ns ev)) (ev # seg) = ev # seg"
    using e(2) by (simp add: list_all_iff filter_id_conv)
  then have "deleted sd (ev # seg) \<le> deleted sd (filter (near (ev_timestamp_ns ev)) evs)" for sd
    unfolding e(1) filter_append by simp
  moreover have "deleted Bid (filter (near (ev_timestamp_ns ev)) evs) \<le> 8192"
    "deleted Offer (filter (near (ev_timestamp_ns ev)) evs) \<le> 8192"
    using calm unfolding calm_feed_def list_all_iff e(1) by simp_all
  ultimately show ?thesis unfolding small_bucket_def e(3) using order.trans by blast
qed

text \<open>Advancing keeps the newest bucket, or starts an empty one that begins no later than the clock.\<close>

lemma extend_newest:
  assumes "ring_wf kMaxCancelBuckets r" "0 < n"
  shows "ring_newest (ring_extend kMaxCancelBuckets fresh n r) = fresh (n - 1)"
proof -
  have e: "ring_wf kMaxCancelBuckets (ring_extend kMaxCancelBuckets fresh n r)"
    "ring_list kMaxCancelBuckets (ring_extend kMaxCancelBuckets fresh n r)
      = take kMaxCancelBuckets (rev (map fresh [0..<n]) @ ring_list kMaxCancelBuckets r)"
    using ring_extend_list [OF kMaxCancelBuckets_pos assms(1)] by blast+
  obtain m k where "n = Suc m" "kMaxCancelBuckets = Suc k"
    using assms(2) kMaxCancelBuckets_pos by (metis gr0_implies_Suc)
  then have "ring_list kMaxCancelBuckets (ring_extend kMaxCancelBuckets fresh n r) \<noteq> []"
    "hd (ring_list kMaxCancelBuckets (ring_extend kMaxCancelBuckets fresh n r)) = fresh (n - 1)"
    unfolding e(2) by simp_all
  then show ?thesis using ring_newest_hd [OF e(1)] by simp
qed

lemma advance_newest_cases:
  assumes "ring_wf kMaxCancelBuckets (cf_ring c)" "0 < rg_count (cf_ring c)"
    "unat (cb_ts_ns (ring_newest (cf_ring c))) + unat kBucketNs < 2 ^ 64" "cb_ts_ns (ring_newest (cf_ring c)) \<le> t"
  shows "(cancel_advance_time t c = c \<and> t < cb_ts_ns (ring_newest (cf_ring c)) + kBucketNs) \<or>
    (\<exists>u \<le> t. ring_newest (cf_ring (cancel_advance_time t c)) = cancel_blank u)"
proof (cases "t < cb_ts_ns (ring_newest (cf_ring c)) + kBucketNs")
  case True
  then show ?thesis using assms(2) by (simp add: cancel_advance_time_def ring_advance_def Let_def)
next
  case False
  let ?s = "cb_ts_ns (ring_newest (cf_ring c))" and ?c = "cancel_advance_time t c"
  have b: "0 < kBucketNs" by (simp add: kBucketNs_def)
  have "cb_ts_ns (ring_newest (cf_ring ?c)) \<le> max ?s t"
    using ring_advance_newest [OF kMaxCancelBuckets_pos kMaxCancelBuckets_pos b assms(1,2), of cb_ts_ns cancel_blank t] assms(3)
    by (simp add: cancel_advance_time_def cancel_blank_def)
  then have le: "cb_ts_ns (ring_newest (cf_ring ?c)) \<le> t" using assms(4) by (simp add: max_def)
  let ?n = "min (unat ((t - ?s) div kBucketNs)) kMaxCancelBuckets"
  have "unat ?s + unat kBucketNs \<le> unat t" using False assms(3) by (simp add: word_less_nat_alt unat_word_ariths)
  then have "unat kBucketNs \<le> unat t - unat ?s" by linarith
  then have "0 < (unat t - unat ?s) div unat kBucketNs" by (simp add: div_greater_zero_iff kBucketNs_def)
  moreover have "unat ((t - ?s) div kBucketNs) = (unat t - unat ?s) div unat kBucketNs"
    using assms(4) by (simp add: unat_div unat_sub word_le_nat_alt)
  ultimately have n: "0 < ?n" by simp
  have "cf_ring ?c = ring_extend kMaxCancelBuckets (\<lambda>i. cancel_blank (?s + (of_nat i + 1) * kBucketNs)) ?n (cf_ring c)"
    using False assms(2) by (simp add: cancel_advance_time_def ring_advance_def Let_def)
  then obtain u where "ring_newest (cf_ring ?c) = cancel_blank u" using extend_newest [OF assms(1) n] by simp
  then show ?thesis using le by (auto simp: cancel_blank_def)
qed

lemma near_self: "near (ev_timestamp_ns ev) ev"
  by (simp add: near_def kBucketNs_def)

lemma ring_set_newest_self: "ring_wf cap r \<Longrightarrow> ring_set_newest (ring_newest r) r = r"
  by (simp add: ring_set_newest_def ring_newest_def)

lemma count_delete_plain:
  assumes "ring_wf kMaxCancelBuckets (cf_ring c)" "ring_newest (cf_ring c) = plain_bucket (u, m, n)" "m \<le> 8192" "n \<le> 8192"
  shows "cf_ring (count_delete ev c) = ring_set_newest (plain_bucket (u, m + deleted Bid [ev], n + deleted Offer [ev])) (cf_ring c)"
proof -
  have e: "Fin (of_int (int k)) + 1 = Fin (of_int (int k + 1))" if "k \<le> 8192" for k using that by (intro exact_count) simp_all
  show ?thesis
    using e [OF assms(3)] e [OF assms(4)] assms(2) ring_set_newest_self [OF assms(1)]
    by (auto simp: count_delete_def deleted_def plain_bucket_def Let_def add.commute split: md_entry_type.splits)
qed

lemma deleted_le_length: "deleted sd evs \<le> length evs"
  by (simp add: deleted_def)

lemma calm_snoc:
  assumes "calm_feed (evs @ [ev])"
  shows "\<forall>x \<in> set evs. ev_timestamp_ns x \<le> ev_timestamp_ns ev" "unat (ev_timestamp_ns ev) + unat kBucketNs < 2 ^ 64"
  using assms by (auto simp: calm_feed_def sorted_append)

text \<open>The newest bucket after the clock has moved to a new event, which is still to be counted.\<close>

lemma advance_counts:
  assumes "counted evs c" "calm_feed (evs @ [ev])"
  obtains (found) u m n where "ring_newest (cf_ring (cancel_advance_time (ev_timestamp_ns ev) c)) = plain_bucket (u, m, n)"
    "counts_last (evs @ [ev]) (plain_bucket (u, m + deleted Bid [ev], n + deleted Offer [ev]))"
    "m \<le> 8192" "n \<le> 8192"
proof -
  let ?t = "ev_timestamp_ns ev" and ?c = "cancel_advance_time (ev_timestamp_ns ev) c"
  note calm = calm_snoc [OF assms(2)]
  have fresh: thesis if "ring_newest (cf_ring ?c) = cancel_blank u" "u \<le> ?t" for u
  proof -
    have "counts_last (evs @ [ev]) (plain_bucket (u, 0 + deleted Bid [ev], 0 + deleted Offer [ev]))"
      unfolding counts_last_def using that(2) near_self [of ev]
      by (intro exI [of _ evs] exI [of _ ev] exI [of _ "[]"] exI [of _ u]) simp
    then show thesis using found [of u 0 0] that(1) by (simp add: blank_plain)
  qed
  show thesis
  proof (cases "evs = []")
    case True
    then have "ring_newest (cf_ring ?c) = cancel_blank ?t"
      using assms(1) ring_start_newest [OF kMaxCancelBuckets_pos, of "cf_ring c"]
      by (simp add: counted_def cancel_advance_time_def ring_advance_def)
    then show thesis using fresh by simp
  next
    case False
    then have r: "ring_wf kMaxCancelBuckets (cf_ring c)" "0 < rg_count (cf_ring c)"
      and last: "counts_last evs (ring_newest (cf_ring c))" using assms(1) by (simp_all add: counted_def)
    obtain pre e seg u where e: "evs = pre @ e # seg" "u \<le> ev_timestamp_ns e" "list_all (near (ev_timestamp_ns e)) (e # seg)"
      "ring_newest (cf_ring c) = plain_bucket (u, deleted Bid (e # seg), deleted Offer (e # seg))"
      using last unfolding counts_last_def by blast
    have et: "ev_timestamp_ns e \<le> ?t" using calm(1) e(1) by simp
    then have ut: "u \<le> ?t" using e(2) by simp
    then have nowrap: "unat u + unat kBucketNs < 2 ^ 64" using calm(2) by (simp add: word_le_nat_alt)
    have small: "small_bucket (ring_newest (cf_ring c))"
      using counts_last_small [OF calm_butlast [OF assms(2)] last] .
    consider "?c = c" "?t < u + kBucketNs" | u' where "u' \<le> ?t" "ring_newest (cf_ring ?c) = cancel_blank u'"
      using advance_newest_cases [OF r, of ?t] nowrap ut e(4) by auto
    then show thesis
    proof cases
      case 1
      have "unat ?t < unat u + unat kBucketNs" using 1(2) nowrap by (simp add: word_less_nat_alt unat_word_ariths)
      then have "?t - ev_timestamp_ns e < kBucketNs"
        using et e(2) by (simp add: word_less_nat_alt word_le_nat_alt unat_sub)
      then have "near (ev_timestamp_ns e) ev" using et by (simp add: near_def)
      then have "counts_last (evs @ [ev]) (plain_bucket (u, deleted Bid (e # seg) + deleted Bid [ev],
          deleted Offer (e # seg) + deleted Offer [ev]))"
        unfolding counts_last_def using e(1-3)
        by (intro exI [of _ pre] exI [of _ e] exI [of _ "seg @ [ev]"] exI [of _ u])
          (simp flip: deleted_append)
      moreover have "deleted Bid (e # seg) \<le> 8192" "deleted Offer (e # seg) \<le> 8192"
        using small unfolding e(4) by (auto simp: small_bucket_def plain_bucket_def)
      ultimately show thesis using found 1(1) e(4) by metis
    next
      case 2
      then show thesis using fresh by blast
    qed
  qed
qed

lemma counted_step:
  assumes "counted evs c" "calm_feed (evs @ [ev])"
  shows "counted (evs @ [ev]) (count_delete ev (cancel_advance_time (ev_timestamp_ns ev) c))"
proof -
  let ?c = "cancel_advance_time (ev_timestamp_ns ev) c"
  have r: "ring_wf kMaxCancelBuckets (cf_ring c)" "list_all small_bucket (rg_buckets (cf_ring c))"
    using assms(1) by (simp_all add: counted_def)
  have c: "ring_wf kMaxCancelBuckets (cf_ring ?c)" "list_all small_bucket (rg_buckets (cf_ring ?c))" "0 < rg_count (cf_ring ?c)"
    using r by (simp_all add: cancel_advance_time_def ring_advance_wf ring_advance_all ring_advance_count)
  obtain u m n where b: "ring_newest (cf_ring ?c) = plain_bucket (u, m, n)" "m \<le> 8192" "n \<le> 8192"
    and l: "counts_last (evs @ [ev]) (plain_bucket (u, m + deleted Bid [ev], n + deleted Offer [ev]))"
    using advance_counts [OF assms] by metis
  have "rg_count (ring_set_newest b (cf_ring ?c)) = rg_count (cf_ring ?c)" for b by (simp add: ring_set_newest_def)
  note keep = this
  have "ring_newest (ring_set_newest b (cf_ring ?c)) = b" for b
    using c(1) by (simp add: ring_newest_def ring_set_newest_def ring_wf_def)
  then show ?thesis
    unfolding counted_def count_delete_plain [OF c(1) b]
    using l c counts_last_small [OF assms(2) l] by (simp add: ring_set_newest_wf ring_set_newest_all keep)
qed

text \<open>Scores of such a ring.\<close>

lemma small_window:
  assumes "list_all small_bucket bs" "bs \<noteq> []" "length bs \<le> 200"
  obtains xs where "bs = map plain_bucket xs" "counts_ok (map (\<lambda>(t, m, n). int m) xs)" "counts_ok (map (\<lambda>(t, m, n). int n) xs)"
proof -
  have "\<forall>b \<in> set bs. \<exists>x. b = plain_bucket x \<and> fst (snd x) \<le> 8192 \<and> snd (snd x) \<le> 8192"
    using assms(1) by (fastforce simp: list_all_iff small_bucket_def)
  then obtain f where f: "\<forall>b \<in> set bs. b = plain_bucket (f b) \<and> fst (snd (f b)) \<le> 8192 \<and> snd (snd (f b)) \<le> 8192" by metis
  show thesis
  proof (rule that [of "map f bs"])
    show "bs = map plain_bucket (map f bs)" using f by (simp add: map_idI)
  qed (use f assms(2,3) in \<open>auto simp: counts_ok_def case_prod_unfold\<close>)
qed

lemma sums_of_plain:
  assumes "counts_ok (map (\<lambda>(t, m, n). int m) xs)" "counts_ok (map (\<lambda>(t, m, n). int n) xs)"
  defines "ms \<equiv> map (\<lambda>(t, m, n). int m) xs" and "ns \<equiv> map (\<lambda>(t, m, n). int n) xs"
  shows "sums_of (map plain_bucket xs) = \<lparr> ws_sum_bid = f64_of_int (sum_list ms), ws_sum_ask = f64_of_int (sum_list ns),
      ws_sq_bid = f64_of_int (sum_squares ms), ws_sq_ask = f64_of_int (sum_squares ns), ws_n = length xs \<rparr>"
proof -
  let ?p = "\<lambda>(t, m, n). int m" and ?q = "\<lambda>(t, m, n). int n"
  have bound: "0 \<le> sum_list cs \<and> sum_list cs \<le> 2 ^ 53 \<and> 0 \<le> sum_squares cs \<and> sum_squares cs \<le> 2 ^ 53" if "counts_ok cs" for cs
    using counts_ok_sums [OF that] counts_ok_length [OF that] by auto
  have sq: "sum_squares ms = sum_list (map (\<lambda>j. ?p j * ?p j) xs)" "sum_squares ns = sum_list (map (\<lambda>j. ?q j * ?q j) xs)"
    by (simp_all add: ms_def ns_def comp_def case_prod_unfold)
  note bm = bound [OF assms(1), folded ms_def] and bn = bound [OF assms(2), folded ns_def]
  have "foldl add_sample \<lparr> ws_sum_bid = Fin (of_int 0), ws_sum_ask = Fin (of_int 0), ws_sq_bid = Fin (of_int 0),
         ws_sq_ask = Fin (of_int 0), ws_n = 0 \<rparr> (map plain_bucket xs)
    = \<lparr> ws_sum_bid = Fin (of_int (0 + sum_list (map ?p xs))), ws_sum_ask = Fin (of_int (0 + sum_list (map ?q xs))),
        ws_sq_bid = Fin (of_int (0 + sum_list (map (\<lambda>j. ?p j * ?p j) xs))),
        ws_sq_ask = Fin (of_int (0 + sum_list (map (\<lambda>j. ?q j * ?q j) xs))), ws_n = 0 + length xs \<rparr>"
    using bm bn unfolding sq unfolding ms_def ns_def
    by (intro foldl_add_sample) (auto simp: plain_bucket_def)
  moreover have "f64_of_int (sum_list ms) = Fin (of_int (sum_list ms))" "f64_of_int (sum_list ns) = Fin (of_int (sum_list ns))"
    "f64_of_int (sum_squares ms) = Fin (of_int (sum_squares ms))" "f64_of_int (sum_squares ns) = Fin (of_int (sum_squares ns))"
    using bm bn by (intro f64_of_int_exact; simp)+
  ultimately show ?thesis unfolding sums_of_def sq by (simp add: ms_def ns_def zero_f64_def)
qed

definition scores_small :: "cancel_factor \<Rightarrow> bool" where
  "scores_small c \<longleftrightarrow> in_range (- pow2 24) (pow2 24) (cf_z_bid c) \<and> in_range (- pow2 24) (pow2 24) (cf_z_ask c)"

lemma recompute_small:
  assumes "counted evs c" "scores_small c"
  shows "scores_small (recompute_zscores c)"
proof (cases "rg_count (cf_ring c) < 2 \<or> length (window_of c) < 2")
  case True
  then show ?thesis using assms(2) by (simp add: recompute_cases)
next
  case False
  let ?w = "window_of c"
  have wf: "ring_wf kMaxCancelBuckets (cf_ring c)" and small: "list_all small_bucket (rg_buckets (cf_ring c))"
    using assms(1) by (simp_all add: counted_def)
  have sub: "set ?w \<subseteq> set (ring_list kMaxCancelBuckets (cf_ring c))" using set_takeWhileD by (fastforce simp: window_of_def)
  have "length ?w \<le> rg_count (cf_ring c)" using length_takeWhile_le by (metis length_ring_list window_of_def)
  then have len: "length ?w \<le> 200" using wf by (simp add: ring_wf_def kMaxCancelBuckets_def)
  have ne: "?w \<noteq> []" using False by auto
  have all: "list_all small_bucket ?w" using sub ring_list_in_buckets [OF wf] small by (auto simp: list_all_iff)
  obtain xs where w: "?w = map plain_bucket xs" and ok: "counts_ok (map (\<lambda>(t, m, n). int m) xs)" "counts_ok (map (\<lambda>(t, m, n). int n) xs)"
    by (rule small_window [OF all ne len])
  have "xs \<noteq> []" using ne w by auto
  then have hd: "plain_bucket (hd xs) = ring_newest (cf_ring c)"
  proof -
    have "hd ?w = hd (ring_list kMaxCancelBuckets (cf_ring c))" "ring_list kMaxCancelBuckets (cf_ring c) \<noteq> []"
      using ne unfolding window_of_def by (cases "ring_list kMaxCancelBuckets (cf_ring c)"; auto split: if_splits)+
    then show ?thesis using ring_newest_hd [OF wf] w \<open>xs \<noteq> []\<close> by (simp add: hd_map)
  qed
  have n: "cb_bid_cancels (ring_newest (cf_ring c)) = f64_of_int (hd (map (\<lambda>(t, m, n). int m) xs))"
    "cb_ask_cancels (ring_newest (cf_ring c)) = f64_of_int (hd (map (\<lambda>(t, m, n). int n) xs))"
    unfolding hd [symmetric] using \<open>xs \<noteq> []\<close> counts_ok_hd [OF ok(1)] counts_ok_hd [OF ok(2)]
    by (auto simp: plain_bucket_def hd_map case_prod_unfold f64_of_int_exact)
  note sums_of_plain [OF ok, folded w]
  then have "cf_z_bid (recompute_zscores c) = z_of_counts (map (\<lambda>(t, m, n). int m) xs)"
    "cf_z_ask (recompute_zscores c) = z_of_counts (map (\<lambda>(t, m, n). int n) xs)"
    unfolding recompute_cases if_not_P [OF False] Let_def z_of_counts_def n
    by (simp_all add: case_prod_unfold w)
  then show ?thesis using score_bounded [OF ok(1)] score_bounded [OF ok(2)] by (simp add: scores_small_def)
qed

lemma calm_scores_bounded:
  "calm_feed evs \<Longrightarrow> counted evs (cancel_feed cancel_new evs) \<and> scores_small (cancel_feed cancel_new evs)"
proof (induction evs rule: rev_induct)
  case Nil
  have "list_all small_bucket (rg_buckets cancel_ring_empty)" by (simp add: cancel_ring_empty_def list_all_iff)
  then show ?case by (simp add: cancel_feed_def cancel_new_def counted_def scores_small_def zero_f64_def)
next
  case (snoc ev evs)
  let ?c = "count_delete ev (cancel_advance_time (ev_timestamp_ns ev) (cancel_feed cancel_new evs))"
  note IH = snoc.IH [OF calm_butlast [OF snoc.prems]]
  have "counted (evs @ [ev]) ?c" using counted_step snoc.prems IH by blast
  moreover have "scores_small ?c"
    using IH by (simp add: scores_small_def cancel_advance_time_def count_delete_def Let_def split: md_entry_type.splits)
  ultimately show ?case
    using recompute_small [of "evs @ [ev]" ?c] by (simp add: cancel_feed_snoc cancel_on_event_def counted_def)
qed

end
