(* ===== verification/Signal_Engine.thy ===== *)
theory Signal_Engine
  imports Order_Book Delta_Factor Cancel_Factor
begin

text \<open>
  \<open>SignalEngine\<close> (\<open>include/smartquant/alpha/signal_engine.hpp\<close>,
  \<open>src/alpha/signal_engine.cpp\<close>): feeds both factors, and fires when the imbalance
  acceleration and the cancellation score of the opposite side both pass their thresholds.
\<close>

section \<open>State and operations\<close>

record signal_engine =
  se_delta :: delta_factor
  se_cancel :: cancel_factor
  se_thresh_delta :: f64
  se_min_cancel_z :: f64
  se_last_signal :: signal

definition signal_engine_new :: "f64 \<Rightarrow> f64 \<Rightarrow> signal_engine" where
  "signal_engine_new thresh_delta min_cancel_z =
     \<lparr> se_delta = delta_default, se_cancel = cancel_new, se_thresh_delta = thresh_delta,
       se_min_cancel_z = min_cancel_z, se_last_signal = signal_default \<rparr>"

definition signal_engine_default :: signal_engine where
  "signal_engine_default = signal_engine_new (Fin 50) (Fin (3 / 2))"

definition set_thresh_delta :: "f64 \<Rightarrow> signal_engine \<Rightarrow> signal_engine" where
  "set_thresh_delta v e = e\<lparr>se_thresh_delta := v\<rparr>"

definition set_min_cancel_z :: "f64 \<Rightarrow> signal_engine \<Rightarrow> signal_engine" where
  "set_min_cancel_z v e = e\<lparr>se_min_cancel_z := v\<rparr>"

definition signal_reset :: "signal_engine \<Rightarrow> signal_engine" where
  "signal_reset e = e\<lparr>se_delta := delta_reset (se_delta e), se_cancel := cancel_reset (se_cancel e),
     se_last_signal := signal_default\<rparr>"

definition feed_factors :: "signal_engine \<Rightarrow> lob_event \<Rightarrow> order_book \<Rightarrow> signal_engine" where
  "feed_factors e ev book =
     (let bid = best_bid book; ask = best_ask book;
          d = (if 0 < bid \<and> 0 < ask then set_midprice (c_div (i64 (bid + ask)) 2) (se_delta e)
               else se_delta e)
      in e\<lparr>se_delta := delta_on_event ev d, se_cancel := cancel_on_event ev (se_cancel e)\<rparr>)"

definition signal_direction :: "signal_engine \<Rightarrow> direction" where
  "signal_direction e =
     (let thresh_cancel = std_max (se_min_cancel_z e) (dynamic_threshold (se_cancel e));
          a_delta = df_acceleration (se_delta e);
          z_b = cf_z_bid (se_cancel e); z_a = cf_z_ask (se_cancel e)
      in if se_thresh_delta e < a_delta \<and> thresh_cancel < z_a then DirBuy
         else if a_delta < - se_thresh_delta e \<and> thresh_cancel < z_b then DirSell
         else DirNone)"

definition signal_on_event :: "signal_engine \<Rightarrow> lob_event \<Rightarrow> order_book \<Rightarrow> signal_engine \<times> bool" where
  "signal_on_event e0 ev book =
     (let bid = best_bid book; ask = best_ask book;
          e = feed_factors e0 ev book;
          dir = signal_direction e
      in if dir = DirNone then (e, False)
         else (e\<lparr>se_last_signal :=
                 \<lparr> sig_trigger_time_ns = ev_timestamp_ns ev,
                   sig_l1_price = (if dir = DirBuy then ask else bid),
                   sig_delta_val = df_acceleration (se_delta e),
                   sig_cancel_z = (if dir = DirBuy then cf_z_ask (se_cancel e) else cf_z_bid (se_cancel e)),
                   sig_direction = dir \<rparr>\<rparr>, True))"

section \<open>When a signal fires\<close>

lemma std_max_less: "std_max a b < x \<Longrightarrow> a \<noteq> NaN \<Longrightarrow> b \<noteq> NaN \<Longrightarrow> a < x \<and> b < x"
  using f64_le_less_trans f64_not_less [of b a] f64_less_trans by (auto simp: std_max_def split: if_splits)

lemma feed_factors_params [simp]:
  "se_thresh_delta (feed_factors e ev book) = se_thresh_delta e"
  "se_min_cancel_z (feed_factors e ev book) = se_min_cancel_z e"
  "se_last_signal (feed_factors e ev book) = se_last_signal e"
  by (simp_all add: feed_factors_def Let_def)

text \<open>
  C23: A signal is reported exactly when, after both factors have seen the event, one of the
  two conditions of the strategy holds (buying first); the recorded signal carries the event's
  time, the best price of the side it would trade at, and the values that passed, each
  strictly above the imbalance threshold and above both the static and the adaptive
  cancellation threshold; without a signal the last one is kept.
\<close>

theorem signal_fires_iff:
  assumes "signal_on_event e0 ev book = (e, fired)" and "se_min_cancel_z e0 \<noteq> NaN"
    and "dynamic_threshold (se_cancel e) \<noteq> NaN"
  shows "let a = df_acceleration (se_delta e); th = std_max (se_min_cancel_z e0) (dynamic_threshold (se_cancel e));
      buy = (se_thresh_delta e0 < a \<and> th < cf_z_ask (se_cancel e));
      sell = (a < - se_thresh_delta e0 \<and> th < cf_z_bid (se_cancel e)); s = se_last_signal e
    in (fired \<longleftrightarrow> buy \<or> sell) \<and> (\<not> fired \<longrightarrow> s = se_last_signal e0) \<and>
       (fired \<longrightarrow> sig_trigger_time_ns s = ev_timestamp_ns ev \<and> sig_delta_val s = a \<and>
          sig_direction s = (if buy then DirBuy else DirSell) \<and>
          sig_l1_price s = (if buy then best_ask book else best_bid book) \<and>
          se_min_cancel_z e0 < sig_cancel_z s \<and> dynamic_threshold (se_cancel e) < sig_cancel_z s)"
proof -
  let ?e = "feed_factors e0 ev book"
  have same: "se_cancel e = se_cancel ?e" "se_delta e = se_delta ?e"
    using assms(1) by (auto simp: signal_on_event_def Let_def split: if_splits)
  note mx = std_max_less [OF _ assms(2,3)]
  let ?th = "std_max (se_min_cancel_z e0) (dynamic_threshold (se_cancel ?e))"
  let ?buy = "se_thresh_delta e0 < df_acceleration (se_delta ?e) \<and> ?th < cf_z_ask (se_cancel ?e)"
  let ?sell = "df_acceleration (se_delta ?e) < - se_thresh_delta e0 \<and> ?th < cf_z_bid (se_cancel ?e)"
  have dir: "signal_direction ?e = (if ?buy then DirBuy else if ?sell then DirSell else DirNone)"
    by (simp add: signal_direction_def Let_def)
  consider (buy) "?buy" | (sell) "\<not> ?buy" "?sell" | (none) "\<not> ?buy" "\<not> ?sell" by blast
  then show ?thesis
  proof cases
    case buy
    have d: "signal_direction ?e = DirBuy" unfolding dir using buy by (rule if_P)
    have "se_min_cancel_z e0 < cf_z_ask (se_cancel ?e)" "dynamic_threshold (se_cancel ?e) < cf_z_ask (se_cancel ?e)"
      using mx [of "cf_z_ask (se_cancel ?e)"] buy by (simp_all only: same)
    then show ?thesis using assms(1) buy d unfolding Let_def same
      by (auto simp: signal_on_event_def Let_def)
  next
    case sell
    have d: "signal_direction ?e = DirSell"
      unfolding dir if_not_P [OF sell(1)] using sell(2) by (rule if_P)
    have "se_min_cancel_z e0 < cf_z_bid (se_cancel ?e)" "dynamic_threshold (se_cancel ?e) < cf_z_bid (se_cancel ?e)"
      using mx [of "cf_z_bid (se_cancel ?e)"] sell by (simp_all only: same)
    then show ?thesis using assms(1) sell d unfolding Let_def same
      by (auto simp: signal_on_event_def Let_def)
  next
    case none
    have d: "signal_direction ?e = DirNone"
      unfolding dir if_not_P [OF none(1)] if_not_P [OF none(2)] by (rule refl)
    then show ?thesis using assms(1) none unfolding Let_def same
      by (auto simp: signal_on_event_def Let_def)
  qed
qed

section \<open>Signals on an empty side\<close>

text \<open>A stream of events with the book the engine sees at each.\<close>

fun signal_feed :: "signal_engine \<Rightarrow> (lob_event \<times> order_book) list \<Rightarrow> signal_engine" where
  "signal_feed e [] = e"
| "signal_feed e (x # xs) = signal_feed (fst (signal_on_event e (fst x) (snd x))) xs"

lemma signal_on_event_factors:
  "se_delta (fst (signal_on_event e ev book)) = se_delta (feed_factors e ev book)"
  "se_cancel (fst (signal_on_event e ev book)) = se_cancel (feed_factors e ev book)"
  "se_thresh_delta (fst (signal_on_event e ev book)) = se_thresh_delta e"
  "se_min_cancel_z (fst (signal_on_event e ev book)) = se_min_cancel_z e"
  by (simp_all add: signal_on_event_def Let_def)

text \<open>The cancellation factor of the engine sees exactly the events.\<close>

lemma signal_feed_cancel:
  "se_cancel (signal_feed e xs) = cancel_feed (se_cancel e) (map fst xs)"
  by (induction xs arbitrary: e) (simp_all add: signal_on_event_factors feed_factors_def Let_def cancel_feed_def)

text \<open>With an empty book the midprice stays unset, and the imbalance factor sees the plain events.\<close>

lemma best_empty: "best_bid book_empty = 0" "best_ask book_empty = 0"
  by (simp_all add: best_bid_def best_ask_def book_empty_def smap_first_def smap_last_def)

lemma set_midprice_same: "df_midprice d = 0 \<Longrightarrow> set_midprice 0 d = d"
  by (simp add: set_midprice_def)

lemma signal_feed_delta:
  "df_midprice (se_delta e) = 0 \<Longrightarrow>
     se_delta (signal_feed e (map (\<lambda>ev. (ev, book_empty)) evs)) = delta_feed (se_delta e) (map (Pair 0) evs)"
proof (induction evs arbitrary: e)
  case (Cons ev evs)
  have d: "se_delta (fst (signal_on_event e ev book_empty)) = delta_on_event ev (se_delta e)"
    by (simp add: signal_on_event_factors feed_factors_def best_empty)
  then show ?case
    using Cons.IH [of "fst (signal_on_event e ev book_empty)"] Cons.prems
    by (simp add: delta_feed_def set_midprice_same)
qed (simp add: delta_feed_def)

text \<open>
  A feed that sells with no bid in the book: a trade in the second bucket makes the
  acceleration negative, a cancelled bid makes the score 1.
\<close>

definition quiet :: lob_event where "quiet = trade_at 1000000000 200000 0"
definition burst :: lob_event where "burst = trade_at 1010000000 200000 5"
definition collapse :: lob_event where "collapse = delete_at 1012000000 Bid"

definition sample_engine :: signal_engine where
  "sample_engine = signal_feed (signal_engine_new (Fin 1) (Fin (1 / 2))) [(quiet, book_empty), (burst, book_empty)]"

lemmas sample_event_defs = quiet_def burst_def collapse_def trade_at_def delete_at_def

lemma sample_net:
  "df_net_delta (delta_feed delta_default [(0, quiet)]) = Fin 0"
  "df_net_delta (delta_feed delta_default [(0, quiet), (0, burst)]) = Fin 5"
  "df_net_delta (delta_feed delta_default [(0, quiet), (0, burst), (0, collapse)]) = Fin 5"
proof -
  have n: "df_num_buckets delta_default = 11" using delta_default_timing(2) by (simp add: default_timing_def)
  note calc = sample_event_defs paced_def time_of_def grid_index_def buy_of_def sell_of_def
    kDefaultBucketNs_def kDefaultWindowNs_def kMaxDeltaBuckets_def window_imbalance_def
  show "df_net_delta (delta_feed delta_default [(0, quiet)]) = Fin 0"
    using window_imbalance_exact [OF delta_default_timing(1), of "[(0, quiet)]"] n by (simp add: calc)
  show "df_net_delta (delta_feed delta_default [(0, quiet), (0, burst)]) = Fin 5"
    using window_imbalance_exact [OF delta_default_timing(1), of "[(0, quiet), (0, burst)]"] n by (simp add: calc)
  show "df_net_delta (delta_feed delta_default [(0, quiet), (0, burst), (0, collapse)]) = Fin 5"
    using window_imbalance_exact [OF delta_default_timing(1), of "[(0, quiet), (0, burst), (0, collapse)]"] n
    by (simp add: calc)
qed

lemma sample_acceleration:
  "df_acceleration (delta_feed delta_default [(0, quiet), (0, burst), (0, collapse)]) = Fin (- 5)"
proof -
  let ?d1 = "delta_feed delta_default [(0, quiet)]" and ?d2 = "delta_feed delta_default [(0, quiet), (0, burst)]"
  have d: "delta_feed delta_default [(0, quiet), (0, burst), (0, collapse)]
        = delta_on_event collapse (set_midprice 0 ?d2)"
     "?d2 = delta_on_event burst (set_midprice 0 ?d1)"
    by (simp_all add: delta_feed_def)
  have p: "df_prev_delta (set_midprice 0 ?d2) = df_net_delta ?d1"
    by (subst d(2)) (simp add: set_midprice_def delta_on_event_shift)
  have n: "df_net_delta (set_midprice 0 ?d2) = Fin 5" by (simp add: set_midprice_def sample_net)
  have "Fin 5 - Fin 2 * Fin 5 + Fin 0 = Fin (- 5)"
    using f64_mult_int [of 2 5] f64_sub_int [of 5 10] f64_add_int [of "- 5" 0] by simp
  then show ?thesis
    using delta_on_event_shift(3) [of collapse "set_midprice 0 ?d2"] sample_net(1,3) p n d(1) by simp
qed

lemma z_of_two: "z_of_counts [1, 0] = Fin 1" "z_of_counts [0, 0] = Fin 0"
proof -
  have f: "is_f53 (1 / 2)" "is_f53 (1 / 4)"
    using is_f53_dyadic [of 1 "- 1"] is_f53_dyadic [of 1 "- 2"] by (simp_all add: pow2_def)
  have r: "rnd (1 / 2) = 1 / 2" "rnd (1 / 4) = 1 / 4" "rnd 1 = 1" using rnd_f53 [OF f(1)] rnd_f53 [OF f(2)] by simp_all
  have h: "round64 (1 / 2) = Fin (1 / 2)" "round64 (1 / 4) = Fin (1 / 4)"
    using round64_small [of "1 / 2"] round64_small [of "1 / 4"] r by simp_all
  then show "z_of_counts [1, 0] = Fin 1"
    using f64_sqrt_quarter
    by (simp del: f64_sqrt.simps add: z_of_counts_def z_score_def Let_def minus_f64_def zero_f64_def)
  show "z_of_counts [0, 0] = Fin 0" by (rule steady_score) simp_all
qed

lemma sample_engine_parts:
  "se_delta sample_engine = delta_feed delta_default [(0, quiet), (0, burst)]"
  "se_cancel sample_engine = cancel_feed cancel_new [quiet, burst]"
  "se_thresh_delta sample_engine = Fin 1" "se_min_cancel_z sample_engine = Fin (1 / 2)"
proof -
  have m: "df_midprice (se_delta (signal_engine_new a b)) = 0" for a b
    using delta_new_params [OF delta_default_timing(1)] by (simp add: signal_engine_new_def)
  show "se_delta sample_engine = delta_feed delta_default [(0, quiet), (0, burst)]"
    using signal_feed_delta [OF m, of "Fin 1" "Fin (1 / 2)" "[quiet, burst]"]
    by (simp add: sample_engine_def) (simp add: signal_engine_new_def)
  show "se_cancel sample_engine = cancel_feed cancel_new [quiet, burst]"
    using signal_feed_cancel [of "signal_engine_new (Fin 1) (Fin (1 / 2))" "[(quiet, book_empty), (burst, book_empty)]"]
    by (simp add: sample_engine_def) (simp add: signal_engine_new_def)
qed (simp_all add: sample_engine_def signal_on_event_factors, simp_all add: signal_engine_new_def)

lemma sample_paced: "paced_feed [quiet, burst]" "paced_feed [quiet, burst, collapse]"
    "last_bucket [quiet, burst] = 1" "last_bucket [quiet, burst, collapse] = 1"
  by (simp_all add: sample_event_defs paced_feed_def paced_def grid_index_def last_bucket_def kBucketNs_def
      kMaxCancelBuckets_def)

lemma sample_window_counts:
  "window_counts Bid [quiet, burst] = [0, 0]" "window_counts Offer [quiet, burst] = [0, 0]"
  "window_counts Bid [quiet, burst, collapse] = [1, 0]" "window_counts Offer [quiet, burst, collapse] = [0, 0]"
  unfolding window_counts_def sample_paced
  by (simp_all add: sample_event_defs deletes_in_def bucket_total_def deletes_def grid_index_def kBucketNs_def
      upt_conv_Cons)

lemma sample_scores:
  "cf_z_bid (cancel_feed cancel_new [quiet, burst, collapse]) = Fin 1"
  "cf_z_ask (cancel_feed cancel_new [quiet, burst, collapse]) = Fin 0"
  "cf_recent_z_bid (cancel_feed cancel_new [quiet, burst, collapse]) = [Fin 0, Fin 1]"
  "cf_recent_z_ask (cancel_feed cancel_new [quiet, burst, collapse]) = [Fin 0, Fin 0]"
proof -
  have z2: "cf_z_bid (cancel_feed cancel_new [quiet, burst]) = Fin 0" "cf_z_ask (cancel_feed cancel_new [quiet, burst]) = Fin 0"
    using window_scores_exact [of "[quiet, burst]"] sample_paced by (simp_all add: sample_window_counts z_of_two)
  show z3: "cf_z_bid (cancel_feed cancel_new [quiet, burst, collapse]) = Fin 1"
    "cf_z_ask (cancel_feed cancel_new [quiet, burst, collapse]) = Fin 0"
    using window_scores_exact [of "[quiet, burst, collapse]"] sample_paced
    by (simp_all add: sample_window_counts z_of_two)
  have first: "cf_recent_z_bid (cancel_feed cancel_new [quiet]) = []" "cf_recent_z_ask (cancel_feed cancel_new [quiet]) = []"
  proof -
    let ?c = "count_delete quiet (cancel_advance_time (ev_timestamp_ns quiet) cancel_new)"
    have "rg_count (cf_ring ?c) = 1"
      by (simp add: count_delete_keeps cancel_advance_time_def cancel_new_def ring_advance_def ring_start_def)
    then have "cancel_feed cancel_new [quiet] = ?c"
      by (simp add: cancel_feed_def cancel_on_event_def recompute_cases)
    then show "cf_recent_z_bid (cancel_feed cancel_new [quiet]) = []" "cf_recent_z_ask (cancel_feed cancel_new [quiet]) = []"
      by (simp_all add: count_delete_keeps cancel_advance_time_def) (simp_all add: cancel_new_def)
  qed
  have t: "unat (ev_timestamp_ns burst) < 30000000000" "unat (ev_timestamp_ns collapse) < 30000000000"
    by (simp_all add: sample_event_defs)
  have second: "cf_recent_z_bid (cancel_feed cancel_new [quiet, burst]) = [Fin 0]"
    "cf_recent_z_ask (cancel_feed cancel_new [quiet, burst]) = [Fin 0]"
    using cancel_event_records [of "[quiet]" burst] sample_paced t first z2 by (simp_all add: Let_def)
  show "cf_recent_z_bid (cancel_feed cancel_new [quiet, burst, collapse]) = [Fin 0, Fin 1]"
    "cf_recent_z_ask (cancel_feed cancel_new [quiet, burst, collapse]) = [Fin 0, Fin 0]"
    using cancel_event_records [of "[quiet, burst]" collapse] sample_paced t second z3 by (simp_all add: Let_def)
qed

lemma sample_threshold: "dynamic_threshold (cancel_feed cancel_new [quiet, burst, collapse]) = Fin 0"
proof -
  have "combined_scores (cancel_feed cancel_new [quiet, burst, collapse]) = [Fin 0, Fin 1]"
    by (simp add: combined_scores_def sample_scores std_max_def upt_conv_Cons)
  moreover have "f64_sort [Fin 0, Fin 1] = [Fin 0, Fin 1]" by (simp add: f64_sort_def)
  ultimately show ?thesis using quantile_index_2
    by (simp add: dynamic_threshold_def sample_scores Let_def numeral_2_eq_2)
qed

text \<open>The third event sells, at price 0.\<close>

lemma sample_fires:
  "\<exists>e. signal_on_event sample_engine collapse book_empty = (e, True) \<and>
     sig_direction (se_last_signal e) = DirSell \<and> sig_l1_price (se_last_signal e) = 0"
proof -
  let ?e = "feed_factors sample_engine collapse book_empty"
  have m: "df_midprice (delta_feed delta_default [(0, quiet), (0, burst)]) = 0"
    by (simp add: delta_feed_def set_midprice_def)
  have "se_delta ?e = delta_feed delta_default [(0, quiet), (0, burst), (0, collapse)]"
    using delta_feed_snoc [of delta_default "[(0, quiet), (0, burst)]" "(0, collapse)"] set_midprice_same [OF m]
    by (simp add: feed_factors_def best_empty sample_engine_parts)
  moreover have "se_cancel ?e = cancel_feed cancel_new [quiet, burst, collapse]"
    using cancel_feed_snoc [of cancel_new "[quiet, burst]" collapse]
    by (simp add: feed_factors_def sample_engine_parts Let_def)
  ultimately have "signal_direction ?e = DirSell"
    by (simp add: signal_direction_def sample_engine_parts sample_acceleration sample_scores sample_threshold
        std_max_def Let_def)
  then show ?thesis by (simp add: signal_on_event_def best_empty Let_def)
qed

section \<open>Witness\<close>

theorem signal_fires_iff_witness:
  "sig_delta_val (se_last_signal (fst (signal_on_event sample_engine collapse book_empty)))
     = df_acceleration (se_delta (fst (signal_on_event sample_engine collapse book_empty))) \<and>
   Fin (1 / 2) < sig_cancel_z (se_last_signal (fst (signal_on_event sample_engine collapse book_empty)))"
proof -
  obtain e where e: "signal_on_event sample_engine collapse book_empty = (e, True)" using sample_fires by blast
  have "se_cancel e = cancel_feed cancel_new [quiet, burst, collapse]"
    using signal_on_event_factors(2) [of sample_engine collapse book_empty] cancel_feed_snoc [of cancel_new "[quiet, burst]" collapse]
    by (simp add: e feed_factors_def sample_engine_parts Let_def)
  then show ?thesis
    using signal_fires_iff [OF e] sample_threshold by (simp add: sample_engine_parts e Let_def)
qed

end
