(* ===== verification/Fix_Md_Gateway.thy ===== *)
theory Fix_Md_Gateway
  imports Fix_Message Order_Book Spsc_Queue "HOL-Library.Sublist"
begin

text \<open>
  \<open>FixMdGateway\<close> (\<open>include/smartquant/md/fix_md_gateway.hpp\<close>, \<open>src/md/fix_md_gateway.cpp\<close>):
  the market-data session.  A handler returns the new state, what it put out (events given
  to \<open>LobEventLogger\<close>, callbacks of its order book, requests, reject reports) and, where a
  QuickFIX exception leaves it, the exception: the state and the outputs up to that point
  stay.  \<open>LobEventLogger\<close> and QuickFIX are not among the sources; the log is the list of the
  events written.
\<close>

section \<open>State\<close>

definition kMdQueueCapacity :: u64 where
  "kMdQueueCapacity = push_bit 14 1"

record gateway =
  gw_queue :: "lob_event spsc option"
  gw_book :: order_book
  gw_target_sub_id :: string
  gw_sender_sub_id :: string
  gw_symbol_id :: string
  gw_symbol_name :: string
  gw_session_id :: string
  gw_subscribed :: bool
  gw_logon_time :: int
  gw_auth_failed :: bool

datatype md_output =
    LogWrite lob_event
  | BookCall book_call
  | MdRequest fix_message string
  | MdRejected string string

type_synonym md_result = "gateway \<times> md_output list \<times> fix_error option"

text \<open>
  Construction: \<open>first\<close> is the dictionary of the first session of the settings, \<open>None\<close> when
  there is no session or reading it throws.  An absent setting keeps the initial value.
\<close>

definition gateway_new :: "dictionary option \<Rightarrow> lob_event spsc option \<Rightarrow> gateway" where
  "gateway_new first queue =
     (let d = (case first of None \<Rightarrow> Map.empty | Some d \<Rightarrow> d);
          setting = (\<lambda>key initial. case d key of None \<Rightarrow> initial | Some v \<Rightarrow> v)
      in \<lparr> gw_queue = queue, gw_book = book_empty,
           gw_target_sub_id = setting ''TargetSubID'' [],
           gw_sender_sub_id = setting ''SenderSubID'' [],
           gw_symbol_id = setting ''SymbolID'' [],
           gw_symbol_name = setting ''SymbolName'' ''XAUUSD'',
           gw_session_id = [], gw_subscribed = False, gw_logon_time = 0, gw_auth_failed = False \<rparr>)"

section \<open>Session handlers\<close>

definition stamp_sub_ids :: "gateway \<Rightarrow> fix_message \<Rightarrow> fix_message" where
  "stamp_sub_ids g m =
     (let m = (if gw_target_sub_id g \<noteq> [] then set_header 57 (gw_target_sub_id g) m else m)
      in if gw_sender_sub_id g \<noteq> [] then set_header 50 (gw_sender_sub_id g) m else m)"

definition md_toAdmin :: "gateway \<Rightarrow> dictionary option \<Rightarrow> fix_message \<Rightarrow> fix_error + fix_message" where
  "md_toAdmin g dict m0 =
     (let m = stamp_sub_ids g m0
      in case get_string (msg_header m) 35 of
           Inl e \<Rightarrow> Inl e
         | Inr ty \<Rightarrow> Inr (if ty \<noteq> ''A'' then m else add_credentials dict m))"

definition md_toApp :: "gateway \<Rightarrow> fix_message \<Rightarrow> fix_message" where
  "md_toApp g m = stamp_sub_ids g m"

definition subscription_request :: "gateway \<Rightarrow> fix_message" where
  "subscription_request g =
     (let req = fix_new ''V'';
          req = set_body 262 (gw_symbol_name g @ ''_SUB_1'') req;
          req = set_body 263 ''1'' req;
          req = set_body 264 ''0'' req;
          req = set_body 265 ''1'' req;
          req = add_group 267 [269 \<mapsto> ''0''] req;
          req = add_group 267 [269 \<mapsto> ''1''] req;
          req = add_group 267 [269 \<mapsto> ''2''] req
      in add_group 146 [55 \<mapsto> gw_symbol_id g] req)"

text \<open>\<open>sendToTarget\<close> may throw; the flag is then not set.  The last component says that it threw.\<close>

definition subscribe_market_data ::
  "send_result \<Rightarrow> string \<Rightarrow> gateway \<Rightarrow> gateway \<times> md_output list \<times> bool" where
  "subscribe_market_data net sid g =
     (if gw_subscribed g then (g, [], False)
      else if gw_symbol_id g = [] then (g, [], False)
      else case net of
             SendNoSession \<Rightarrow> (g, [], True)
           | SendQueued _ \<Rightarrow> (g\<lparr>gw_subscribed := True\<rparr>, [MdRequest (subscription_request g) sid], False))"

definition md_onLogon ::
  "send_result \<Rightarrow> string \<Rightarrow> int \<Rightarrow> gateway \<Rightarrow> gateway \<times> md_output list \<times> bool" where
  "md_onLogon net sid steady_ns g =
     subscribe_market_data net sid
       (g\<lparr>gw_session_id := sid, gw_auth_failed := False, gw_logon_time := steady_ns\<rparr>)"

definition md_onLogout :: "int \<Rightarrow> gateway \<Rightarrow> gateway" where
  "md_onLogout steady_ns g =
     (if gw_logon_time g \<noteq> 0 \<and> c_div (steady_ns - gw_logon_time g) 1000000 < 3000
      then g\<lparr>gw_auth_failed := True\<rparr>
      else g\<lparr>gw_subscribed := False\<rparr>)"

text \<open>\<open>reason.find(s) != npos\<close> is \<open>sublist s reason\<close>: a contiguous part.\<close>

definition logout_is_auth :: "string \<Rightarrow> bool" where
  "logout_is_auth reason \<longleftrightarrow>
     list_ex (\<lambda>s. sublist s reason)
       [''Invalid'', ''credential'', ''Unauthori'', ''password'', ''Password'', ''Username'', ''Login'']"

definition logout_is_subid :: "string \<Rightarrow> bool" where
  "logout_is_subid reason \<longleftrightarrow>
     list_ex (\<lambda>s. sublist s reason) [''TargetSubID'', ''SenderSubID'']"

definition md_fromAdmin :: "fix_message \<Rightarrow> gateway \<Rightarrow> gateway \<times> fix_error option" where
  "md_fromAdmin m g =
     (case get_string (msg_header m) 35 of
        Inl e \<Rightarrow> (g, Some e)
      | Inr ty \<Rightarrow>
          if ty \<noteq> ''5'' then (g, None)
          else (case msg_body m 58 of
                  None \<Rightarrow> (g, None)
                | Some reason \<Rightarrow>
                    (if logout_is_auth reason then g\<lparr>gw_auth_failed := True\<rparr>
                     else if logout_is_subid reason then g\<lparr>gw_auth_failed := True\<rparr>
                     else g, None)))"

section \<open>Reading entries\<close>

datatype entry_result = EntryError fix_error | EntrySkip | EntryEvent lob_event

text \<open>\<open>LOBEvent ev{}\<close> with its time stamp and action.\<close>

definition blank_event :: "u64 \<Rightarrow> md_update_action \<Rightarrow> lob_event" where
  "blank_event ts_ns action = \<lparr> ev_timestamp_ns = ts_ns, ev_entry_id = 0, ev_price = 0, ev_qty = 0,
     ev_action = action, ev_side = Bid \<rparr>"

definition action_of_char :: "char \<Rightarrow> md_update_action option" where
  "action_of_char c =
     (if c = CHR ''0'' then Some New else if c = CHR ''1'' then Some Change
      else if c = CHR ''2'' then Some Delete else None)"

definition side_of_char :: "char \<Rightarrow> md_entry_type option" where
  "side_of_char c =
     (if c = CHR ''0'' then Some Bid else if c = CHR ''1'' then Some Offer
      else if c = CHR ''2'' then Some Trade else None)"

text \<open>Every exception of \<open>stoull\<close> is swallowed: the id stays 0.\<close>

definition read_entry_id :: "fix_fields \<Rightarrow> u64" where
  "read_entry_id grp =
     (case grp 278 of None \<Rightarrow> 0 | Some s \<Rightarrow> (case stoull s of None \<Rightarrow> 0 | Some n \<Rightarrow> n))"

definition read_char :: "quickfix \<Rightarrow> fix_fields \<Rightarrow> fix_tag \<Rightarrow> fix_error + char" where
  "read_char q grp t =
     (case get_string grp t of Inl e \<Rightarrow> Inl e | Inr s \<Rightarrow> convert_field (qf_char q) t s)"

text \<open>An optional numeric field, and what the handler makes of its value.\<close>

definition read_optional :: "quickfix \<Rightarrow> fix_fields \<Rightarrow> fix_tag \<Rightarrow> (f64 \<Rightarrow> int) \<Rightarrow> fix_error + int" where
  "read_optional q grp t conv =
     (case grp t of
        None \<Rightarrow> Inr 0
      | Some s \<Rightarrow> (case convert_field (qf_double q) t s of Inl e \<Rightarrow> Inl e | Inr d \<Rightarrow> Inr (conv d)))"

text \<open>Price (tag 270) and size (tag 271) of an entry of a known side.\<close>

definition read_px_qty :: "quickfix \<Rightarrow> fix_fields \<Rightarrow> lob_event \<Rightarrow> entry_result" where
  "read_px_qty q grp ev =
     (case read_optional q grp 270 to_price of
        Inl e \<Rightarrow> EntryError e
      | Inr px \<Rightarrow>
          (case read_optional q grp 271 f64_trunc of
             Inl e \<Rightarrow> EntryError e
           | Inr sz \<Rightarrow> EntryEvent (ev\<lparr>ev_price := px, ev_qty := sz\<rparr>)))"

definition incremental_entry :: "quickfix \<Rightarrow> u64 \<Rightarrow> order_book \<Rightarrow> fix_fields \<Rightarrow> entry_result" where
  "incremental_entry q ts_ns book grp =
     (case read_char q grp 279 of
        Inl e \<Rightarrow> EntryError e
      | Inr c \<Rightarrow>
          (case action_of_char c of
             None \<Rightarrow> EntrySkip
           | Some action \<Rightarrow>
               (let ev = (blank_event ts_ns action)\<lparr>ev_entry_id := read_entry_id grp\<rparr>
                in if action = Delete then
                     EntryEvent (case lookup_entry book (ev_entry_id ev) of
                         None \<Rightarrow> ev
                       | Some e \<Rightarrow> ev\<lparr>ev_side := ei_side e, ev_price := ei_price e, ev_qty := ei_qty e\<rparr>)
                   else
                     (case read_char q grp 269 of
                        Inl e \<Rightarrow> EntryError e
                      | Inr t \<Rightarrow>
                          (case side_of_char t of
                             None \<Rightarrow> EntrySkip
                           | Some s \<Rightarrow> read_px_qty q grp (ev\<lparr>ev_side := s\<rparr>))))))"

definition snapshot_entry :: "quickfix \<Rightarrow> u64 \<Rightarrow> fix_fields \<Rightarrow> entry_result" where
  "snapshot_entry q ts_ns grp =
     (case read_char q grp 269 of
        Inl e \<Rightarrow> EntryError e
      | Inr t \<Rightarrow>
          (case side_of_char t of
             None \<Rightarrow> EntrySkip
           | Some Trade \<Rightarrow> EntrySkip
           | Some s \<Rightarrow>
               read_px_qty q grp
                 ((blank_event ts_ns New)\<lparr>ev_side := s, ev_entry_id := read_entry_id grp\<rparr>)))"

section \<open>Delivering events\<close>

definition offer_event :: "lob_event spsc option \<Rightarrow> lob_event \<Rightarrow> lob_event spsc option" where
  "offer_event queue ev = map_option (\<lambda>q. fst (spsc_push kMdQueueCapacity q ev)) queue"

text \<open>Log, update the book, push; an event a full queue refuses is dropped.\<close>

definition deliver :: "lob_event \<Rightarrow> gateway \<Rightarrow> gateway \<times> md_output list" where
  "deliver ev g =
     (let (book, calls, _) = book_update (gw_book g) ev
      in (g\<lparr>gw_book := book, gw_queue := offer_event (gw_queue g) ev\<rparr>,
          LogWrite ev # map BookCall calls))"

text \<open>
  The loop over the \<open>n\<close> entries the message announces; \<open>getGroup\<close> throws when the grp
  (tag 268) has fewer.
\<close>

fun entry_loop :: "(order_book \<Rightarrow> fix_fields \<Rightarrow> entry_result) \<Rightarrow> nat \<Rightarrow> fix_fields list \<Rightarrow> gateway \<Rightarrow> md_result" where
  "entry_loop f 0 groups g = (g, [], None)"
| "entry_loop f (Suc n) [] g = (g, [], Some (FieldNotFound 268))"
| "entry_loop f (Suc n) (x # groups) g =
     (case f (gw_book g) x of
        EntryError e \<Rightarrow> (g, [], Some e)
      | EntrySkip \<Rightarrow> entry_loop f n groups g
      | EntryEvent ev \<Rightarrow>
          (let (g1, outs1) = deliver ev g; (g2, outs2, err) = entry_loop f n groups g1
           in (g2, outs1 @ outs2, err)))"

definition read_entries :: "quickfix \<Rightarrow> (order_book \<Rightarrow> fix_fields \<Rightarrow> entry_result) \<Rightarrow> fix_message \<Rightarrow> gateway \<Rightarrow> md_result" where
  "read_entries q f m g =
     (case get_string (msg_body m) 268 of
        Inl e \<Rightarrow> (g, [], Some e)
      | Inr s \<Rightarrow>
          (case convert_field (qf_int q) 268 s of
             Inl e \<Rightarrow> (g, [], Some e)
           | Inr num \<Rightarrow> entry_loop f (nat num) (msg_groups m 268) g))"

definition on_incremental_refresh :: "quickfix \<Rightarrow> fix_message \<Rightarrow> u64 \<Rightarrow> gateway \<Rightarrow> md_result" where
  "on_incremental_refresh q m ts_ns g = read_entries q (incremental_entry q ts_ns) m g"

definition on_snapshot :: "quickfix \<Rightarrow> fix_message \<Rightarrow> u64 \<Rightarrow> gateway \<Rightarrow> md_result" where
  "on_snapshot q m ts_ns g =
     read_entries q (\<lambda>_. snapshot_entry q ts_ns) m (g\<lparr>gw_book := book_clear (gw_book g)\<rparr>)"

section \<open>Rejected requests\<close>

definition kRejectReasons :: "string list" where
  "kRejectReasons =
     [''0=UnknownSymbol'', ''1=DuplicateMDReqID'', ''2=InsufficientBandwidth'',
      ''3=InsufficientPermissions'', ''4=UnsupportedSubscriptionRequestType'',
      ''5=UnsupportedMarketDepth'', ''6=UnsupportedMDUpdateType'', ''7=UnsupportedAggregatedBook'',
      ''8=UnsupportedMDEntryType'', ''9=UnsupportedTradingSessionID'']"

text \<open>\<open>MDReqRejReason\<close> (tag 281) is a character; its code is the number looked up.\<close>

definition reject_reason :: "char \<Rightarrow> string" where
  "reject_reason c =
     (let r = (of_char c :: nat)
      in if 128 \<le> r then CHR ''-'' # decimal (256 - r)
         else if r < length kRejectReasons then kRejectReasons ! r else decimal r)"

definition on_md_reject :: "quickfix \<Rightarrow> fix_message \<Rightarrow> gateway \<Rightarrow> md_result" where
  "on_md_reject q m g =
     (let text_str = field_text (msg_body m) 58
      in case msg_body m 281 of
           None \<Rightarrow> (g\<lparr>gw_subscribed := False\<rparr>, [MdRejected ''Unknown'' text_str], None)
         | Some s \<Rightarrow>
             (case convert_field (qf_char q) 281 s of
                Inl e \<Rightarrow> (g, [], Some e)
              | Inr c \<Rightarrow> (g\<lparr>gw_subscribed := False\<rparr>, [MdRejected (reject_reason c) text_str], None)))"

section \<open>Application messages\<close>

definition md_fromApp :: "quickfix \<Rightarrow> fix_message \<Rightarrow> u64 \<Rightarrow> gateway \<Rightarrow> md_result" where
  "md_fromApp q m ts_ns g =
     (case get_string (msg_header m) 35 of
        Inl e \<Rightarrow> (g, [], Some e)
      | Inr ty \<Rightarrow>
          (let (g', outs, err) =
             (if ty = ''X'' then on_incremental_refresh q m ts_ns g
              else if ty = ''W'' then on_snapshot q m ts_ns g
              else if ty = ''Y'' then on_md_reject q m g
              else (g, [], None))
           in (g', outs, case err of Some (FieldNotFound _) \<Rightarrow> None | _ \<Rightarrow> err)))"

section \<open>The stream of events\<close>

text \<open>The events a handler gave to the logger.\<close>

definition logged :: "md_output list \<Rightarrow> lob_event list" where
  "logged outs = concat (map (\<lambda>x. case x of LogWrite ev \<Rightarrow> [ev] | _ \<Rightarrow> []) outs)"

lemma logged_append [simp]: "logged (xs @ ys) = logged xs @ logged ys"
  by (simp add: logged_def)

lemma logged_simps [simp]:
  "logged [] = []" "logged [MdRequest m sid] = []" "logged [MdRejected a b] = []"
  "logged (LogWrite ev # outs) = ev # logged outs"
  by (simp_all add: logged_def)

lemma logged_calls [simp]: "logged (map BookCall calls) = []"
  by (simp add: logged_def)

text \<open>All a delivered stream changes: the book ran over it, the queue was offered it.\<close>

definition streamed :: "lob_event list \<Rightarrow> gateway \<Rightarrow> gateway" where
  "streamed evs g = g\<lparr>gw_book := book_run (gw_book g) evs,
     gw_queue := foldl offer_event (gw_queue g) evs\<rparr>"

lemma streamed_Nil [simp]: "streamed [] g = g"
  by (simp add: streamed_def book_run_def)

lemma streamed_Cons: "streamed (ev # evs) g = streamed evs (streamed [ev] g)"
  by (simp add: streamed_def book_run_def)

lemma deliver_streamed: "deliver ev g = (g1, outs) \<Longrightarrow> g1 = streamed [ev] g \<and> logged outs = [ev]"
  by (auto simp: deliver_def book_update_def streamed_def book_run_def Let_def case_prod_unfold)

lemma entry_loop_streamed:
  "entry_loop f n grps g = (g', outs, err) \<Longrightarrow> g' = streamed (logged outs) g"
proof (induction f n grps g arbitrary: g' outs err rule: entry_loop.induct)
  case (3 f n x grps g)
  show ?case
  proof (cases "f (gw_book g) x")
    case (EntryEvent ev)
    obtain g1 outs1 where d: "deliver ev g = (g1, outs1)" by fastforce
    obtain outs2 where l: "entry_loop f n grps g1 = (g', outs2, err)" and o: "outs = outs1 @ outs2"
      using 3(3) EntryEvent d by (auto simp: case_prod_unfold Let_def prod_eq_iff)
    show ?thesis
      using 3(2) [OF EntryEvent d [symmetric] refl l] deliver_streamed [OF d] streamed_Cons [of ev "logged outs2" g]
      by (simp add: o)
  qed (use 3 in auto)
qed auto

lemma entry_loop_events:
  assumes "\<And>b x ev. f b x = EntryEvent ev \<Longrightarrow> P ev"
  shows "entry_loop f n grps g = (g', outs, err) \<Longrightarrow> list_all P (logged outs)"
  using assms
proof (induction f n grps g arbitrary: g' outs err rule: entry_loop.induct)
  case (3 f n x grps g)
  show ?case
  proof (cases "f (gw_book g) x")
    case (EntryEvent ev)
    obtain g1 outs1 where d: "deliver ev g = (g1, outs1)" by fastforce
    obtain outs2 where l: "entry_loop f n grps g1 = (g', outs2, err)" and o: "outs = outs1 @ outs2"
      using 3(3) EntryEvent d by (auto simp: case_prod_unfold Let_def prod_eq_iff)
    have "list_all P (logged outs2)" by (rule 3(2) [OF EntryEvent d [symmetric] refl l 3(4)])
    moreover have "P ev" by (rule 3(4) [OF EntryEvent])
    ultimately show ?thesis using deliver_streamed [OF d] by (simp add: o)
  qed (use 3 in auto)
qed auto

lemma read_entries_streamed:
  "read_entries q f m g = (g', outs, err) \<Longrightarrow> g' = streamed (logged outs) g"
  by (auto simp: read_entries_def split: sum.splits dest: entry_loop_streamed)

lemma read_entries_events:
  assumes "\<And>b x ev. f b x = EntryEvent ev \<Longrightarrow> P ev"
  shows "read_entries q f m g = (g', outs, err) \<Longrightarrow> list_all P (logged outs)"
  using entry_loop_events [of f P] assms by (fastforce simp: read_entries_def split: sum.splits)

lemma read_px_qty_event: "read_px_qty q grp e = EntryEvent ev \<Longrightarrow>
    ev_timestamp_ns ev = ev_timestamp_ns e \<and> ev_side ev = ev_side e \<and> ev_action ev = ev_action e
    \<and> ev_entry_id ev = ev_entry_id e"
  by (auto simp: read_px_qty_def split: sum.splits)

lemma incremental_entry_time: "incremental_entry q ts b x = EntryEvent ev \<Longrightarrow> ev_timestamp_ns ev = ts"
  by (auto simp: incremental_entry_def blank_event_def Let_def split: sum.splits option.splits if_splits
      dest: read_px_qty_event)

lemma snapshot_entry_shape: "snapshot_entry q ts x = EntryEvent ev \<Longrightarrow>
    ev_timestamp_ns ev = ts \<and> ev_action ev = New \<and> ev_side ev \<noteq> Trade"
  by (auto simp: snapshot_entry_def blank_event_def Let_def split: sum.splits option.splits md_entry_type.splits
      dest!: read_px_qty_event)

lemma foldl_offer: "foldl offer_event (Some q) evs
    = Some (foldl (\<lambda>q x. fst (spsc_push kMdQueueCapacity q x)) q evs)"
  by (induction evs arbitrary: q) (simp_all add: offer_event_def)

lemma foldl_offer_None: "foldl offer_event None evs = None"
  by (induction evs) (simp_all add: offer_event_def)

text \<open>The gateway a message of type W starts from has an empty book.\<close>

definition before_entries :: "fix_message \<Rightarrow> gateway \<Rightarrow> gateway" where
  "before_entries m g =
     (if msg_header m 35 = Some ''W'' then g\<lparr>gw_book := book_clear (gw_book g)\<rparr> else g)"

lemma fromApp_streamed:
  assumes "md_fromApp q m ts g = (g', outs, err)"
  shows "gw_book g' = book_run (gw_book (before_entries m g)) (logged outs) \<and>
    gw_queue g' = foldl offer_event (gw_queue g) (logged outs) \<and>
    list_all (\<lambda>ev. ev_timestamp_ns ev = ts) (logged outs) \<and>
    (msg_header m 35 = Some ''W'' \<longrightarrow>
      list_all (\<lambda>ev. ev_action ev = New \<and> ev_side ev \<noteq> Trade) (logged outs))"
proof -
  consider (none) "msg_header m 35 = None" | (X) "msg_header m 35 = Some ''X''"
    | (W) "msg_header m 35 = Some ''W''" | (Y) "msg_header m 35 = Some ''Y''"
    | (other) ty where "msg_header m 35 = Some ty" "ty \<notin> {''X'', ''W'', ''Y''}"
    by fastforce
  then show ?thesis
  proof cases
    case X
    then obtain e where e: "on_incremental_refresh q m ts g = (g', outs, e)"
      using assms by (auto simp: md_fromApp_def get_string_def Let_def case_prod_unfold prod_eq_iff)
    have "g' = streamed (logged outs) g"
      using e unfolding on_incremental_refresh_def by (rule read_entries_streamed)
    moreover have "list_all (\<lambda>ev. ev_timestamp_ns ev = ts) (logged outs)"
      using e unfolding on_incremental_refresh_def
      by (rule read_entries_events [rotated]) (rule incremental_entry_time)
    ultimately show ?thesis using X by (simp add: before_entries_def streamed_def)
  next
    case W
    then obtain e where e: "on_snapshot q m ts g = (g', outs, e)"
      using assms by (auto simp: md_fromApp_def get_string_def Let_def case_prod_unfold prod_eq_iff)
    have "g' = streamed (logged outs) (g\<lparr>gw_book := book_clear (gw_book g)\<rparr>)"
      using e unfolding on_snapshot_def by (rule read_entries_streamed)
    moreover have "list_all (\<lambda>ev. ev_timestamp_ns ev = ts \<and> ev_action ev = New \<and> ev_side ev \<noteq> Trade) (logged outs)"
      using e unfolding on_snapshot_def
      by (rule read_entries_events [rotated]) (rule snapshot_entry_shape)
    ultimately show ?thesis using W by (auto simp: before_entries_def streamed_def list_all_iff)
  next
    case Y
    then obtain e where "on_md_reject q m g = (g', outs, e)"
      using assms by (auto simp: md_fromApp_def get_string_def Let_def case_prod_unfold prod_eq_iff)
    then show ?thesis using Y
      by (auto simp: on_md_reject_def before_entries_def book_run_def Let_def split: option.splits sum.splits)
  qed (use assms in \<open>auto simp: md_fromApp_def get_string_def before_entries_def book_run_def\<close>)
qed

text \<open>
  C18: Whatever message arrives, and whether or not it is processed to its end, the book the
  gateway keeps has run over exactly the events the handler logged (starting from a cleared
  book when the message is a snapshot), the queue to the alpha thread holds its old contents
  followed by the first of these events that found room, and all of them carry the handler's
  time stamp.
\<close>

theorem gateway_streams_agree:
  assumes "spsc_inv kMdQueueCapacity queue" and "gw_queue g = Some queue"
    and "md_fromApp q m ts g = (g', outs, err)"
  shows "gw_book g' = book_run (if msg_header m 35 = Some ''W'' then book_clear (gw_book g) else gw_book g)
            (logged outs) \<and>
    (\<exists>queue'. gw_queue g' = Some queue' \<and> spsc_inv kMdQueueCapacity queue' \<and>
       spsc_contents kMdQueueCapacity queue' =
         take (spsc_room kMdQueueCapacity) (spsc_contents kMdQueueCapacity queue @ logged outs)) \<and>
    list_all (\<lambda>ev. ev_timestamp_ns ev = ts) (logged outs)"
  using fromApp_streamed [OF assms(3)] spsc.contents_push_all [OF assms(1)] spsc.inv_push_all [OF assms(1)]
  by (auto simp: assms(2) foldl_offer before_entries_def)

section \<open>Snapshots\<close>

lemma book_clear_consistent [wf_intros]: "book_consistent (book_clear b)"
  by (simp add: book_consistent_def entries_ok_def book_clear_def displays_def book_wf_def
      levels_ok_def bid_qty_at_def ask_qty_at_def qty_at_def agg_def)

lemma book_run_Cons: "book_run b (ev # evs) = book_run (book_after b ev) evs"
  by (simp add: book_run_def)

text \<open>Events that do not name an id leave its entry alone.\<close>

lemma book_run_other_id:
  "list_all (\<lambda>ev. ev_entry_id ev \<noteq> k) evs \<Longrightarrow> ob_entries (book_run b evs) k = ob_entries b k"
proof (induction evs arbitrary: b)
  case (Cons ev evs)
  then show ?case by (auto simp: book_run_Cons book_after_entries)
qed (simp add: book_run_def)

lemma feed_fresh_distinct:
  assumes "distinct (map ev_entry_id evs)"
    and "list_all (\<lambda>ev. ob_entries b (ev_entry_id ev) = None) evs"
  shows "feed_fresh b evs"
  using assms
proof (induction evs arbitrary: b)
  case (Cons ev evs)
  then have "list_all (\<lambda>e. ob_entries (book_after b ev) (ev_entry_id e) = None) evs"
    by (auto simp: list_all_iff book_after_entries image_iff)
  with Cons show ?case by (simp add: fresh_new_def)
qed simp

lemma new_entries:
  assumes "distinct (map ev_entry_id evs)" and "list_all (\<lambda>ev. ev_action ev = New \<and> 0 < ev_qty ev) evs"
    and "ev \<in> set evs"
  shows "ob_entries (book_run b evs) (ev_entry_id ev) = Some (entry_of ev)"
  using assms
proof (induction evs arbitrary: b)
  case (Cons e evs)
  show ?case
  proof (cases "ev = e")
    case True
    have "list_all (\<lambda>x. ev_entry_id x \<noteq> ev_entry_id e) evs" using Cons.prems(1) by (auto simp: list_all_iff image_iff)
    then show ?thesis using True Cons.prems(2) book_run_other_id [of "ev_entry_id e" evs "book_after b e"]
      by (simp add: book_run_Cons book_after_entries)
  next
    case False
    then show ?thesis using Cons by (simp add: book_run_Cons)
  qed
qed simp

text \<open>
  C39: A snapshot rebuilds the book from scratch: when its logged entries have distinct ids,
  positive sizes and a total size below \<open>2 ^ 63\<close>, then afterwards, whatever the book held
  before, the levels are the sums of the live entries, and the live entries are exactly those
  of the snapshot.
\<close>

theorem snapshot_rebuilds_book:
  assumes "msg_header m 35 = Some ''W''" and "md_fromApp q m ts g = (g', outs, err)"
    and "distinct (map ev_entry_id (logged outs))" and "list_all (\<lambda>ev. 0 < ev_qty ev) (logged outs)"
    and "sum_list (map ev_qty (logged outs)) \<le> i64_max"
  shows "book_consistent (gw_book g') \<and>
    (\<forall>k e. ob_entries (gw_book g') k = Some e \<longleftrightarrow>
      (\<exists>ev \<in> set (logged outs). ev_entry_id ev = k \<and> entry_of ev = e))"
proof -
  let ?c = "book_clear (gw_book g)" and ?evs = "logged outs"
  have run: "gw_book g' = book_run ?c ?evs" and new: "list_all (\<lambda>ev. ev_action ev = New \<and> 0 < ev_qty ev) ?evs"
    using fromApp_streamed [OF assms(2)] assms(1,4) by (auto simp: before_entries_def list_all_iff)
  have c: "ob_entries ?c k = None" for k by (simp add: book_clear_def)
  have "map ev_volume ?evs = map ev_qty ?evs" using assms(4) by (auto simp: ev_volume_def list_all_iff)
  then have "sum_list (map ev_volume ?evs) = sum_list (map ev_qty ?evs)" by (rule arg_cong)
  moreover have "total_qty (ob_entries ?c) = 0" by (simp add: total_qty_def book_clear_def)
  ultimately have "book_consistent (book_run ?c ?evs)"
    using assms(3,5) c by (intro book_run_consistent_from book_clear_consistent feed_fresh_distinct)
      (simp_all add: list_all_iff)
  moreover have "\<exists>ev \<in> set ?evs. ev_entry_id ev = k \<and> entry_of ev = e"
    if "ob_entries (book_run ?c ?evs) k = Some e" for k e
  proof -
    have "\<exists>ev \<in> set ?evs. ev_entry_id ev = k"
      using book_run_other_id [of k ?evs ?c] that c by (force simp: list_all_iff)
    then obtain ev where "ev \<in> set ?evs" "ev_entry_id ev = k" by blast
    moreover from this have "entry_of ev = e" using new_entries [OF assms(3) new, of ev ?c] that by simp
    ultimately show ?thesis by blast
  qed
  ultimately show ?thesis unfolding run using new_entries [OF assms(3) new] by blast
qed

text \<open>
  Clearing the book for a snapshot leaves no trace in the log or the queue.  An order
  that was live and is not in the snapshot is gone from the gateway's book, but whoever
  replays the log, as the backtest does, keeps it forever.
\<close>

theorem snapshot_clear_is_not_logged:
  assumes "gw_book g = book_run book_empty recorded" and "ob_entries (gw_book g) k = Some e"
    and "msg_header m 35 = Some ''W''" and "md_fromApp q m ts g = (g', outs, err)"
    and "list_all (\<lambda>ev. ev_entry_id ev \<noteq> k) (logged outs)"
  shows "ob_entries (gw_book g') k = None \<and> ob_entries (book_run book_empty (recorded @ logged outs)) k = Some e"
proof -
  have "gw_book g' = book_run (book_clear (gw_book g)) (logged outs)"
    using fromApp_streamed [OF assms(4)] assms(3) by (simp add: before_entries_def)
  moreover have "book_run book_empty (recorded @ logged outs) = book_run (gw_book g) (logged outs)"
    by (simp add: assms(1)) (simp add: book_run_def)
  ultimately show ?thesis using book_run_other_id [OF assms(5)] assms(2) by (simp add: book_clear_def)
qed

section \<open>Subscription\<close>

text \<open>
  A session that ends within three seconds of its logon leaves the gateway believing it
  is subscribed: on every later logon no request is sent.  After a session that lived longer,
  the next logon sends the request again.
\<close>

theorem fast_logout_prevents_resubscription:
  assumes "gw_symbol_id g \<noteq> []" and "t1 \<noteq> 0" and "t1 \<le> t2"
  shows "let g1 = fst (md_onLogon (SendQueued b) sid t1 g); g2 = md_onLogout t2 g1;
             (g3, outs, threw) = md_onLogon (SendQueued b') sid' t3 g2
         in gw_subscribed g1 \<and> gw_auth_failed g2 = (t2 - t1 < 3000000000) \<and>
            (if t2 - t1 < 3000000000 then outs = [] else outs = [MdRequest (subscription_request g) sid'])"
proof -
  have "c_div (t2 - t1) 1000000 < 3000 \<longleftrightarrow> t2 - t1 < 3000000000"
    using assms(3) by (simp add: c_div_nonneg) linarith
  then show ?thesis
    using assms(1,2) by (simp add: md_onLogon_def subscribe_market_data_def md_onLogout_def
        subscription_request_def Let_def)
qed

section \<open>Rejects\<close>

text \<open>The reasons the data dictionary (\<open>config/spec/FIX44.xml\<close>, field 281, a character) admits.\<close>

definition dictionary_reject_reasons :: "char list" where
  "dictionary_reject_reasons = ''0123456789ABC''"

text \<open>
  A reject with a reason of the data dictionary lets the next logon subscribe again, but
  is reported by the bare character code of its reason: no entry of the table of reason texts
  is ever used.
\<close>

theorem reject_reason_is_never_named:
  assumes "msg_header m 35 = Some ''Y''" and "msg_body m 281 = Some s"
    and "qf_char q s = Some c" and "c \<in> set dictionary_reject_reasons"
  shows "md_fromApp q m ts g =
      (g\<lparr>gw_subscribed := False\<rparr>, [MdRejected (decimal (of_char c)) (field_text (msg_body m) 58)], None) \<and>
    decimal (of_char c) \<notin> set kRejectReasons"
proof -
  have "reject_reason c = decimal (of_char c)"
    using assms(4) by (auto simp: reject_reason_def dictionary_reject_reasons_def kRejectReasons_def)
  moreover have "decimal (of_char c) \<noteq> r" if "CHR ''='' \<in> set r" for r
    using decimal_digits [of "of_char c"] that by (auto simp: list_all_iff is_digit_def)
  moreover have "\<forall>r \<in> set kRejectReasons. CHR ''='' \<in> set r" by (simp add: kRejectReasons_def)
  ultimately show ?thesis
    using assms by (auto simp: md_fromApp_def on_md_reject_def get_string_def convert_field_def Let_def)
qed

section \<open>Witnesses\<close>

definition sample_gateway :: gateway where
  "sample_gateway = gateway_new (Some [''SymbolID'' \<mapsto> ''41''])
     (Some (spsc_init (replicate (unat kMdQueueCapacity) (blank_event 0 New))))"

definition sample_group :: "string \<Rightarrow> string \<Rightarrow> string \<Rightarrow> string \<Rightarrow> fix_fields" where
  "sample_group eid ty px sz = [278 \<mapsto> eid, 269 \<mapsto> ty, 270 \<mapsto> px, 271 \<mapsto> sz]"

definition sample_snapshot :: fix_message where
  "sample_snapshot = add_group 268 (sample_group ''8'' ''1'' ''2001'' ''3'')
     (add_group 268 (sample_group ''7'' ''0'' ''2000'' ''5'') (set_body 268 ''2'' (fix_new ''W'')))"

definition sample_logged :: "lob_event list" where
  "sample_logged =
     [(blank_event 1000 New)\<lparr>ev_entry_id := 7, ev_price := 200000, ev_qty := 5\<rparr>,
      (blank_event 1000 New)\<lparr>ev_entry_id := 8, ev_price := 200100, ev_qty := 3, ev_side := Offer\<rparr>]"

lemma capacity_2_14: "capacity_ok kMdQueueCapacity" "unat kMdQueueCapacity = 16384"
  by (auto simp: capacity_ok_def kMdQueueCapacity_def intro: exI [where x = 14])

lemma sample_queue_inv:
  "spsc_inv kMdQueueCapacity (spsc_init (replicate (unat kMdQueueCapacity) (blank_event 0 New)))"
  by (rule spsc_init_inv) (simp_all add: capacity_2_14)

lemma sample_prices:
  "to_price (f64_of_int 2000) = 200000" "to_price (f64_of_int 2001) = 200100"
  "f64_trunc (f64_of_int 5) = 5" "f64_trunc (f64_of_int 3) = 3"
  using to_price_int [of 2000] to_price_int [of 2001] by (simp_all add: rat_trunc_def Let_def)

lemma sample_snapshot_result:
  obtains g' outs err where "md_fromApp sample_quickfix sample_snapshot 1000 sample_gateway = (g', outs, err)"
    and "logged outs = sample_logged"
proof -
  let ?r = "md_fromApp sample_quickfix sample_snapshot 1000 sample_gateway"
  have ids: "stoull ''7'' = Some 7" "stoull ''8'' = Some 8"
    by (simp_all add: stoull_def is_space_def is_digit_def digits_value_def)
  have "logged (fst (snd ?r)) = sample_logged"
    using ids sample_prices deliver_streamed
    by (simp add: md_fromApp_def sample_snapshot_def sample_group_def fix_building get_string_def on_snapshot_def
        read_entries_def convert_field_def sample_quickfix_def is_digit_def digits_value_def snapshot_entry_def
        read_char_def side_of_char_def read_entry_id_def read_px_qty_def read_optional_def
        case_prod_unfold Let_def deliver_def numeral_2_eq_2 sample_logged_def blank_event_def)
  then show thesis using that by (metis prod.collapse)
qed

lemma sample_is_snapshot: "msg_header sample_snapshot 35 = Some ''W''"
  by (simp add: sample_snapshot_def sample_group_def fix_building)

theorem gateway_streams_agree_witness:
  "\<exists>g' outs err queue'. md_fromApp sample_quickfix sample_snapshot 1000 sample_gateway = (g', outs, err) \<and>
     gw_queue g' = Some queue' \<and> spsc_contents kMdQueueCapacity queue' = sample_logged \<and>
     gw_book g' = book_run (book_clear book_empty) sample_logged"
proof -
  obtain g' outs err where r: "md_fromApp sample_quickfix sample_snapshot 1000 sample_gateway = (g', outs, err)"
    and l: "logged outs = sample_logged" by (rule sample_snapshot_result)
  have q: "gw_queue sample_gateway = Some (spsc_init (replicate (unat kMdQueueCapacity) (blank_event 0 New)))"
    "gw_book sample_gateway = book_empty"
    by (simp_all add: sample_gateway_def gateway_new_def)
  have room: "take (spsc_room kMdQueueCapacity) sample_logged = sample_logged"
    by (simp add: capacity_2_14 sample_logged_def)
  show ?thesis
    using gateway_streams_agree [OF sample_queue_inv q(1) r] r l q(2) room sample_is_snapshot
    by (auto simp: spsc_init_contents capacity_2_14)
qed

theorem snapshot_rebuilds_book_witness:
  "\<exists>g' outs err. md_fromApp sample_quickfix sample_snapshot 1000 sample_gateway = (g', outs, err) \<and>
     book_consistent (gw_book g') \<and>
     ob_entries (gw_book g') 8 = Some \<lparr> ei_side = Offer, ei_price = 200100, ei_qty = 3 \<rparr>"
proof -
  obtain g' outs err where r: "md_fromApp sample_quickfix sample_snapshot 1000 sample_gateway = (g', outs, err)"
    and l: "logged outs = sample_logged" by (rule sample_snapshot_result)
  have "book_consistent (gw_book g') \<and> (\<forall>k e. ob_entries (gw_book g') k = Some e \<longleftrightarrow>
      (\<exists>ev \<in> set sample_logged. ev_entry_id ev = k \<and> entry_of ev = e))"
    using snapshot_rebuilds_book [OF sample_is_snapshot r] unfolding l
    by (simp add: sample_logged_def blank_event_def)
  then show ?thesis using r by (simp add: sample_logged_def blank_event_def entry_of_def)
qed

text \<open>A gateway that has seen one other order, live at the snapshot.\<close>

definition stale_order :: lob_event where
  "stale_order = (blank_event 500 New)\<lparr>ev_entry_id := 9, ev_price := 199900, ev_qty := 2\<rparr>"

theorem snapshot_clear_is_not_logged_witness:
  "\<exists>g' outs err. md_fromApp sample_quickfix sample_snapshot 1000
       (sample_gateway\<lparr>gw_book := book_run book_empty [stale_order]\<rparr>) = (g', outs, err) \<and>
     ob_entries (gw_book g') 9 = None \<and>
     ob_entries (book_run book_empty (stale_order # logged outs)) 9 = Some (entry_of stale_order)"
proof -
  let ?g = "sample_gateway\<lparr>gw_book := book_run book_empty [stale_order]\<rparr>"
  have same: "md_fromApp sample_quickfix sample_snapshot 1000 ?g =
      md_fromApp sample_quickfix sample_snapshot 1000 sample_gateway"
    using sample_is_snapshot
    by (simp add: md_fromApp_def get_string_def on_snapshot_def book_clear_def sample_gateway_def
        gateway_new_def book_run_def stale_order_def blank_event_def book_eval)
  obtain g' outs err where "md_fromApp sample_quickfix sample_snapshot 1000 sample_gateway = (g', outs, err)"
    and l: "logged outs = sample_logged" by (rule sample_snapshot_result)
  then have r: "md_fromApp sample_quickfix sample_snapshot 1000 ?g = (g', outs, err)" by (simp add: same)
  have e: "ob_entries (gw_book ?g) 9 = Some (entry_of stale_order)"
    by (simp add: book_run_def book_after_entries stale_order_def blank_event_def)
  have o: "list_all (\<lambda>ev. ev_entry_id ev \<noteq> 9) (logged outs)"
    unfolding l by (simp add: sample_logged_def blank_event_def)
  show ?thesis
    using snapshot_clear_is_not_logged [OF _ e sample_is_snapshot r o, of "[stale_order]"] r by simp
qed

theorem fast_logout_prevents_resubscription_witness:
  "gw_subscribed (fst (md_onLogon (SendQueued True) ''S'' 1 sample_gateway)) \<and>
   fst (snd (md_onLogon (SendQueued True) ''S'' 9000000000
     (md_onLogout 1000000001 (fst (md_onLogon (SendQueued True) ''S'' 1 sample_gateway))))) = []"
proof -
  have "gw_symbol_id sample_gateway \<noteq> []" by (simp add: sample_gateway_def gateway_new_def)
  then show ?thesis
    using fast_logout_prevents_resubscription [of sample_gateway 1 1000000001 True "''S''" True "''S''" 9000000000]
    by (simp add: Let_def case_prod_unfold)
qed

theorem reject_reason_is_never_named_witness:
  "fst (snd (md_fromApp sample_quickfix (set_body 281 ''1'' (fix_new ''Y'')) 1000 sample_gateway))
     = [MdRejected ''49'' []]"
proof -
  have "decimal 49 = ''49''" by (simp add: decimal.simps digit_char_def char_of_eq_iff)
  then show ?thesis
    using reject_reason_is_never_named [of "set_body 281 ''1'' (fix_new ''Y'')" "''1''" sample_quickfix
        "CHR ''1''" 1000 sample_gateway]
    by (simp add: fix_building sample_quickfix_def dictionary_reject_reasons_def field_text_def)
qed

end
