(* ===== verification/Binary_Logger.thy ===== *)
theory Binary_Logger
  imports Prelude
begin

text \<open>
  \<open>BinaryLogger\<close> (\<open>include/smartquant/log/binary_logger.hpp\<close>, \<open>src/log/binary_logger.cpp\<close>):
  a ring of bytes behind a header, both in a memory-mapped file.  The header is read and
  written through one struct and is a record here; the ring is a list of bytes.  \<open>memcpy\<close>
  outside the ring is undefined behaviour, the value \<open>None\<close>.  The page size and the outcomes
  of the system calls are parameters.
\<close>

section \<open>Constants and on-disk structures\<close>

definition kLogMagic :: u64 where
  "kLogMagic = 0x474F4C5849465153"

definition kLogVersion :: u32 where
  "kLogVersion = 1"

definition kHeaderSize :: nat where
  "kHeaderSize = 4096"

record log_header =
  lh_magic :: u64
  lh_version :: u32
  lh_reserved :: u32
  lh_buffer_size :: u64
  lh_write_pos :: u64

record log_file =
  lf_header :: log_header
  lf_buf :: "byte list"

text \<open>The packed record header: eight bytes of time stamp, four of length, little-endian.\<close>

definition kRecordHeaderSize :: u64 where
  "kRecordHeaderSize = 12"

fun le_bytes :: "nat \<Rightarrow> nat \<Rightarrow> byte list" where
  "le_bytes 0 x = []"
| "le_bytes (Suc n) x = of_nat x # le_bytes n (x div 256)"

fun le_value :: "byte list \<Rightarrow> nat" where
  "le_value [] = 0"
| "le_value (b # bs) = unat b + 256 * le_value bs"

definition record_header :: "u64 \<Rightarrow> u32 \<Rightarrow> byte list" where
  "record_header ts_ns len = le_bytes 8 (unat ts_ns) @ le_bytes 4 (unat len)"

definition header_timestamp :: "byte list \<Rightarrow> u64" where
  "header_timestamp rh = of_nat (le_value (take 8 rh))"

definition header_length :: "byte list \<Rightarrow> u32" where
  "header_length rh = of_nat (le_value (take 4 (drop 8 rh)))"

section \<open>Memory\<close>

text \<open>\<open>memcpy\<close> into and out of the ring.\<close>

definition poke :: "byte list \<Rightarrow> nat \<Rightarrow> byte list \<Rightarrow> byte list option" where
  "poke buf off src =
     (if off + length src \<le> length buf
      then Some (take off buf @ src @ drop (off + length src) buf) else None)"

definition peek :: "byte list \<Rightarrow> nat \<Rightarrow> nat \<Rightarrow> byte list option" where
  "peek buf off n = (if off + n \<le> length buf then Some (take n (drop off buf)) else None)"

section \<open>The writer\<close>

definition round_up_page :: "u64 \<Rightarrow> u64 \<Rightarrow> u64" where
  "round_up_page ps n = ((n + ps - 1) div ps) * ps"

datatype log_error = InvalidArgument | SystemError string | RuntimeError string

record system_calls =
  sys_open :: bool
  sys_ftruncate :: bool
  sys_fstat :: bool
  sys_mmap :: bool

text \<open>The constructor: the file is truncated, so the ring is all zeros.\<close>

definition logger_open :: "u64 \<Rightarrow> system_calls \<Rightarrow> u64 \<Rightarrow> log_error + log_file" where
  "logger_open ps sys buffer_size =
     (if buffer_size = 0 then Inl InvalidArgument
      else
        (let buf_size = round_up_page ps buffer_size
         in if \<not> sys_open sys then Inl (SystemError ''open'')
            else if \<not> sys_ftruncate sys then Inl (SystemError ''ftruncate'')
            else if \<not> sys_mmap sys then Inl (SystemError ''mmap'')
            else Inr \<lparr> lf_header = \<lparr> lh_magic = kLogMagic, lh_version = kLogVersion, lh_reserved = 0,
                          lh_buffer_size = buf_size, lh_write_pos = 0 \<rparr>,
                       lf_buf = replicate (unat buf_size) 0 \<rparr>))"

text \<open>The new ring and the new offset.\<close>

definition ring_write :: "u64 \<Rightarrow> byte list \<Rightarrow> u64 \<Rightarrow> byte list \<Rightarrow> (byte list \<times> u64) option" where
  "ring_write buf_size buf off src =
     (let avail = buf_size - off; n = of_nat (length src)
      in if n \<le> avail then
           (case poke buf (unat off) src of None \<Rightarrow> None | Some buf' \<Rightarrow> Some (buf', off + n))
         else
           (case poke buf (unat off) (take (unat avail) src) of
              None \<Rightarrow> None
            | Some buf1 \<Rightarrow>
                (case poke buf1 0 (drop (unat avail) src) of
                   None \<Rightarrow> None
                 | Some buf2 \<Rightarrow> Some (buf2, n - avail))))"

definition log_write :: "u64 \<Rightarrow> byte list \<Rightarrow> log_file \<Rightarrow> log_file option" where
  "log_write ts_ns payload f =
     (let h = lf_header f; buf_size = lh_buffer_size h; len = (of_nat (length payload) :: u32);
          total = kRecordHeaderSize + ucast len; pos = lh_write_pos h; off = pos mod buf_size
      in case ring_write buf_size (lf_buf f) off (record_header ts_ns len) of
           None \<Rightarrow> None
         | Some (buf1, off1) \<Rightarrow>
             (case ring_write buf_size buf1 off1 (take (unat len) payload) of
                None \<Rightarrow> None
              | Some (buf2, _) \<Rightarrow>
                  Some \<lparr> lf_header = h\<lparr>lh_write_pos := pos + total\<rparr>, lf_buf = buf2 \<rparr>))"

definition total_written :: "log_file \<Rightarrow> u64" where
  "total_written f = lh_write_pos (lf_header f)"

section \<open>The reader\<close>

text \<open>
  The mapping is shared, so every operation reads the file as it is at the call.  \<open>None\<close> as
  the file of \<open>reader_open\<close>: shorter than a header.
\<close>

record log_reader =
  rd_buf_size :: u64
  rd_read_pos :: u64
  rd_end_pos :: u64
  rd_total_records :: u64

type_synonym log_entry = "u64 \<times> byte list"

definition oldest_pos :: "u64 \<Rightarrow> u64 \<Rightarrow> u64" where
  "oldest_pos buf_size end_pos = (if end_pos > buf_size then end_pos - buf_size else 0)"

definition reader_open :: "system_calls \<Rightarrow> log_file option \<Rightarrow> log_error + log_reader" where
  "reader_open sys file =
     (if \<not> sys_open sys then Inl (SystemError ''open'')
      else if \<not> sys_fstat sys then Inl (SystemError ''fstat'')
      else case file of
             None \<Rightarrow> Inl (RuntimeError ''file too small'')
           | Some f \<Rightarrow>
               (if \<not> sys_mmap sys then Inl (SystemError ''mmap'')
                else if lh_magic (lf_header f) \<noteq> kLogMagic then Inl (RuntimeError ''bad magic'')
                else
                  (let buf_size = lh_buffer_size (lf_header f); end_pos = lh_write_pos (lf_header f)
                   in Inr \<lparr> rd_buf_size = buf_size, rd_read_pos = oldest_pos buf_size end_pos,
                            rd_end_pos = end_pos, rd_total_records = 0 \<rparr>)))"

definition ring_read_into :: "log_file \<Rightarrow> u64 \<Rightarrow> log_reader \<Rightarrow> (byte list \<times> log_reader) option" where
  "ring_read_into f n r =
     (let off = rd_read_pos r mod rd_buf_size r; avail = rd_buf_size r - off;
          r' = r\<lparr>rd_read_pos := rd_read_pos r + n\<rparr>
      in if n \<le> avail then
           (case peek (lf_buf f) (unat off) (unat n) of None \<Rightarrow> None | Some xs \<Rightarrow> Some (xs, r'))
         else
           (case peek (lf_buf f) (unat off) (unat avail) of
              None \<Rightarrow> None
            | Some xs \<Rightarrow>
                (case peek (lf_buf f) 0 (unat (n - avail)) of
                   None \<Rightarrow> None
                 | Some ys \<Rightarrow> Some (xs @ ys, r'))))"

text \<open>The payload: a pointer into the ring when contiguous, a copy when it straddles the end.\<close>

definition read_payload :: "log_file \<Rightarrow> u64 \<Rightarrow> log_reader \<Rightarrow> (byte list \<times> log_reader) option" where
  "read_payload f len r =
     (let data_off = rd_read_pos r mod rd_buf_size r; avail = rd_buf_size r - data_off
      in if len \<le> avail then
           (case peek (lf_buf f) (unat data_off) (unat len) of
              None \<Rightarrow> None
            | Some xs \<Rightarrow> Some (xs, r\<lparr>rd_read_pos := rd_read_pos r + len\<rparr>))
         else ring_read_into f len r)"

definition reader_next :: "log_file \<Rightarrow> log_reader \<Rightarrow> (log_reader \<times> log_entry option) option" where
  "reader_next f r =
     (if rd_read_pos r + kRecordHeaderSize > rd_end_pos r then Some (r, None)
      else
        (case ring_read_into f kRecordHeaderSize r of
           None \<Rightarrow> None
         | Some (rh, r1) \<Rightarrow>
             (let len = (ucast (header_length rh) :: u64)
              in if rd_read_pos r1 + len > rd_end_pos r1 then
                   Some (r1\<lparr>rd_read_pos := rd_read_pos r1 - kRecordHeaderSize\<rparr>, None)
                 else
                   (case read_payload f len r1 of
                      None \<Rightarrow> None
                    | Some (xs, r2) \<Rightarrow>
                        Some (r2\<lparr>rd_total_records := rd_total_records r2 + 1\<rparr>,
                              Some (header_timestamp rh, xs))))))"

definition reader_rewind :: "log_file \<Rightarrow> log_reader \<Rightarrow> log_reader" where
  "reader_rewind f r =
     (let end_pos = lh_write_pos (lf_header f)
      in r\<lparr>rd_end_pos := end_pos, rd_read_pos := oldest_pos (rd_buf_size r) end_pos, rd_total_records := 0\<rparr>)"

definition bytes_available :: "log_reader \<Rightarrow> u64" where
  "bytes_available r = rd_end_pos r - rd_read_pos r"

text \<open>The loop \<open>while (reader.next(e))\<close>, with fuel for the number of calls.\<close>

fun reader_drain :: "nat \<Rightarrow> log_file \<Rightarrow> log_reader \<Rightarrow> (log_entry list \<times> log_reader) option" where
  "reader_drain 0 f r = None"
| "reader_drain (Suc n) f r =
     (case reader_next f r of
        None \<Rightarrow> None
      | Some (r', None) \<Rightarrow> Some ([], r')
      | Some (r', Some e) \<Rightarrow>
          (case reader_drain n f r' of None \<Rightarrow> None | Some (es, r'') \<Rightarrow> Some (e # es, r'')))"

section \<open>Little-endian numbers\<close>

lemma length_le_bytes [simp]: "length (le_bytes n x) = n"
  by (induction n arbitrary: x) simp_all

lemma le_value_bytes: "le_value (le_bytes n x) = x mod 256 ^ n"
proof (induction n arbitrary: x)
  case (Suc n)
  have "unat (of_nat x :: byte) = x mod 256" by (simp add: unsigned_of_nat take_bit_eq_mod)
  then show ?case by (simp add: Suc mod_mult2_eq)
qed simp

lemma length_record_header [simp]: "length (record_header ts len) = 12"
  by (simp add: record_header_def)

lemma record_header_fields [simp]:
  "header_timestamp (record_header ts len) = ts" "header_length (record_header ts len) = len"
proof -
  have "unat ts mod 256 ^ 8 = unat ts" using unsigned_less [of ts, where 'a = nat] by simp
  then show "header_timestamp (record_header ts len) = ts"
    by (simp add: header_timestamp_def record_header_def le_value_bytes)
  have "unat len mod 256 ^ 4 = unat len" using unsigned_less [of len, where 'a = nat] by simp
  then show "header_length (record_header ts len) = len"
    by (simp add: header_length_def record_header_def le_value_bytes)
qed

section \<open>The ring holds the end of the stream\<close>

text \<open>
  The specification of the ring is the stream of all bytes ever written: its last \<open>B\<close> bytes
  are in the ring, each at its position modulo \<open>B\<close>.
\<close>

definition holds :: "nat \<Rightarrow> byte list \<Rightarrow> byte list \<Rightarrow> bool" where
  "holds B buf s \<longleftrightarrow> length buf = B \<and>
     (\<forall>i < length s. length s \<le> i + B \<longrightarrow> buf ! (i mod B) = s ! i)"

text \<open>\<open>src\<close> is in \<open>buf'\<close> from \<open>off\<close> on, wrapping, and nothing else changed.\<close>

definition wrapped_copy :: "nat \<Rightarrow> byte list \<Rightarrow> nat \<Rightarrow> byte list \<Rightarrow> byte list \<Rightarrow> bool" where
  "wrapped_copy B buf off src buf' \<longleftrightarrow> length buf' = B \<and>
     (\<forall>k < length src. buf' ! ((off + k) mod B) = src ! k) \<and>
     (\<forall>j < B. (\<forall>k < length src. j \<noteq> (off + k) mod B) \<longrightarrow> buf' ! j = buf ! j)"

lemma poke_nth: "poke buf off src = Some buf' \<Longrightarrow> length buf' = length buf \<and>
    (\<forall>i < length buf. buf' ! i = (if off \<le> i \<and> i < off + length src then src ! (i - off) else buf ! i))"
  by (auto simp: poke_def nth_append split: if_splits)

lemma holds_append:
  assumes "holds B buf s" "wrapped_copy B buf off src buf'" "off mod B = length s mod B"
    and "length src \<le> B" "0 < B"
  shows "holds B buf' (s @ src)"
  unfolding holds_def
proof (intro conjI allI impI)
  show "length buf' = B" using assms(2) by (simp add: wrapped_copy_def)
next
  fix i assume i: "i < length (s @ src)" "length (s @ src) \<le> i + B"
  have pos: "(off + k) mod B = (length s + k) mod B" for k
    using assms(3) mod_add_left_eq [of off B k] mod_add_left_eq [of "length s" B k] by simp
  show "buf' ! (i mod B) = (s @ src) ! i"
  proof (cases "i < length s")
    case False
    then have "i - length s < length src" using i by auto
    then have "buf' ! ((off + (i - length s)) mod B) = src ! (i - length s)"
      using assms(2) unfolding wrapped_copy_def by blast
    moreover have "(off + (i - length s)) mod B = i mod B" using False pos [of "i - length s"] by simp
    ultimately show ?thesis using False by (simp add: nth_append)
  next
    case True
    have "i mod B \<noteq> (off + k) mod B" if k: "k < length src" for k
    proof
      assume "i mod B = (off + k) mod B"
      then have "(length s + k) mod B = i mod B" by (simp add: pos)
      then have "B dvd length s + k - i" using True mod_eq_dvd_iff_nat [of i "length s + k" B] by simp
      moreover have "0 < length s + k - i" "length s + k - i < B" using True i k by auto
      ultimately show False by (simp add: nat_dvd_not_less)
    qed
    then have "buf' ! (i mod B) = buf ! (i mod B)" using assms(2,5) by (simp add: wrapped_copy_def)
    also have "\<dots> = s ! i" using assms(1) True i by (simp add: holds_def)
    finally show ?thesis using True by (simp add: nth_append)
  qed
qed

lemma mod_shift: "B \<le> x \<Longrightarrow> x < 2 * B \<Longrightarrow> x mod B = x - (B :: nat)"
  by (simp add: mod_if)

lemma poke_whole:
  assumes "length buf = B" "off + length src \<le> B"
  shows "\<exists>buf'. poke buf off src = Some buf' \<and> wrapped_copy B buf off src buf'"
proof -
  obtain buf' where p: "poke buf off src = Some buf'" using assms by (simp add: poke_def)
  have "(off + k) mod B = off + k" if "k < length src" for k using assms that by simp
  then have "wrapped_copy B buf off src buf'"
    using poke_nth [OF p] assms unfolding wrapped_copy_def
    by (auto simp: not_less) (metis add_diff_cancel_left' add_less_cancel_left le_Suc_ex not_less)
  then show ?thesis using p by blast
qed

lemma poke_split:
  assumes "length buf = B" "off \<le> B" "length src \<le> B" "B < off + length src"
  shows "\<exists>buf1 buf2. poke buf off (take (B - off) src) = Some buf1 \<and>
    poke buf1 0 (drop (B - off) src) = Some buf2 \<and> wrapped_copy B buf off src buf2"
proof -
  let ?a = "B - off"
  obtain buf1 where p1: "poke buf off (take ?a src) = Some buf1" using assms by (simp add: poke_def)
  have n1: "length buf1 = B" "\<And>i. i < B \<Longrightarrow> buf1 ! i = (if off \<le> i then src ! (i - off) else buf ! i)"
    using poke_nth [OF p1] assms by (auto simp: min_def)
  have "length (drop ?a src) \<le> length buf1" using assms n1(1) by auto
  then obtain buf2 where p2: "poke buf1 0 (drop ?a src) = Some buf2" by (simp add: poke_def)
  have n2: "length buf2 = B" "\<And>i. i < B \<Longrightarrow> buf2 ! i = (if i < length src - ?a then src ! (?a + i) else buf1 ! i)"
    using poke_nth [OF p2] n1 by auto
  have at: "(off + k) mod B = (if k < ?a then off + k else k - ?a)" if "k < length src" for k
    using that assms mod_shift [of B "off + k"] by auto
  have "buf2 ! ((off + k) mod B) = src ! k" if "k < length src" for k
    using that assms by (auto simp: at n1 n2)
  moreover have "buf2 ! j = buf ! j" if j: "j < B" "\<forall>k < length src. j \<noteq> (off + k) mod B" for j
  proof -
    have "\<not> j < length src - ?a"
    proof
      assume "j < length src - ?a"
      then have k: "?a + j < length src" by simp
      then have "(off + (?a + j)) mod B = j" using at [OF k] by simp
      then show False using j(2) k by metis
    qed
    moreover have "\<not> off \<le> j"
    proof
      assume o: "off \<le> j"
      then have k: "j - off < length src" "j - off < ?a" using j(1) assms by auto
      then have "(off + (j - off)) mod B = j" using at [OF k(1)] o by simp
      then show False using j(2) k(1) by metis
    qed
    ultimately show ?thesis using j by (simp add: n1 n2)
  qed
  ultimately have "wrapped_copy B buf off src buf2" by (simp add: wrapped_copy_def n2)
  then show ?thesis using p1 p2 by blast
qed

lemma ring_write_copy:
  assumes "length buf = unat bsz" "off \<le> bsz" "length src \<le> unat bsz"
  shows "\<exists>buf' off'. ring_write bsz buf off src = Some (buf', off') \<and>
    wrapped_copy (unat bsz) buf (unat off) src buf' \<and> off' \<le> bsz \<and>
    unat off' mod unat bsz = (unat off + length src) mod unat bsz"
proof -
  let ?n = "of_nat (length src) :: u64"
  have bound: "unat bsz < 2 ^ 64" using unsigned_less [of bsz, where 'a = nat] by simp
  have n: "unat ?n = length src"
    using assms(3) bound by (simp add: unsigned_of_nat take_bit_nat_eq_self)
  have avail: "unat (bsz - off) = unat bsz - unat off" using assms(2) by (rule unat_sub)
  have o: "unat off \<le> unat bsz" using assms(2) by (simp add: word_le_nat_alt)
  show ?thesis
  proof (cases "?n \<le> bsz - off")
    case True
    then have fits: "unat off + length src \<le> unat bsz" using o by (simp add: word_le_nat_alt n avail)
    then have "unat (off + ?n) = unat off + length src" using bound by (simp add: unat_word_ariths n)
    then show ?thesis
      using poke_whole [OF assms(1) fits] True fits by (auto simp: ring_write_def Let_def word_le_nat_alt)
  next
    case False
    then have over: "unat bsz < unat off + length src" by (simp add: word_le_nat_alt n avail)
    have "bsz - off \<le> ?n" using False by simp
    then have rest: "unat (?n - (bsz - off)) = length src - (unat bsz - unat off)"
      by (simp add: unat_sub n avail)
    have "(unat off + length src) mod unat bsz = (unat off + length src - unat bsz) mod unat bsz"
      using over by (intro le_mod_geq) simp
    moreover have "length src - (unat bsz - unat off) = unat off + length src - unat bsz"
      "unat off + length src - unat bsz \<le> unat bsz" using o over assms(3) by auto
    ultimately show ?thesis
      using poke_split [OF assms(1) o assms(3) over] False rest
      by (auto simp: ring_write_def Let_def word_le_nat_alt avail n)
  qed
qed

lemma ring_write_holds:
  assumes "holds (unat bsz) buf s" "off \<le> bsz" "unat off mod unat bsz = length s mod unat bsz"
    and "length src \<le> unat bsz" "0 < bsz"
  shows "\<exists>buf' off'. ring_write bsz buf off src = Some (buf', off') \<and>
    holds (unat bsz) buf' (s @ src) \<and> off' \<le> bsz \<and>
    unat off' mod unat bsz = length (s @ src) mod unat bsz"
proof -
  have "length buf = unat bsz" using assms(1) by (simp add: holds_def)
  then obtain buf' off' where w: "ring_write bsz buf off src = Some (buf', off')"
      "wrapped_copy (unat bsz) buf (unat off) src buf'" "off' \<le> bsz"
      "unat off' mod unat bsz = (unat off + length src) mod unat bsz"
    using ring_write_copy assms(2,4) by blast
  have "holds (unat bsz) buf' (s @ src)"
    using holds_append [OF assms(1) w(2) assms(3,4)] assms(5) by (simp add: word_less_nat_alt)
  moreover have "unat off' mod unat bsz = length (s @ src) mod unat bsz"
    using w(4) assms(3) mod_add_left_eq [of "unat off" "unat bsz" "length src"]
      mod_add_left_eq [of "length s" "unat bsz" "length src"] by simp
  ultimately show ?thesis using w by blast
qed

section \<open>Writing extends the stream\<close>

definition encode :: "log_entry \<Rightarrow> byte list" where
  "encode e = record_header (fst e) (of_nat (length (snd e))) @ snd e"

definition stream :: "log_entry list \<Rightarrow> byte list" where
  "stream es = concat (map encode es)"

definition log_holds :: "u64 \<Rightarrow> log_file \<Rightarrow> byte list \<Rightarrow> bool" where
  "log_holds bsz f s \<longleftrightarrow> 0 < bsz \<and> lh_magic (lf_header f) = kLogMagic \<and>
     lh_buffer_size (lf_header f) = bsz \<and> unat (lh_write_pos (lf_header f)) = length s \<and>
     holds (unat bsz) (lf_buf f) s"

definition record_fits :: "u64 \<Rightarrow> log_entry \<Rightarrow> bool" where
  "record_fits bsz e \<longleftrightarrow> length (snd e) \<le> unat bsz \<and> length (snd e) < 2 ^ 32"

lemma length_encode [simp]: "length (encode e) = 12 + length (snd e)"
  by (simp add: encode_def)

lemma log_write_holds:
  assumes "log_holds bsz f s" "record_fits bsz (ts, payload)" "12 \<le> unat bsz"
    and "length s + length (encode (ts, payload)) < 2 ^ 64"
  shows "\<exists>f'. log_write ts payload f = Some f' \<and> log_holds bsz f' (s @ encode (ts, payload))"
proof -
  let ?len = "of_nat (length payload) :: u32" and ?pos = "lh_write_pos (lf_header f)"
  have len: "unat ?len = length payload"
    using assms(2) by (simp add: record_fits_def unsigned_of_nat take_bit_nat_eq_self)
  have h: "0 < bsz" "lh_buffer_size (lf_header f) = bsz" "unat ?pos = length s"
    using assms(1) by (simp_all add: log_holds_def)
  have off: "?pos mod bsz \<le> bsz" "unat (?pos mod bsz) mod unat bsz = length s mod unat bsz"
    using h(1) by (simp_all add: word_le_nat_alt unat_mod h(3)) (simp add: word_less_nat_alt less_imp_le)
  obtain buf1 off1 where w1: "ring_write bsz (lf_buf f) (?pos mod bsz) (record_header ts ?len) = Some (buf1, off1)"
      "holds (unat bsz) buf1 (s @ record_header ts ?len)" "off1 \<le> bsz"
      "unat off1 mod unat bsz = length (s @ record_header ts ?len) mod unat bsz"
    using ring_write_holds [of bsz "lf_buf f" s "?pos mod bsz" "record_header ts ?len"] assms(1,3) off h(1)
    by (auto simp: log_holds_def)
  obtain buf2 off2 where w2: "ring_write bsz buf1 off1 payload = Some (buf2, off2)"
      "holds (unat bsz) buf2 ((s @ record_header ts ?len) @ payload)"
    using ring_write_holds [OF w1(2-4) _ h(1), of payload] assms(2) by (auto simp: record_fits_def)
  have u: "unat (ucast ?len :: u64) = length payload" by (simp add: unat_ucast_u32 len)
  have "unat (kRecordHeaderSize + ucast ?len) = 12 + length payload"
    using assms(4) by (simp add: kRecordHeaderSize_def unat_word_ariths u)
  then have "unat (?pos + (kRecordHeaderSize + ucast ?len)) = length s + (12 + length payload)"
    using assms(4) by (simp add: unat_word_ariths h(3))
  then show ?thesis
    using w1(1) w2 assms(1) by (simp add: log_write_def Let_def h(2) len log_holds_def encode_def)
qed

section \<open>Reading\<close>

lemma holds_nth: "holds B buf s \<Longrightarrow> length s \<le> p + B \<Longrightarrow> p + k < length s \<Longrightarrow>
    buf ! ((p + k) mod B) = s ! (p + k)"
  by (simp add: holds_def)

lemma take_drop_eq:
  assumes "length xs = n" "p + n \<le> length s" "\<And>k. k < n \<Longrightarrow> xs ! k = s ! (p + k)"
  shows "xs = take n (drop p s)"
  using assms by (intro nth_equalityI) auto

lemma peek_contiguous:
  assumes "holds B buf s" "length s \<le> p + B" "p + n \<le> length s" "p mod B + n \<le> B" "0 < B"
  shows "peek buf (p mod B) n = Some (take n (drop p s))"
proof -
  have l: "length buf = B" using assms(1) by (simp add: holds_def)
  have "buf ! (p mod B + k) = s ! (p + k)" if "k < n" for k
  proof -
    have "(p + k) mod B = p mod B + k" using that assms(4) mod_add_left_eq [of p B k] by simp
    then show ?thesis using holds_nth [OF assms(1,2), of k] that assms(3) by simp
  qed
  then have "take n (drop (p mod B) buf) = take n (drop p s)"
    using l assms by (intro take_drop_eq) auto
  then show ?thesis using l assms(4) by (simp add: peek_def)
qed

lemma peek_wrapped:
  assumes "holds B buf s" "length s \<le> p + B" "p + n \<le> length s" "B < p mod B + n" "0 < B"
  shows "peek buf (p mod B) (B - p mod B) = Some (take (B - p mod B) (drop p s)) \<and>
    peek buf 0 (n - (B - p mod B)) = Some (take (n - (B - p mod B)) (drop (p + (B - p mod B)) s))"
proof -
  let ?a = "B - p mod B"
  have m: "p mod B < B" using assms(5) by simp
  then have a: "?a < n" "?a \<le> B" "0 < ?a" using assms(4) by auto
  have "p + ?a = B * (p div B) + B" using m mult_div_mod_eq [of B p] by linarith
  then have z: "(p + ?a) mod B = 0" by simp
  have "peek buf (p mod B) ?a = Some (take ?a (drop p s))"
    using assms a m by (intro peek_contiguous) auto
  moreover have "peek buf ((p + ?a) mod B) (n - ?a) = Some (take (n - ?a) (drop (p + ?a) s))"
  proof (rule peek_contiguous [OF assms(1)])
    show "(p + ?a) mod B + (n - ?a) \<le> B" unfolding z using assms(2,3) by simp
    show "length s \<le> p + ?a + B" using assms(2) by linarith
    show "p + ?a + (n - ?a) \<le> length s" using assms(3) a(1) by linarith
  qed (rule assms(5))
  ultimately show ?thesis by (simp add: z)
qed

lemma take_split: "a \<le> n \<Longrightarrow> take n (drop p s) = take a (drop p s) @ take (n - a) (drop (p + a) s)"
  using take_add [of a "n - a" "drop p s"] by (simp add: add.commute)

text \<open>A reader positioned at \<open>p\<close> of the stream, the whole of which it may read.\<close>

definition reading :: "u64 \<Rightarrow> byte list \<Rightarrow> nat \<Rightarrow> log_reader \<Rightarrow> bool" where
  "reading bsz s p r \<longleftrightarrow> rd_buf_size r = bsz \<and> unat (rd_end_pos r) = length s \<and>
     unat (rd_read_pos r) = p \<and> p \<le> length s \<and> length s \<le> p + unat bsz"

lemma unat_add_u64: "unat (a :: u64) + unat b < 2 ^ 64 \<Longrightarrow> unat (a + b) = unat a + unat b"
  by (simp add: unat_word_ariths)

lemma ring_read_stream:
  assumes "log_holds bsz f s" "reading bsz s p r" "p + unat n \<le> length s" "length s < 2 ^ 64"
  shows "ring_read_into f n r = Some (take (unat n) (drop p s), r\<lparr>rd_read_pos := rd_read_pos r + n\<rparr>)"
proof -
  have h: "holds (unat bsz) (lf_buf f) s" "0 < unat bsz"
    using assms(1) by (simp_all add: log_holds_def word_less_nat_alt)
  have r: "rd_buf_size r = bsz" "unat (rd_read_pos r) = p" "length s \<le> p + unat bsz"
    using assms(2) by (simp_all add: reading_def)
  let ?off = "rd_read_pos r mod bsz"
  have off: "unat ?off = p mod unat bsz" by (simp add: unat_mod r)
  then have "?off \<le> bsz" using h(2) by (simp add: word_le_nat_alt less_imp_le)
  then have avail: "unat (bsz - ?off) = unat bsz - p mod unat bsz" by (simp add: unat_sub off)
  show ?thesis
  proof (cases "n \<le> bsz - ?off")
    case True
    then have "p mod unat bsz + unat n \<le> unat bsz"
      using mod_less_divisor [OF h(2), of p] unfolding word_le_nat_alt avail by linarith
    then show ?thesis
      using peek_contiguous [OF h(1) r(3) assms(3) _ h(2)] True
      by (simp add: ring_read_into_def Let_def r(1) off)
  next
    case False
    then have big: "unat bsz < p mod unat bsz + unat n" by (simp add: word_le_nat_alt avail)
    have rest: "unat (n - (bsz - ?off)) = unat n - (unat bsz - p mod unat bsz)"
      using False by (simp add: unat_sub avail)
    have "unat bsz - p mod unat bsz \<le> unat n" using big by simp
    then have "take (unat n) (drop p s) = take (unat bsz - p mod unat bsz) (drop p s)
        @ take (unat n - (unat bsz - p mod unat bsz)) (drop (p + (unat bsz - p mod unat bsz)) s)"
      by (rule take_split)
    then show ?thesis
      using peek_wrapped [OF h(1) r(3) assms(3) big h(2)] False
      by (simp add: ring_read_into_def Let_def r(1) off avail rest)
  qed
qed

section \<open>Parsing the end of the stream\<close>

text \<open>What a list of bytes means as records; an incomplete record ends it.\<close>

function parse_records :: "byte list \<Rightarrow> log_entry list" where
  "parse_records bs =
     (if length bs < 12 then []
      else
        (let len = unat (header_length (take 12 bs))
         in if length bs < 12 + len then []
            else (header_timestamp (take 12 bs), take len (drop 12 bs)) # parse_records (drop (12 + len) bs)))"
  by auto
termination by (relation "measure length") auto

declare parse_records.simps [simp del]

lemma parse_encode:
  "length (snd e) < 2 ^ 32 \<Longrightarrow> parse_records (encode e @ bs) = e # parse_records bs"
  by (subst parse_records.simps)
    (simp add: encode_def Let_def unsigned_of_nat take_bit_nat_eq_self)

lemma parse_stream:
  "list_all (\<lambda>e. length (snd e) < 2 ^ 32) es \<Longrightarrow> parse_records (stream es) = es"
proof (induction es)
  case Nil
  show ?case by (subst parse_records.simps) (simp add: stream_def)
qed (simp add: stream_def parse_encode)

section \<open>The reader returns the records of the ring\<close>

text \<open>Positions so far from the end of 64 bits that no sum of the reader wraps.\<close>

definition pos_ok :: "byte list \<Rightarrow> bool" where
  "pos_ok s \<longleftrightarrow> length s + 2 ^ 33 < 2 ^ 64"

lemma reading_facts:
  assumes "reading bsz s p r" "pos_ok s"
  shows "unat (rd_read_pos r + kRecordHeaderSize) = p + 12" "unat (rd_end_pos r) = length s"
    "unat (rd_read_pos r) = p" "p \<le> length s" "length s < 2 ^ 64" "unat kRecordHeaderSize = 12"
proof -
  show k: "unat kRecordHeaderSize = 12" by (simp add: kRecordHeaderSize_def)
  show "unat (rd_end_pos r) = length s" "unat (rd_read_pos r) = p" "p \<le> length s" "length s < 2 ^ 64"
    using assms by (simp_all add: reading_def pos_ok_def)
  show "unat (rd_read_pos r + kRecordHeaderSize) = p + 12"
    using assms k unat_add_u64 [of "rd_read_pos r" kRecordHeaderSize] by (simp add: reading_def pos_ok_def)
qed

lemma reader_next_short:
  assumes "reading bsz s p r" "pos_ok s" "length (drop p s) < 12"
  shows "reader_next f r = Some (r, None)"
proof -
  have "rd_read_pos r + kRecordHeaderSize > rd_end_pos r"
    using reading_facts [OF assms(1,2)] assms(3) by (simp add: word_less_nat_alt)
  then show ?thesis by (simp add: reader_next_def)
qed

lemma reader_next_header:
  assumes "log_holds bsz f s" "reading bsz s p r" "pos_ok s" "12 \<le> length (drop p s)"
  shows "\<not> rd_read_pos r + kRecordHeaderSize > rd_end_pos r \<and>
    ring_read_into f kRecordHeaderSize r =
      Some (take 12 (drop p s), r\<lparr>rd_read_pos := rd_read_pos r + kRecordHeaderSize\<rparr>) \<and>
    reading bsz s (p + 12) (r\<lparr>rd_read_pos := rd_read_pos r + kRecordHeaderSize\<rparr>)"
proof -
  note r = reading_facts [OF assms(2,3)]
  have "p + unat kRecordHeaderSize \<le> length s" using assms(4) r(4,6) by simp
  then show ?thesis
    using ring_read_stream [OF assms(1,2) _ r(5), of kRecordHeaderSize] r assms(2)
    by (simp add: word_less_nat_alt reading_def)
qed

lemma reader_next_record:
  assumes "log_holds bsz f s" "reading bsz s p r" "pos_ok s" "12 \<le> length (drop p s)"
    and "len = unat (header_length (take 12 (drop p s)))"
  shows "if length (drop p s) < 12 + len then reader_next f r = Some (r, None)
    else \<exists>r'. reader_next f r = Some (r', Some (header_timestamp (take 12 (drop p s)), take len (drop 12 (drop p s))))
      \<and> reading bsz s (p + (12 + len)) r' \<and> rd_total_records r' = rd_total_records r + 1"
proof -
  let ?rh = "take 12 (drop p s)" and ?r1 = "r\<lparr>rd_read_pos := rd_read_pos r + kRecordHeaderSize\<rparr>"
  let ?len = "ucast (header_length ?rh) :: u64"
  have h: "\<not> rd_read_pos r + kRecordHeaderSize > rd_end_pos r"
    "ring_read_into f kRecordHeaderSize r = Some (?rh, ?r1)" and r1: "reading bsz s (p + 12) ?r1"
    using reader_next_header [OF assms(1-4)] by blast+
  have len: "unat ?len = len" by (simp add: unat_ucast_u32 assms(5))
  have "len < 2 ^ 32" using unsigned_less [of "header_length ?rh", where 'a = nat] by (simp add: assms(5))
  then have sum: "unat (rd_read_pos ?r1 + ?len) = p + 12 + len"
    using unat_add_u64 [of "rd_read_pos ?r1" ?len] r1 assms(3) len by (simp add: reading_def pos_ok_def)
  have over: "rd_read_pos ?r1 + ?len > rd_end_pos ?r1 \<longleftrightarrow> length (drop p s) < 12 + len"
    unfolding word_less_nat_alt sum using r1 reading_facts(4) [OF assms(2,3)] by (auto simp: reading_def)
  show ?thesis
  proof (cases "length (drop p s) < 12 + len")
    case True
    then have "reader_next f r = Some (?r1\<lparr>rd_read_pos := rd_read_pos ?r1 - kRecordHeaderSize\<rparr>, None)"
      using h over by (simp add: reader_next_def Let_def)
    then show ?thesis using True by simp
  next
    case False
    then have fits: "p + 12 + unat ?len \<le> length s" using reading_facts(4) [OF assms(2,3)] len by auto
    have rd: "ring_read_into f ?len ?r1
        = Some (take len (drop 12 (drop p s)), ?r1\<lparr>rd_read_pos := rd_read_pos ?r1 + ?len\<rparr>)"
      using ring_read_stream [OF assms(1) r1 fits] reading_facts(5) [OF assms(2,3)] len
      by (simp add: add.commute)
    let ?r2 = "?r1\<lparr>rd_read_pos := rd_read_pos ?r1 + ?len\<rparr>"
    let ?r3 = "?r2\<lparr>rd_total_records := rd_total_records ?r2 + 1\<rparr>"
    have "read_payload f ?len ?r1 = ring_read_into f ?len ?r1"
      unfolding ring_read_into_def read_payload_def Let_def by (simp split: option.splits)
    then have "read_payload f ?len ?r1 = Some (take len (drop 12 (drop p s)), ?r2)"
      using rd by simp
    with h over False have "reader_next f r
        = Some (?r3, Some (header_timestamp ?rh, take len (drop 12 (drop p s))))"
      by (simp add: reader_next_def Let_def)
    moreover have "reading bsz s (p + (12 + len)) ?r3"
      using r1 sum fits len by (simp add: reading_def add.assoc)
    moreover have "rd_total_records ?r3 = rd_total_records r + 1" by simp
    ultimately show ?thesis using False by (simp only: if_False) blast
  qed
qed

lemma reader_drain_stream:
  assumes "log_holds bsz f s" "pos_ok s"
  shows "reading bsz s p r \<Longrightarrow> length (parse_records (drop p s)) < fuel \<Longrightarrow>
    \<exists>r'. reader_drain fuel f r = Some (parse_records (drop p s), r') \<and>
      rd_total_records r' = rd_total_records r + of_nat (length (parse_records (drop p s)))"
proof (induction fuel arbitrary: p r)
  case (Suc fuel)
  let ?w = "drop p s"
  define len where "len = unat (header_length (take 12 ?w))"
  consider (short) "length ?w < 12" | (cut) "12 \<le> length ?w" "length ?w < 12 + len"
    | (rec) "12 + len \<le> length ?w" by linarith
  then show ?case
  proof cases
    case short
    then have "parse_records ?w = []" by (subst parse_records.simps) simp
    then show ?thesis using reader_next_short [OF Suc.prems(1) assms(2) short] by simp
  next
    case cut
    then have "parse_records ?w = []" by (subst parse_records.simps) (simp add: Let_def len_def)
    then show ?thesis using reader_next_record [OF assms(1) Suc.prems(1) assms(2) cut(1) len_def] cut by simp
  next
    case rec
    then have w: "parse_records ?w = (header_timestamp (take 12 ?w), take len (drop 12 ?w))
        # parse_records (drop (p + (12 + len)) s)"
      by (subst parse_records.simps) (simp add: Let_def len_def add.commute)
    obtain r' where n: "reader_next f r = Some (r', Some (header_timestamp (take 12 ?w), take len (drop 12 ?w)))"
      "reading bsz s (p + (12 + len)) r'" "rd_total_records r' = rd_total_records r + 1"
      using reader_next_record [OF assms(1) Suc.prems(1) assms(2) _ len_def] rec by auto
    have "length (parse_records (drop (p + (12 + len)) s)) < fuel" using Suc.prems(2) w by simp
    from Suc.IH [OF n(2) this] show ?thesis using n w by auto
  qed
qed simp

lemma reader_open_reading:
  assumes "log_holds bsz f s" "sys_open sys" "sys_fstat sys" "sys_mmap sys"
  shows "\<exists>r. reader_open sys (Some f) = Inr r \<and> reading bsz s (length s - unat bsz) r \<and> rd_total_records r = 0"
proof -
  have "unat (oldest_pos bsz (lh_write_pos (lf_header f))) = length s - unat bsz"
    using assms(1) by (auto simp: oldest_pos_def log_holds_def word_less_nat_alt unat_sub word_le_nat_alt)
  then show ?thesis
    using assms by (simp add: reader_open_def log_holds_def Let_def reading_def)
qed

lemma length_parse_records: "length (parse_records bs) \<le> length bs"
proof (induction bs rule: parse_records.induct)
  case (1 bs)
  then show ?case by (subst parse_records.simps) (auto simp: Let_def)
qed

section \<open>A log and its reader\<close>

fun write_all :: "log_entry list \<Rightarrow> log_file \<Rightarrow> log_file option" where
  "write_all [] f = Some f"
| "write_all ((ts, payload) # es) f =
     (case log_write ts payload f of None \<Rightarrow> None | Some f' \<Rightarrow> write_all es f')"

lemma stream_simps [simp]: "stream [] = []" "stream (e # es) = encode e @ stream es"
  by (simp_all add: stream_def)

lemma write_all_holds:
  assumes "log_holds bsz f s" "list_all (record_fits bsz) es" "12 \<le> unat bsz" "length (s @ stream es) < 2 ^ 64"
  shows "\<exists>f'. write_all es f = Some f' \<and> log_holds bsz f' (s @ stream es)"
  using assms
proof (induction es arbitrary: f s)
  case (Cons e es)
  obtain ts payload where e: "e = (ts, payload)" by fastforce
  have fit: "record_fits bsz (ts, payload)" "list_all (record_fits bsz) es" using Cons.prems(2) e by simp_all
  have "length s + length (encode (ts, payload)) < 2 ^ 64" using Cons.prems(4) e by simp
  then obtain f1 where "log_write ts payload f = Some f1" "log_holds bsz f1 (s @ encode e)"
    using log_write_holds [OF Cons.prems(1) fit(1) Cons.prems(3)] e by auto
  moreover obtain f2 where "write_all es f1 = Some f2" "log_holds bsz f2 ((s @ encode e) @ stream es)"
    using Cons.IH [OF calculation(2) fit(2) Cons.prems(3)] Cons.prems(4) by auto
  ultimately show ?case by (simp add: e)
qed simp

lemma round_up_page_bounds:
  assumes "0 < ps" "unat n + unat ps \<le> 2 ^ 64"
  shows "unat n \<le> unat (round_up_page ps n)" "unat ps dvd unat (round_up_page ps n)"
proof -
  let ?p = "unat ps" and ?m = "unat n + unat ps - 1"
  have p: "0 < ?p" using assms(1) by (simp add: word_less_nat_alt)
  have s: "unat (n + ps - 1) = ?m"
  proof -
    have "unat (ps - 1) = ?p - 1" using p by (intro unat_minus_one) auto
    then have "unat (n + (ps - 1)) = unat n + (?p - 1)" using assms(2) p by (intro unat_add_u64 [THEN trans]) auto
    then show ?thesis using p by (simp add: algebra_simps)
  qed
  have le: "?m div ?p * ?p \<le> ?m" by simp
  then have "?m div ?p * ?p < 2 ^ 64" using assms(2) p by linarith
  moreover have "?m div ?p < 2 ^ 64" using assms(2) p div_le_dividend [of ?m ?p] by linarith
  ultimately have eq: "unat (round_up_page ps n) = ?m div ?p * ?p"
    by (simp add: round_up_page_def unat_word_ariths unat_div s)
  have "?m < ?m div ?p * ?p + ?p" using p by (metis div_mult_mod_eq mod_less_divisor nat_add_left_cancel_less)
  then show "unat n \<le> unat (round_up_page ps n)" using eq p by linarith
  show "?p dvd unat (round_up_page ps n)" by (simp add: eq)
qed

definition sys_ok :: system_calls where
  "sys_ok = \<lparr> sys_open = True, sys_ftruncate = True, sys_fstat = True, sys_mmap = True \<rparr>"

lemma logger_open_holds:
  assumes "0 < bytes" "12 \<le> unat ps" "unat bytes + unat ps \<le> 2 ^ 64"
  shows "\<exists>f. logger_open ps sys_ok bytes = Inr f \<and> log_holds (round_up_page ps bytes) f [] \<and>
    12 \<le> unat (round_up_page ps bytes)"
proof -
  have "0 < ps" using assms(2) by (simp add: word_less_nat_alt)
  note b = round_up_page_bounds [OF this assms(3)]
  have n: "0 < unat bytes" using assms(1) by (simp add: word_less_nat_alt)
  then have "unat ps \<le> unat (round_up_page ps bytes)" using b by (intro dvd_imp_le) auto
  then have B: "12 \<le> unat (round_up_page ps bytes)" using assms(2) by simp
  then have "0 < round_up_page ps bytes" by (simp add: word_less_nat_alt)
  then show ?thesis
    using assms(1) B by (simp add: logger_open_def sys_ok_def log_holds_def holds_def Let_def)
qed

text \<open>The whole use of a log: open, write, open a reader, read to the end.\<close>

definition log_session :: "u64 \<Rightarrow> u64 \<Rightarrow> log_entry list \<Rightarrow> nat \<Rightarrow> (log_entry list \<times> log_reader) option" where
  "log_session ps bytes es fuel =
     (case logger_open ps sys_ok bytes of
        Inl _ \<Rightarrow> None
      | Inr f0 \<Rightarrow>
          (case write_all es f0 of
             None \<Rightarrow> None
           | Some f \<Rightarrow>
               (case reader_open sys_ok (Some f) of Inl _ \<Rightarrow> None | Inr r \<Rightarrow> reader_drain fuel f r)))"

lemma log_session_parses:
  assumes "0 < bytes" "12 \<le> unat ps" "unat bytes + unat ps \<le> 2 ^ 64"
    and "list_all (record_fits (round_up_page ps bytes)) es" "pos_ok (stream es)"
    and "length (parse_records (drop (length (stream es) - unat (round_up_page ps bytes)) (stream es))) < fuel"
  shows "\<exists>r. log_session ps bytes es fuel =
      Some (parse_records (drop (length (stream es) - unat (round_up_page ps bytes)) (stream es)), r) \<and>
    rd_total_records r =
      of_nat (length (parse_records (drop (length (stream es) - unat (round_up_page ps bytes)) (stream es))))"
proof -
  obtain f0 where f0: "logger_open ps sys_ok bytes = Inr f0" "log_holds (round_up_page ps bytes) f0 []"
    "12 \<le> unat (round_up_page ps bytes)" using logger_open_holds [OF assms(1-3)] by blast
  obtain f where f: "write_all es f0 = Some f" "log_holds (round_up_page ps bytes) f (stream es)"
    using write_all_holds [OF f0(2) assms(4) f0(3)] assms(5) by (auto simp: pos_ok_def)
  obtain r where r: "reader_open sys_ok (Some f) = Inr r"
    "reading (round_up_page ps bytes) (stream es) (length (stream es) - unat (round_up_page ps bytes)) r"
    "rd_total_records r = 0"
    using reader_open_reading [OF f(2), of sys_ok] by (auto simp: sys_ok_def)
  from reader_drain_stream [OF f(2) assms(5) r(2) assms(6)]
  show ?thesis using f0(1) f(1) r by (auto simp: log_session_def)
qed

text \<open>
  C22: As long as the log has not wrapped, a reader opened after the writes returns exactly
  the records that were written, in order, then reports the end, having counted them.
\<close>

theorem log_round_trip:
  assumes "0 < bytes" and "12 \<le> unat ps" and "unat bytes + unat ps \<le> 2 ^ 64"
    and "list_all (record_fits (round_up_page ps bytes)) es" and "pos_ok (stream es)"
    and "length (stream es) \<le> unat (round_up_page ps bytes)"
  shows "\<exists>r. log_session ps bytes es (Suc (length es)) = Some (es, r) \<and> rd_total_records r = of_nat (length es)"
proof -
  have "list_all (\<lambda>e. length (snd e) < 2 ^ 32) es" using assms(4) by (auto simp: list_all_iff record_fits_def)
  then have "parse_records (stream es) = es" by (rule parse_stream)
  then show ?thesis using log_session_parses [OF assms(1-5), of "Suc (length es)"] assms(6) by simp
qed

lemma log_session_to_end:
  assumes "0 < bytes" and "12 \<le> unat ps" and "unat bytes + unat ps \<le> 2 ^ 64"
    and "list_all (record_fits (round_up_page ps bytes)) es" and "pos_ok (stream es)"
  shows "\<exists>r. log_session ps bytes es (Suc (length (stream es))) =
      Some (parse_records (drop (length (stream es) - unat (round_up_page ps bytes)) (stream es)), r)"
proof -
  have "length (parse_records (drop (length (stream es) - unat (round_up_page ps bytes)) (stream es)))
      < Suc (length (stream es))"
    using length_parse_records [of "drop (length (stream es) - unat (round_up_page ps bytes)) (stream es)"] by simp
  from log_session_parses [OF assms this] show ?thesis by blast
qed

text \<open>
  C38: However much was written, the reader stays within the ring and returns what the last
  \<open>B\<close> bytes of the stream parse as, \<open>B\<close> being the size of the ring; within as many calls as
  there are bytes it reports the end.
\<close>

theorem log_reader_parses_ring:
  assumes "0 < bytes" and "12 \<le> unat ps" and "unat bytes + unat ps \<le> 2 ^ 64"
    and "list_all (record_fits (round_up_page ps bytes)) es" and "pos_ok (stream es)"
  shows "\<exists>r. log_session ps bytes es (Suc (length (stream es))) =
      Some (parse_records (drop (length (stream es) - unat (round_up_page ps bytes)) (stream es)), r)"
  by (rule log_session_to_end [OF assms])

text \<open>
  Once the log has wrapped, the oldest byte in the ring need not start a record, and the
  reader makes up records: after two records of 3000 zero bytes in a ring of one page, it
  starts with an empty record of time 0 that nobody wrote.
\<close>

theorem wrapped_log_invents_records:
  "let es = [(t1, replicate 3000 0), (t2, replicate 3000 0)]
   in \<exists>es' r. log_session 4096 4096 es (Suc (length (stream es))) = Some ((0, []) # es', r) \<and>
        (0, []) \<notin> set es"
proof -
  let ?es = "[(t1, replicate 3000 0), (t2, replicate 3000 0)] :: log_entry list"
  have B: "unat (round_up_page 4096 4096) = 4096" by (simp add: round_up_page_def)
  have len: "length (stream ?es) = 6024" by simp
  have fits: "list_all (record_fits (round_up_page 4096 4096)) ?es" by (simp add: record_fits_def B)
  have pos: "pos_ok (stream ?es)" by (simp add: pos_ok_def)
  have tail: "drop 1928 (stream ?es) = replicate 12 0 @ replicate 1072 0 @ encode (t2, replicate 3000 0)"
    by (simp add: encode_def replicate_add [symmetric])
  have z: "header_length (replicate 12 0) = 0" "header_timestamp (replicate 12 0) = 0"
    by (simp_all add: header_length_def header_timestamp_def numeral_eq_Suc)
  have "parse_records (replicate 12 0 @ bs) = (0, []) # parse_records bs" for bs
    by (subst parse_records.simps) (simp add: Let_def z)
  then obtain es' where "parse_records (drop 1928 (stream ?es)) = (0, []) # es'" unfolding tail by blast
  moreover have "length (stream ?es) - unat (round_up_page 4096 4096) = 1928" by (simp add: B)
  moreover have "\<exists>r. log_session 4096 4096 ?es (Suc (length (stream ?es))) =
      Some (parse_records (drop (length (stream ?es) - unat (round_up_page 4096 4096)) (stream ?es)), r)"
    by (rule log_session_to_end [OF _ _ _ fits pos]) simp_all
  ultimately have "\<exists>es' r. log_session 4096 4096 ?es (Suc (length (stream ?es))) = Some ((0, []) # es', r)"
    by (simp only:) blast
  then show ?thesis by (auto simp: Let_def)
qed

section \<open>Witnesses\<close>

definition sample_entries :: "log_entry list" where
  "sample_entries = [(5, [1, 2, 3]), (6, []), (7, [9])]"

lemma sample_page: "round_up_page 4096 1 = 4096"
  by (simp add: round_up_page_def)

lemma sample_entries_fit: "list_all (record_fits (round_up_page 4096 1)) sample_entries"
    "pos_ok (stream sample_entries)" "length (stream sample_entries) = 40"
  by (simp_all add: sample_entries_def record_fits_def sample_page pos_ok_def)

theorem log_round_trip_witness:
  "\<exists>r. log_session 4096 1 sample_entries 4 = Some (sample_entries, r) \<and> rd_total_records r = 3"
proof -
  have "\<exists>r. log_session 4096 1 sample_entries (Suc (length sample_entries)) = Some (sample_entries, r) \<and>
      rd_total_records r = of_nat (length sample_entries)"
    by (rule log_round_trip [OF _ _ _ sample_entries_fit(1,2)])
      (simp_all add: sample_entries_fit(3) sample_page)
  then show ?thesis by (simp add: sample_entries_def numeral_eq_Suc)
qed

theorem log_reader_parses_ring_witness:
  "\<exists>r. log_session 4096 1 sample_entries 41 = Some (parse_records (stream sample_entries), r)"
proof -
  have "\<exists>r. log_session 4096 1 sample_entries (Suc (length (stream sample_entries))) =
      Some (parse_records (drop (length (stream sample_entries) - unat (round_up_page 4096 1)) (stream sample_entries)), r)"
    by (rule log_reader_parses_ring [OF _ _ _ sample_entries_fit(1,2)]) simp_all
  then show ?thesis by (simp add: sample_entries_fit(3) sample_page)
qed

end
