(* ===== verification/Memory_Pool.thy ===== *)
theory Memory_Pool
  imports Prelude
begin

text \<open>
  \<open>MemoryPool<T, N>\<close> (\<open>include/smartquant/common/memory_pool.hpp\<close>): a slab of \<open>N\<close> slots,
  each a union of an object and the link of the free list.  Pointers are slot numbers, the
  null pointer is \<open>None\<close>; reading the link of a slot that does not hold one is undefined
  behaviour, the value \<open>None\<close> of the operation.
\<close>

section \<open>State and operations\<close>

datatype 'a slot = Object 'a | Raw | Next "nat option"

record 'a pool =
  pl_slots :: "'a slot list"
  pl_free_head :: "nat option"
  pl_free_count :: u64

definition pool_new :: "nat \<Rightarrow> 'a pool" where
  "pool_new n = \<lparr> pl_slots = map (\<lambda>i. Next (Some (i + 1))) [0..<n - 1] @ [Next None],
     pl_free_head = Some 0, pl_free_count = of_nat n \<rparr>"

text \<open>The common part of \<open>alloc\<close> and \<open>alloc_raw\<close>: unlink the first free slot.\<close>

definition pool_take :: "'a slot \<Rightarrow> 'a pool \<Rightarrow> ('a pool \<times> nat option) option" where
  "pool_take content p =
     (case pl_free_head p of
        None \<Rightarrow> Some (p, None)
      | Some s \<Rightarrow>
          (case pl_slots p ! s of
             Next n \<Rightarrow> Some (p\<lparr>pl_slots := (pl_slots p)[s := content], pl_free_head := n,
                             pl_free_count := pl_free_count p - 1\<rparr>, Some s)
           | _ \<Rightarrow> None))"

definition pool_alloc :: "'a \<Rightarrow> 'a pool \<Rightarrow> ('a pool \<times> nat option) option" where
  "pool_alloc zeroed p = pool_take (Object zeroed) p"

definition pool_alloc_raw :: "'a pool \<Rightarrow> ('a pool \<times> nat option) option" where
  "pool_alloc_raw p = pool_take Raw p"

definition pool_free :: "nat option \<Rightarrow> 'a pool \<Rightarrow> 'a pool" where
  "pool_free ptr p =
     (case ptr of
        None \<Rightarrow> p
      | Some s \<Rightarrow> p\<lparr>pl_slots := (pl_slots p)[s := Next (pl_free_head p)], pl_free_head := Some s,
                   pl_free_count := pl_free_count p + 1\<rparr>)"

definition pool_empty :: "'a pool \<Rightarrow> bool" where
  "pool_empty p \<longleftrightarrow> pl_free_count p = 0"

definition pool_total_count :: "'a pool \<Rightarrow> nat" where
  "pool_total_count p = length (pl_slots p)"

text \<open>The client writes through a pointer.\<close>

definition pool_store :: "nat \<Rightarrow> 'a \<Rightarrow> 'a pool \<Rightarrow> 'a pool" where
  "pool_store s x p = p\<lparr>pl_slots := (pl_slots p)[s := Object x]\<rparr>"

section \<open>The contract of an allocator\<close>

text \<open>\<open>owned L p\<close>: the slots in \<open>L\<close>, and no others of the \<open>cap\<close> slots, are handed out.\<close>

locale allocator =
  fixes take_slot :: "'p \<Rightarrow> ('p \<times> nat option) option"
    and give_back :: "nat \<Rightarrow> 'p \<Rightarrow> 'p"
    and owned :: "nat set \<Rightarrow> 'p \<Rightarrow> bool"
    and cap :: nat
  assumes take_ok: "owned L p \<Longrightarrow> card L < cap \<Longrightarrow>
        \<exists>p' s. take_slot p = Some (p', Some s) \<and> s \<notin> L \<and> owned (insert s L) p'"
    and take_none: "owned L p \<Longrightarrow> card L = cap \<Longrightarrow> take_slot p = Some (p, None)"
    and give_ok: "owned L p \<Longrightarrow> s \<in> L \<Longrightarrow> owned (L - {s}) (give_back s p)"
    and owned_sub: "owned L p \<Longrightarrow> L \<subseteq> {..<cap}"
begin

lemma owned_card: "owned L p \<Longrightarrow> finite L \<and> card L \<le> cap"
  using owned_sub [of L p] finite_subset card_mono [of "{..<cap}" L] by fastforce

lemma take_cases:
  assumes "owned L p"
  obtains (taken) p' s where "take_slot p = Some (p', Some s)" "s \<notin> L" "owned (insert s L) p'"
  | (exhausted) "take_slot p = Some (p, None)" "card L = cap"
  using take_ok [OF assms] take_none [OF assms] owned_card [OF assms] by fastforce

text \<open>After returning a slot there is one to take.\<close>

lemma give_then_take: "owned L p \<Longrightarrow> s \<in> L \<Longrightarrow> \<exists>p' s'. take_slot (give_back s p) = Some (p', Some s')"
  using take_ok [OF give_ok, of L p s] owned_card [of L p] card_Diff1_less [of L s] by fastforce

end

section \<open>The free list\<close>

text \<open>\<open>is\<close> are the slots on the free list from \<open>h\<close> on.\<close>

primrec free_chain :: "'a slot list \<Rightarrow> nat option \<Rightarrow> nat list \<Rightarrow> bool" where
  "free_chain slots h [] \<longleftrightarrow> h = None"
| "free_chain slots h (i # is) \<longleftrightarrow>
     h = Some i \<and> i < length slots \<and> (\<exists>n. slots ! i = Next n \<and> free_chain slots n is)"

definition pool_owned :: "nat \<Rightarrow> nat set \<Rightarrow> 'a pool \<Rightarrow> bool" where
  "pool_owned n L p \<longleftrightarrow> length (pl_slots p) = n \<and> n < 2 ^ 64 \<and>
     (\<exists>is. free_chain (pl_slots p) (pl_free_head p) is \<and> distinct is \<and>
        unat (pl_free_count p) = length is \<and> L \<inter> set is = {} \<and> L \<union> set is = {..<n})"

lemma free_chain_update:
  "i \<notin> set is \<Longrightarrow> free_chain (slots[i := x]) h is = free_chain slots h is"
  by (induction "is" arbitrary: h) auto

lemma free_chain_new:
  "j + k + 1 = length slots \<Longrightarrow> (\<forall>i < length slots. slots ! i = Next (if i + 1 < length slots then Some (i + 1) else None))
    \<Longrightarrow> free_chain slots (Some j) [j..<length slots]"
proof (induction k arbitrary: j)
  case 0
  then have "[j..<length slots] = [j]" by (simp add: upt_conv_Cons)
  with 0 show ?case by simp
next
  case (Suc k)
  then have "[j..<length slots] = j # [j + 1..<length slots]" by (simp add: upt_conv_Cons)
  with Suc show ?case by simp
qed

lemma pool_new_owned: "0 < n \<Longrightarrow> n < 2 ^ 64 \<Longrightarrow> pool_owned n {} (pool_new n :: 'a pool)"
proof -
  assume n: "0 < n" "n < 2 ^ 64"
  let ?s = "pl_slots (pool_new n :: 'a pool)"
  have l: "length ?s = n" using n by (simp add: pool_new_def)
  have "?s ! i = Next (if i + 1 < n then Some (i + 1) else None)" if "i < n" for i
    using that n by (auto simp: pool_new_def nth_append)
  then have "free_chain ?s (Some 0) [0..<n]"
    using free_chain_new [of 0 "n - 1" ?s] n unfolding l by simp
  moreover have "unat (of_nat n :: u64) = n" using n by (simp add: unsigned_of_nat take_bit_nat_eq_self)
  ultimately show ?thesis
    unfolding pool_owned_def using n l by (intro conjI exI [of _ "[0..<n]"]) (auto simp: pool_new_def)
qed

lemma pool_owned_card: "pool_owned n L p \<Longrightarrow> finite L \<and> card L + unat (pl_free_count p) = n"
proof -
  assume "pool_owned n L p"
  then obtain "is" where i: "distinct is" "unat (pl_free_count p) = length is" "L \<inter> set is = {}" "L \<union> set is = {..<n}"
    by (auto simp: pool_owned_def)
  then have f: "finite L" by (metis finite_Un finite_lessThan)
  then have "card L + card (set is) = card {..<n}" using i card_Un_disjoint [of L "set is"] by simp
  then show ?thesis using f i by (simp add: distinct_card)
qed

lemma pool_take_owned:
  assumes "pool_owned n L p"
  shows "if card L < n
    then \<exists>p' s. pool_take x p = Some (p', Some s) \<and> s \<notin> L \<and> pool_owned n (insert s L) p' \<and>
      (\<forall>j. j \<noteq> s \<longrightarrow> pl_slots p' ! j = pl_slots p ! j) \<and> pl_slots p' ! s = x
    else pool_take x p = Some (p, None)"
proof -
  obtain "is" where i: "free_chain (pl_slots p) (pl_free_head p) is" "distinct is"
      "unat (pl_free_count p) = length is" "L \<inter> set is = {}" "L \<union> set is = {..<n}"
      and n: "length (pl_slots p) = n" "n < 2 ^ 64" using assms by (auto simp: pool_owned_def)
  show ?thesis
  proof (cases "is")
    case Nil
    then show ?thesis using i pool_owned_card [OF assms] by (simp add: pool_take_def)
  next
    case (Cons s js)
    then obtain m where m: "pl_free_head p = Some s" "s < n" "pl_slots p ! s = Next m" "free_chain (pl_slots p) m js"
      using i n by auto
    let ?p = "p\<lparr>pl_slots := (pl_slots p)[s := x], pl_free_head := m, pl_free_count := pl_free_count p - 1\<rparr>"
    have "pl_free_count p \<noteq> 0" using i(3) Cons by auto
    then have "unat (pl_free_count p - 1) = length js" using i(3) Cons by (simp add: unat_minus_one)
    moreover have "insert s L \<inter> set js = {}" "insert s L \<union> set js = {..<n}" using i Cons by auto
    ultimately have "pool_owned n (insert s L) ?p"
      unfolding pool_owned_def using i(2) m(4) n Cons
      by (intro conjI exI [of _ js]) (simp_all add: free_chain_update)
    moreover have "s \<notin> L" using i Cons by auto
    moreover have "card L < n" using pool_owned_card [OF assms] i(3) Cons by simp
    ultimately show ?thesis using m n by (simp add: pool_take_def)
  qed
qed

lemma pool_free_owned:
  assumes "pool_owned n L p" "s \<in> L"
  shows "pool_owned n (L - {s}) (pool_free (Some s) p)"
proof -
  obtain "is" where i: "free_chain (pl_slots p) (pl_free_head p) is" "distinct is"
      "unat (pl_free_count p) = length is" "L \<inter> set is = {}" "L \<union> set is = {..<n}"
      and n: "length (pl_slots p) = n" "n < 2 ^ 64" using assms(1) by (auto simp: pool_owned_def)
  have s: "s \<notin> set is" "s < n" using i assms(2) by auto
  have "0 < card L" using assms(2) pool_owned_card [OF assms(1)] card_gt_0_iff by blast
  then have "unat (pl_free_count p) + 1 < 2 ^ 64" using pool_owned_card [OF assms(1)] n(2) by linarith
  then have "unat (pl_free_count p + 1) = Suc (length is)" using i(3) by (simp add: unat_Suc_u64)
  then show ?thesis
    unfolding pool_owned_def using i n s assms(2)
    by (intro conjI exI [of _ "s # is"]) (auto simp: pool_free_def free_chain_update)
qed

lemma pool_store_owned: "pool_owned n L p \<Longrightarrow> s \<in> L \<Longrightarrow> pool_owned n L (pool_store s x p)"
proof -
  assume a: "pool_owned n L p" "s \<in> L"
  then obtain "is" where "free_chain (pl_slots p) (pl_free_head p) is" "distinct is"
      "unat (pl_free_count p) = length is" "L \<inter> set is = {}" "L \<union> set is = {..<n}"
      by (auto simp: pool_owned_def)
  moreover from this have "s \<notin> set is" using a(2) by auto
  ultimately show ?thesis using a(1) unfolding pool_owned_def
    by (intro conjI exI [of _ "is"]) (auto simp: pool_store_def free_chain_update)
qed

interpretation slab: allocator "pool_take x" "\<lambda>s. pool_free (Some s)" "pool_owned n" n
  for x :: "'a slot" and n :: nat
proof unfold_locales
  fix L and p :: "'a pool" and s
  assume o: "pool_owned n L p"
  show "\<exists>p' s. pool_take x p = Some (p', Some s) \<and> s \<notin> L \<and> pool_owned n (insert s L) p'" if "card L < n"
    using pool_take_owned [OF o, of x] that by auto
  show "pool_take x p = Some (p, None)" if "card L = n"
    using pool_take_owned [OF o, of x] that by simp
  show "pool_owned n (L - {s}) (pool_free (Some s) p)" if "s \<in> L" using pool_free_owned [OF o that] .
  show "L \<subseteq> {..<n}" using o by (auto simp: pool_owned_def)
qed

section \<open>Any client\<close>

text \<open>What a client does; \<open>Store\<close> and \<open>Free\<close> name one of the pointers it holds by position.\<close>

datatype 'a pool_op = Alloc 'a | AllocRaw | Store nat 'a | Free nat

definition hold :: "('a pool \<times> nat option) option \<Rightarrow> nat list \<Rightarrow> ('a pool \<times> nat list) option" where
  "hold res ptrs = map_option (\<lambda>(p, ptr). (p, case ptr of None \<Rightarrow> ptrs | Some s \<Rightarrow> ptrs @ [s])) res"

fun pool_step :: "'a pool_op \<Rightarrow> 'a pool \<times> nat list \<Rightarrow> ('a pool \<times> nat list) option" where
  "pool_step (Alloc zeroed) (p, ptrs) = hold (pool_alloc zeroed p) ptrs"
| "pool_step AllocRaw (p, ptrs) = hold (pool_alloc_raw p) ptrs"
| "pool_step (Store k x) (p, ptrs) = Some (if k < length ptrs then pool_store (ptrs ! k) x p else p, ptrs)"
| "pool_step (Free k) (p, ptrs) =
     Some (if k < length ptrs then (pool_free (Some (ptrs ! k)) p, remove1 (ptrs ! k) ptrs)
           else (pool_free None p, ptrs))"

fun pool_run :: "'a pool_op list \<Rightarrow> 'a pool \<times> nat list \<Rightarrow> ('a pool \<times> nat list) option" where
  "pool_run [] st = Some st"
| "pool_run (op # ops) st = (case pool_step op st of None \<Rightarrow> None | Some st' \<Rightarrow> pool_run ops st')"

lemma hold_take_owned:
  assumes "pool_owned n (set ptrs) p" "distinct ptrs"
  shows "\<exists>p' ptrs'. hold (pool_take x p) ptrs = Some (p', ptrs') \<and> pool_owned n (set ptrs') p' \<and> distinct ptrs'"
proof (rule slab.take_cases [OF assms(1), of x])
  fix p' s
  assume "pool_take x p = Some (p', Some s)" "s \<notin> set ptrs" "pool_owned n (insert s (set ptrs)) p'"
  then show ?thesis using assms(2) by (simp add: hold_def)
qed (use assms in \<open>simp add: hold_def\<close>)

lemma pool_step_owned:
  assumes "pool_owned n (set ptrs) p" "distinct ptrs"
  shows "\<exists>p' ptrs'. pool_step op (p, ptrs) = Some (p', ptrs') \<and> pool_owned n (set ptrs') p' \<and> distinct ptrs'"
proof (cases op)
  case (Store k x)
  then show ?thesis using assms pool_store_owned [OF assms(1), of "ptrs ! k" x] by simp
next
  case (Free k)
  then show ?thesis using assms slab.give_ok [OF assms(1), of "ptrs ! k"]
    by (simp add: pool_free_def [of None])
qed (use hold_take_owned [OF assms] in \<open>simp_all add: pool_alloc_def pool_alloc_raw_def\<close>)

lemma pool_run_owned:
  "pool_owned n (set ptrs) p \<Longrightarrow> distinct ptrs \<Longrightarrow>
    \<exists>p' ptrs'. pool_run ops (p, ptrs) = Some (p', ptrs') \<and> pool_owned n (set ptrs') p' \<and> distinct ptrs'"
proof (induction ops arbitrary: p ptrs)
  case (Cons op ops)
  obtain p1 ptrs1 where "pool_step op (p, ptrs) = Some (p1, ptrs1)" "pool_owned n (set ptrs1) p1" "distinct ptrs1"
    using pool_step_owned [OF Cons.prems] by blast
  then show ?case using Cons.IH by simp
qed simp

text \<open>
  C35: Whatever a client allocates, writes and frees, as long as it frees and writes only what
  it holds: no operation reads an overwritten link, the pointers it holds are distinct slots
  of the pool, the free count is the number of the other slots, and the pool reports itself
  empty exactly when all slots are out.
\<close>

theorem pool_hands_out_distinct_slots:
  assumes "0 < n" and "n < 2 ^ 64"
  shows "\<exists>p ptrs. pool_run ops (pool_new n, []) = Some (p, ptrs) \<and> distinct ptrs \<and> set ptrs \<subseteq> {..<n} \<and>
    unat (pl_free_count p) + length ptrs = n \<and> pool_empty p = (length ptrs = n)"
proof -
  obtain p ptrs where r: "pool_run ops (pool_new n, []) = Some (p, ptrs)" "pool_owned n (set ptrs) p" "distinct ptrs"
    using pool_run_owned [of n "[]" "pool_new n" ops] pool_new_owned [OF assms] by auto
  then have "unat (pl_free_count p) + length ptrs = n" using pool_owned_card distinct_card by fastforce
  moreover from this have "pool_empty p = (length ptrs = n)" by (auto simp: pool_empty_def unat_eq_zero)
  ultimately show ?thesis using r slab.owned_sub by blast
qed

theorem pool_hands_out_distinct_slots_witness:
  "\<exists>p ptrs. pool_run [Alloc 0, AllocRaw, Free 0, Alloc (7 :: int), Alloc 8] (pool_new 2, []) = Some (p, ptrs) \<and>
     distinct ptrs \<and> unat (pl_free_count p) + length ptrs = 2"
  using pool_hands_out_distinct_slots [of 2 "[Alloc 0, AllocRaw, Free 0, Alloc (7 :: int), Alloc 8]"] by auto

end
