(* ===== verification/Tsc_Clock.thy ===== *)
theory Tsc_Clock
  imports Binary64
begin

text \<open>
  \<open>TscClock\<close> (\<open>include/smartquant/common/tsc_clock.hpp\<close>): wall-clock nanoseconds from the
  processor's time-stamp counter.  The samples of the system clock and of the counter are
  parameters; all arithmetic on \<open>uint64_t\<close> wraps, the frequency is a double.  Converting a
  double outside the range of \<open>uint64_t\<close> is undefined behaviour, the value \<open>None\<close>.
\<close>

section \<open>State and operations\<close>

record tsc_clock =
  tc_freq_ghz :: f64
  tc_epoch_tsc :: u64
  tc_epoch_wall_ns :: u64
  tc_calibrated :: bool

definition clock_init :: tsc_clock where
  "clock_init = \<lparr> tc_freq_ghz = 1, tc_epoch_tsc = 0, tc_epoch_wall_ns = 0, tc_calibrated = False \<rparr>"

text \<open>\<open>struct timespec\<close>: seconds and nanoseconds.\<close>

type_synonym timespec = "int \<times> int"

definition wall_ns :: "timespec \<Rightarrow> timespec \<Rightarrow> u64" where
  "wall_ns t0 t1 =
     of_int (fst t1 - fst t0) * 1000000000 + (of_int (snd t1) - of_int (snd t0))"

definition calibrate :: "timespec \<Rightarrow> u64 \<Rightarrow> u64 \<Rightarrow> timespec \<Rightarrow> string + tsc_clock" where
  "calibrate t0 tsc0 tsc1 t1 =
     (if wall_ns t0 t1 = 0 \<or> tsc1 \<le> tsc0 then Inl ''TscClock::calibrate failed: bad samples''
      else Inr \<lparr> tc_freq_ghz = f64_div (f64_of_int (uint (tsc1 - tsc0))) (f64_of_int (uint (wall_ns t0 t1))),
                 tc_epoch_tsc = tsc0,
                 tc_epoch_wall_ns = of_int (fst t0) * 1000000000 + of_int (snd t0),
                 tc_calibrated = True \<rparr>)"

fun f64_to_u64 :: "f64 \<Rightarrow> u64 option" where
  "f64_to_u64 (Fin x) = (if 0 \<le> rat_trunc x \<and> rat_trunc x < 2 ^ 64 then Some (of_int (rat_trunc x)) else None)"
| "f64_to_u64 _ = None"

definition now_ns :: "tsc_clock \<Rightarrow> u64 \<Rightarrow> u64 option" where
  "now_ns c tsc =
     map_option (\<lambda>elapsed. tc_epoch_wall_ns c + elapsed)
       (f64_to_u64 (f64_div (f64_of_int (uint (tsc - tc_epoch_tsc c))) (tc_freq_ghz c)))"

text \<open>The two halves of \<open>rdtsc\<close>.\<close>

definition rdtsc :: "u32 \<Rightarrow> u32 \<Rightarrow> u64" where
  "rdtsc lo hi = or (push_bit 32 (ucast hi)) (ucast lo)"

section \<open>Rounding of positive quotients\<close>

text \<open>Unsigned counters as doubles.\<close>

lemma uint_u64_bounds: "0 \<le> uint (w :: u64)" "uint w \<le> 2 ^ 64"
  using unsigned_less [of w, where 'a = int] by simp_all

lemma pow2_64: "pow2 64 = of_int (2 ^ 64)"
  using pow2_of_nat [of 64] by (simp only: of_nat_numeral)

lemma counter_double: "f64_of_int (uint (w :: u64)) = Fin (rnd (of_int (uint w))) \<and>
    0 \<le> rnd (of_int (uint w)) \<and> rnd (of_int (uint w)) \<le> pow2 64 \<and> (w \<noteq> 0 \<longrightarrow> 1 \<le> rnd (of_int (uint w)))"
proof -
  have b: "(0 :: rat) \<le> of_int (uint w)" "(of_int (uint w) :: rat) \<le> pow2 64"
    using uint_u64_bounds [of w] unfolding pow2_64 by (simp_all only: of_int_0_le_iff of_int_le_iff)
  have "pow2 64 \<le> pow2 200" by simp
  then have "round64 (of_int (uint w)) = Fin (rnd (of_int (uint w)))"
    using b by (intro round64_moderate) linarith+
  moreover have "1 \<le> uint w" if "w \<noteq> 0" using that uint_u64_bounds(1) [of w] uint_0_iff [of w] by linarith
  then have "1 \<le> rnd (of_int (uint w))" if "w \<noteq> 0"
  proof -
    have "(of_int 1 :: rat) \<le> of_int (uint w)" unfolding of_int_le_iff using \<open>w \<noteq> 0 \<Longrightarrow> 1 \<le> uint w\<close> that by blast
    then have "rnd (of_int 1) \<le> rnd (of_int (uint w))" by (rule rnd_mono)
    then show ?thesis by (simp only: of_int_1 rnd_f53 [OF is_f53_1])
  qed
  moreover have "0 \<le> rnd (of_int (uint w)) \<and> rnd (of_int (uint w)) \<le> pow2 64"
    by (rule rnd_between [OF is_f53_0 is_f53_pow2 b]) simp
  ultimately show ?thesis unfolding f64_of_int_def by blast
qed

lemma calibrated_freq:
  assumes "calibrate t0 tsc0 tsc1 t1 = Inr c"
  shows "\<exists>f. tc_freq_ghz c = Fin f \<and> pow2 (- 64) \<le> f"
proof -
  let ?D = "rnd (of_int (uint (tsc1 - tsc0)))" and ?W = "rnd (of_int (uint (wall_ns t0 t1)))"
  have nz: "wall_ns t0 t1 \<noteq> 0" "tsc1 - tsc0 \<noteq> 0"
    using assms by (auto simp: calibrate_def split: if_splits)
  have d: "1 \<le> ?D" "?D \<le> pow2 64" "1 \<le> ?W" "?W \<le> pow2 64" using counter_double nz by blast+
  have q: "pow2 (- 64) \<le> ?D / ?W"
  proof -
    have "pow2 (- 64) * ?W \<le> pow2 (- 64) * pow2 64" using d(4) by (intro mult_left_mono) simp_all
    also have "\<dots> = 1" by (simp flip: pow2_add)
    finally have "pow2 (- 64) * ?W \<le> ?D" using d(1) by linarith
    then show ?thesis using d(3) by (simp add: pos_le_divide_eq)
  qed
  have "?D / ?W \<le> ?D" using d by (simp add: divide_le_eq mult_le_cancel_left1)
  also have "\<dots> \<le> pow2 200" using d(2) pow2_le_iff [of 64 200] by linarith
  finally have "round64 (?D / ?W) = Fin (rnd (?D / ?W))" using d by (intro round64_moderate) simp_all
  moreover have "tc_freq_ghz c = round64 (?D / ?W)"
    using assms d counter_double by (auto simp: calibrate_def split: if_splits)
  moreover have "pow2 (- 64) \<le> rnd (?D / ?W)"
    using rnd_mono [OF q] rnd_f53 [OF is_f53_pow2, of "- 64"] by simp
  ultimately show ?thesis by simp
qed

section \<open>The clock never runs backwards\<close>

lemma rat_trunc_mono: "0 \<le> x \<Longrightarrow> x \<le> y \<Longrightarrow> rat_trunc x \<le> rat_trunc y"
  by (simp add: rat_trunc_def floor_mono)

text \<open>
  With a calibrated clock, a later counter value never gives an earlier time: for two
  readings the elapsed nanoseconds since calibration are in the order of the counters, through
  both roundings of the double arithmetic.
\<close>

theorem clock_is_monotone:
  assumes "calibrate t0 tsc0 tsc1 t1 = Inr c" and "a - tc_epoch_tsc c \<le> b - tc_epoch_tsc c"
    and "now_ns c a = Some x" and "now_ns c b = Some y"
  shows "x - tc_epoch_wall_ns c \<le> y - tc_epoch_wall_ns c"
proof -
  obtain f where f: "tc_freq_ghz c = Fin f" "pow2 (- 64) \<le> f" using calibrated_freq [OF assms(1)] by blast
  then have pos: "0 < f" using pow2_pos [of "- 64"] by linarith
  let ?n = "\<lambda>w. rnd (of_int (uint (w - tc_epoch_tsc c)))"
  have div: "f64_div (f64_of_int (uint (w - tc_epoch_tsc c))) (Fin f) = Fin (rnd (?n w / f)) \<and> 0 \<le> rnd (?n w / f)" for w
  proof -
    have n: "0 \<le> ?n w" "?n w \<le> pow2 64" using counter_double by blast+
    have "pow2 (- 64) * pow2 128 \<le> f * pow2 128" using f(2) by (intro mult_right_mono) simp_all
    then have "?n w \<le> f * pow2 128" using n(2) by (simp flip: pow2_add)
    then have "?n w / f \<le> pow2 128" using pos by (simp add: divide_le_eq mult.commute)
    moreover have "pow2 128 \<le> pow2 200" by simp
    ultimately have "?n w / f \<le> pow2 200" by linarith
    then have "round64 (?n w / f) = Fin (rnd (?n w / f))" using n(1) pos by (intro round64_moderate) simp_all
    then show ?thesis using counter_double [of "w - tc_epoch_tsc c"] n(1) pos by (simp add: rnd_nonneg)
  qed
  have el: "0 \<le> rat_trunc (rnd (?n w / f)) \<and> rat_trunc (rnd (?n w / f)) < 2 ^ 64 \<and>
      z - tc_epoch_wall_ns c = of_int (rat_trunc (rnd (?n w / f)))" if "now_ns c w = Some z" for w z
    using that f(1) div [of w] by (auto simp: now_ns_def split: if_splits)
  have "?n a \<le> ?n b" using assms(2) unfolding word_le_def by (intro rnd_mono) (simp only: of_int_le_iff)
  then have "?n a / f \<le> ?n b / f" using pos by (intro divide_right_mono) simp_all
  then have "rat_trunc (rnd (?n a / f)) \<le> rat_trunc (rnd (?n b / f))"
    using div by (intro rat_trunc_mono rnd_mono) blast+
  then show ?thesis using el [OF assms(3)] el [OF assms(4)]
    by (simp add: word_le_def uint_word_of_int)
qed

section \<open>The clock agrees with its calibration samples\<close>

lemma relative_bounds: "\<bar>r - x\<bar> \<le> x * (u :: rat) \<Longrightarrow> x * (1 - u) \<le> r \<and> r \<le> x * (1 + u)"
  by (simp add: algebra_simps abs_le_iff)

lemma uint_of_int_id: "0 \<le> k \<Longrightarrow> k < 2 ^ 64 \<Longrightarrow> uint (of_int k :: u64) = k"
  by (simp add: uint_word_of_int)

lemma of_int_bounds: "1 \<le> k \<Longrightarrow> k \<le> 2 ^ n \<Longrightarrow> 1 \<le> (of_int k :: rat) \<and> (of_int k :: rat) \<le> 2 ^ n"
proof -
  assume "1 \<le> k" "k \<le> 2 ^ n"
  then have "(of_int 1 :: rat) \<le> of_int k" "(of_int k :: rat) \<le> of_int (2 ^ n)" by (simp_all only: of_int_le_iff)
  then show ?thesis by (simp only: of_int_1 of_int_power of_int_numeral)
qed

lemma quotient_of_quotient:
  fixes D W :: rat
  assumes "1 \<le> D" "D \<le> 2 ^ 53" "1 \<le> W" "W \<le> 2 ^ 50"
  shows "W - 1 < rnd (D / rnd (D / W)) \<and> rnd (D / rnd (D / W)) < W + 1 \<and> 0 < rnd (D / W)"
proof -
  define u where "u = pow2 (- 53)"
  have u: "0 < u" "u < 1 / 4" "W * u \<le> 1 / 8" "D / W \<ge> pow2 (- 1022)"
  proof -
    show "0 < u" by (simp add: u_def)
    have v: "u = 1 / 2 ^ 53" by (simp add: u_def pow2_def)
    show "u < 1 / 4" by (simp add: v)
    show "W * u \<le> 1 / 8" using assms(4) by (simp add: v)
    have "pow2 (- 1022) \<le> pow2 (- 50)" by simp
    also have "\<dots> = 1 / 2 ^ 50" by (simp add: pow2_def)
    also have "\<dots> \<le> D / W" using assms by (intro frac_le) simp_all
    finally show "D / W \<ge> pow2 (- 1022)" .
  qed
  define f where "f = rnd (D / W)"
  have "\<bar>f - D / W\<bar> \<le> D / W * u" unfolding f_def u_def by (rule rnd_relative [OF u(4)])
  then have "D / W * (1 - u) \<le> f" "f \<le> D / W * (1 + u)" using relative_bounds by blast+
  then have f: "D * (1 - u) \<le> f * W" "f * W \<le> D * (1 + u)"
    using assms by (simp_all add: field_simps)
  have "0 < D * (1 - u)" using assms(1) u by simp
  then have fW: "0 < f * W" using f(1) by linarith
  then have fpos: "0 < f" using assms(3) by (simp add: zero_less_mult_iff)
  have q: "D / f * (1 - u) \<le> W" "W \<le> D / f * (1 + u)" using f fpos by (simp_all add: field_simps)
  have "W / 2 \<le> D / f" 
  proof -
    have "D / f * (1 + u) \<le> D / f * 2" using u assms(1) fpos by (intro mult_left_mono) simp_all
    then show ?thesis using q(2) by linarith
  qed
  moreover have "pow2 (- 1022) \<le> pow2 (- 1)" by simp
  moreover have "pow2 (- 1) = 1 / 2" by (simp add: pow2_def)
  ultimately have "pow2 (- 1022) \<le> D / f" using assms(3) by linarith
  then have "\<bar>rnd (D / f) - D / f\<bar> \<le> D / f * u" unfolding u_def by (rule rnd_relative)
  then have r: "rnd (D / f) \<le> D / f * (1 + u)" "D / f * (1 - u) \<le> rnd (D / f)"
    using relative_bounds by blast+
  have "rnd (D / f) * (1 - u) \<le> D / f * (1 + u) * (1 - u)" using r(1) u by (intro mult_right_mono) simp_all
  also have "\<dots> = D / f * (1 - u) * (1 + u)" by simp
  also have "\<dots> \<le> W * (1 + u)" using q(1) u by (intro mult_right_mono) simp_all
  also have "\<dots> < (W + 1) * (1 - u)" using u by (simp add: algebra_simps)
  finally have hi: "rnd (D / f) < W + 1" using u by (simp add: mult_less_cancel_right)
  have "(W - 1) * (1 + u) < W * (1 - u)" using u by (simp add: algebra_simps)
  also have "\<dots> \<le> D / f * (1 + u) * (1 - u)" using q(2) u by (intro mult_right_mono) simp_all
  also have "\<dots> = D / f * (1 - u) * (1 + u)" by simp
  also have "\<dots> \<le> rnd (D / f) * (1 + u)" using r(2) u by (intro mult_right_mono) simp_all
  finally have "W - 1 < rnd (D / f)" using u by (simp add: mult_less_cancel_right)
  then show ?thesis using hi fpos by (simp add: f_def)
qed

definition timespec_ns :: "timespec \<Rightarrow> int" where
  "timespec_ns t = fst t * 1000000000 + snd t"

text \<open>Dividing the ticks by the measured frequency gives back the nanoseconds, or one less.\<close>

lemma measured_frequency:
  assumes "1 \<le> D" "D \<le> 2 ^ 53" "1 \<le> W" "W \<le> 2 ^ 50"
  shows "\<exists>f x. f64_div (f64_of_int D) (f64_of_int W) = Fin f \<and> f \<noteq> 0 \<and>
    f64_div (f64_of_int D) (Fin f) = Fin x \<and> (rat_trunc x = W - 1 \<or> rat_trunc x = W)"
proof -
  let ?f = "rnd (of_int D / of_int W)"
  let ?x = "rnd (of_int D / ?f)"
  have core: "of_int W - 1 < ?x \<and> ?x < of_int W + 1 \<and> 0 < ?f"
    using of_int_bounds [OF assms(1,2)] of_int_bounds [OF assms(3,4)] by (intro quotient_of_quotient) simp_all
  have D: "f64_of_int D = Fin (of_int D)" using assms(1,2) by (intro f64_of_int_exact) linarith
  have W: "f64_of_int W = Fin (of_int W)" using assms(3,4) by (intro f64_of_int_exact) simp
  have q: "1 \<le> (of_int D :: rat)" "(of_int D :: rat) \<le> 2 ^ 53" "1 \<le> (of_int W :: rat)" "(of_int W :: rat) \<le> 2 ^ 50"
    using of_int_bounds [OF assms(1,2)] of_int_bounds [OF assms(3,4)] by simp_all
  have "(of_int D :: rat) / of_int W \<le> of_int D / 1" using q by (intro divide_left_mono) simp_all
  also have "\<dots> \<le> pow2 53" using q(2) by (simp add: pow2_def)
  also have "\<dots> \<le> pow2 200" by simp
  finally have "round64 (of_int D / of_int W) = Fin ?f" using q by (intro round64_moderate) simp_all
  moreover have "(of_int W :: rat) \<noteq> 0" using q(3) by linarith
  ultimately have f: "f64_div (f64_of_int D) (f64_of_int W) = Fin ?f" by (simp only: D W f64_div.simps if_False)
  have pos: "?f \<noteq> 0" "0 \<le> ?x" using core q(3) by linarith+
  have "?x < of_int W + 1" using core by blast
  also have "\<dots> \<le> 2 ^ 50 + 1" using q(4) by (intro add_right_mono)
  also have "\<dots> \<le> 2 ^ 60" by simp
  finally have "?x < f64_limit" by (intro le_f64_limit [of _ 60]) simp_all
  then have x: "f64_div (f64_of_int D) (Fin ?f) = Fin ?x" using pos D by (simp add: round64_def)
  have "rat_trunc ?x = \<lfloor>?x\<rfloor>" using pos(2) by (simp add: rat_trunc_def)
  moreover have "\<lfloor>?x\<rfloor> = W - 1 \<or> \<lfloor>?x\<rfloor> = W" using core by linarith
  ultimately show ?thesis using f pos(1) x by auto
qed

text \<open>
  C40: With samples at most \<open>2 ^ 50\<close> ns apart, calibration succeeds and the clock then
  returns the first sample exactly at its counter value, and at the second counter value the
  second sample or one nanosecond less; in particular the wrapping difference of the
  nanosecond fields is harmless.
\<close>

theorem calibration_is_accurate:
  assumes "0 \<le> timespec_ns t0" and "timespec_ns t0 < timespec_ns t1"
    and "timespec_ns t1 \<le> timespec_ns t0 + 2 ^ 50" and "timespec_ns t1 < 2 ^ 64"
    and "tsc0 < tsc1" and "tsc1 - tsc0 \<le> 2 ^ 53"
  shows "\<exists>c. calibrate t0 tsc0 tsc1 t1 = Inr c \<and> now_ns c tsc0 = Some (of_int (timespec_ns t0)) \<and>
    now_ns c tsc1 \<in> {Some (of_int (timespec_ns t1 - 1)), Some (of_int (timespec_ns t1))}"
proof -
  let ?W = "timespec_ns t1 - timespec_ns t0" and ?D = "uint (tsc1 - tsc0)"
  have w: "wall_ns t0 t1 = of_int ?W" by (simp add: wall_ns_def timespec_ns_def algebra_simps)
  have Wb: "1 \<le> ?W" "?W \<le> 2 ^ 50" "?W < 2 ^ 64" using assms by linarith+
  then have W: "uint (wall_ns t0 t1) = ?W" unfolding w by (intro uint_of_int_id) linarith+
  have "tsc1 - tsc0 \<noteq> 0" using assms(5) by auto
  then have D: "1 \<le> ?D" using uint_u64_bounds(1) [of "tsc1 - tsc0"] uint_0_iff [of "tsc1 - tsc0"] by linarith
  moreover have "?D \<le> 2 ^ 53" using assms(6) by (simp add: word_le_def)
  ultimately obtain f x where f: "f64_div (f64_of_int ?D) (f64_of_int ?W) = Fin f" "f \<noteq> 0"
    and x: "f64_div (f64_of_int ?D) (Fin f) = Fin x" "rat_trunc x = ?W - 1 \<or> rat_trunc x = ?W"
    using measured_frequency [OF _ _ Wb(1,2)] by blast
  have "wall_ns t0 t1 \<noteq> 0" using W Wb(1) by auto
  then obtain c where c: "calibrate t0 tsc0 tsc1 t1 = Inr c"
    "c = \<lparr> tc_freq_ghz = Fin f, tc_epoch_tsc = tsc0, tc_epoch_wall_ns = of_int (timespec_ns t0), tc_calibrated = True \<rparr>"
    using assms(5) W f(1) by (simp add: calibrate_def timespec_ns_def)
  have "0 \<le> rat_trunc x" "rat_trunc x < 2 ^ 64" using x(2) Wb by linarith+
  then have "now_ns c tsc1 = Some (of_int (timespec_ns t0 + rat_trunc x))"
    using x(1) c(2) by (simp add: now_ns_def)
  moreover have "now_ns c tsc0 = Some (of_int (timespec_ns t0))"
    using f(2) c(2) by (simp add: now_ns_def rat_trunc_def)
  ultimately show ?thesis using x(2) c(1) by auto
qed

section \<open>Witnesses\<close>

text \<open>Two samples 1 s apart, across a second boundary, on a counter of 2 GHz.\<close>

lemma sample_calibration:
  obtains c where "calibrate (5, 900000000) 1000 2000001000 (6, 900000000) = Inr c"
  by (simp add: calibrate_def wall_ns_def)

theorem clock_is_monotone_witness:
  "\<exists>c x y. calibrate (5, 900000000) 1000 2000001000 (6, 900000000) = Inr c \<and>
     now_ns c 1000 = Some x \<and> now_ns c 2000001000 = Some y \<and>
     x - tc_epoch_wall_ns c \<le> y - tc_epoch_wall_ns c"
proof -
  obtain c where c: "calibrate (5, 900000000) 1000 2000001000 (6, 900000000) = Inr c"
    by (rule sample_calibration)
  then have f: "tc_freq_ghz c = Fin 2" "tc_epoch_tsc c = 1000"
    using f64_of_int_exact [of 2000000000] f64_of_int_exact [of 1000000000]
    by (auto simp: calibrate_def wall_ns_def)
  have "now_ns c 1000 = Some (tc_epoch_wall_ns c)" "\<exists>y. now_ns c 2000001000 = Some y"
    using f f64_of_int_exact [of 2000000000] by (simp_all add: now_ns_def rat_trunc_def)
  then obtain x y where xy: "now_ns c 1000 = Some x" "now_ns c 2000001000 = Some y" by blast
  have "x - tc_epoch_wall_ns c \<le> y - tc_epoch_wall_ns c"
    using f by (intro clock_is_monotone [OF c _ xy]) (simp add: word_le_nat_alt)
  then show ?thesis using c xy by blast
qed

theorem calibration_is_accurate_witness:
  "\<exists>c. calibrate (5, 900000000) 1000 2000001000 (6, 100000000) = Inr c \<and>
     now_ns c 1000 = Some 5900000000 \<and> now_ns c 2000001000 \<in> {Some 6099999999, Some 6100000000}"
  using calibration_is_accurate [of "(5, 900000000)" "(6, 100000000)" 1000 2000001000]
  by (simp add: timespec_ns_def)

end
