(* ===== verification/Engine.thy ===== *)
theory Engine
  imports Signal_Engine Order_Manager Fix_Md_Gateway
begin

text \<open>
  \<open>apps/engine/main.cpp\<close>: the components put together.  The alpha thread pops one event from
  the market-data queue, serves the position timeout, runs the signal engine on the gateway's
  book and sends an entry order when the risk manager agrees.  The turns of that thread and
  the handlers of the two FIX sessions interleave as the steps of one system; a turn and a
  handler are each one step, and a turn sees one book.  That is coarser than the program, whose
  handlers may run between the calls of a turn: what holds of entries, gate and fuse is
  proved in \<open>Engine_Threads\<close> and \<open>Engine_Orders\<close>, which take the turns apart; here are what one turn
  does when nothing comes in between, and the facts that the finer models share.
\<close>

section \<open>State\<close>

record trading_system =
  sy_gateway :: gateway
  sy_signals :: signal_engine
  sy_oms :: oms

text \<open>What a turn reads from outside: the clock, the UTC texts, the results of the three sends.\<close>

record turn =
  tn_now_ns :: u64
  tn_cancel_utc :: string
  tn_cancel_net :: send_result
  tn_close_utc :: string
  tn_close_net :: send_result
  tn_entry_utc :: string
  tn_entry_net :: send_result

section \<open>The alpha thread\<close>

definition close_side :: "order \<Rightarrow> side" where
  "close_side o1 = (case ord_side o1 of Buy \<Rightarrow> Sell | Sell \<Rightarrow> Buy)"

text \<open>The callback the alpha thread gives to \<open>on_timer\<close>.\<close>

definition force_close :: "quickfix \<Rightarrow> turn \<Rightarrow> order_book \<Rightarrow> order \<Rightarrow> oms \<Rightarrow> oms \<times> oms_output list" where
  "force_close q t book o1 s =
     (let (s1, outs1) = cancel_order (tn_cancel_net t) (tn_cancel_utc t) (ord_clordid o1) s;
          (s2, outs2, _) = send_ioc q (tn_close_net t) (tn_close_utc t) (close_side o1) (ord_qty o1)
            (if ord_side o1 = Buy then best_bid book else best_ask book) (tn_now_ns t) s1
      in (s2, outs1 @ outs2))"

definition serve_timeout :: "quickfix \<Rightarrow> turn \<Rightarrow> order_book \<Rightarrow> oms \<Rightarrow> oms \<times> oms_output list" where
  "serve_timeout q t book s =
     (case on_timer (om_risk s) (tn_now_ns t) of
        None \<Rightarrow> (s, [])
      | Some o1 \<Rightarrow> force_close q t book o1 s)"

definition enter_order :: "quickfix \<Rightarrow> turn \<Rightarrow> signal \<Rightarrow> oms \<Rightarrow> oms \<times> oms_output list" where
  "enter_order q t sig s =
     (if check_signal (om_risk s) sig (tn_now_ns t)
      then (let (s', outs, _) = send_ioc q (tn_entry_net t) (tn_entry_utc t)
              (if sig_direction sig = DirBuy then Buy else Sell) 1 (sig_l1_price sig) (tn_now_ns t) s
            in (s', outs))
      else (s, []))"

text \<open>One turn of the loop of \<open>alpha_thread_fn\<close>.\<close>

definition alpha_turn :: "quickfix \<Rightarrow> turn \<Rightarrow> trading_system \<Rightarrow> trading_system \<times> oms_output list" where
  "alpha_turn q t y =
     (case gw_queue (sy_gateway y) of
        None \<Rightarrow> (y, [])
      | Some queue \<Rightarrow>
          (case spsc_pop kMdQueueCapacity queue of
             (_, None) \<Rightarrow> (y, [])
           | (queue', Some ev) \<Rightarrow>
               (let book = gw_book (sy_gateway y);
                    y1 = y\<lparr>sy_gateway := (sy_gateway y)\<lparr>gw_queue := Some queue'\<rparr>\<rparr>;
                    (s1, outs1) = serve_timeout q t book (sy_oms y);
                    (e, fired) = signal_on_event (sy_signals y) ev book;
                    (s2, outs2) = (if fired then enter_order q t (se_last_signal e) s1 else (s1, []))
                in (y1\<lparr>sy_signals := e, sy_oms := s2\<rparr>, outs1 @ outs2))))"

section \<open>The whole system\<close>

definition system_init :: "dictionary option \<Rightarrow> lob_event list \<Rightarrow> trading_system" where
  "system_init md_settings buf =
     \<lparr> sy_gateway = gateway_new md_settings (Some (spsc_init buf)),
       sy_signals = signal_engine_default,
       sy_oms = set_reject_callback (set_fill_callback (oms_init (risk_init default_config))) \<rparr>"

datatype system_event =
    AlphaTurn turn
  | MdLogon send_result string int
  | MdLogout int
  | MdAdmin fix_message
  | MdMessage fix_message u64
  | TradeLogon string
  | TradeLogout
  | TradeMessage fix_message u64

datatype system_output = MdOut md_output | TradeOut oms_output

fun system_step :: "quickfix \<Rightarrow> trading_system \<Rightarrow> system_event \<Rightarrow> trading_system \<times> system_output list" where
  "system_step q y (AlphaTurn t) = (let (y', outs) = alpha_turn q t y in (y', map TradeOut outs))"
| "system_step q y (MdLogon net sid now) =
     (let (g, outs, _) = md_onLogon net sid now (sy_gateway y) in (y\<lparr>sy_gateway := g\<rparr>, map MdOut outs))"
| "system_step q y (MdLogout now) = (y\<lparr>sy_gateway := md_onLogout now (sy_gateway y)\<rparr>, [])"
| "system_step q y (MdAdmin m) = (y\<lparr>sy_gateway := fst (md_fromAdmin m (sy_gateway y))\<rparr>, [])"
| "system_step q y (MdMessage m ts) =
     (let (g, outs, _) = md_fromApp q m ts (sy_gateway y) in (y\<lparr>sy_gateway := g\<rparr>, map MdOut outs))"
| "system_step q y (TradeLogon sid) = (y\<lparr>sy_oms := oms_onLogon sid (sy_oms y)\<rparr>, [])"
| "system_step q y TradeLogout = (y\<lparr>sy_oms := oms_onLogout (sy_oms y)\<rparr>, [])"
| "system_step q y (TradeMessage m now) =
     (let (s, outs, _) = oms_fromApp q m now (sy_oms y) in (y\<lparr>sy_oms := s\<rparr>, map TradeOut outs))"

fun system_run :: "quickfix \<Rightarrow> trading_system \<Rightarrow> system_event list \<Rightarrow> trading_system \<times> system_output list" where
  "system_run q y [] = (y, [])"
| "system_run q y (e # evs) =
     (let (y1, outs1) = system_step q y e; (y2, outs2) = system_run q y1 evs in (y2, outs1 @ outs2))"

definition trade_outs :: "system_output list \<Rightarrow> oms_output list" where
  "trade_outs outs = concat (map (\<lambda>x. case x of TradeOut x \<Rightarrow> [x] | _ \<Rightarrow> []) outs)"

lemma trade_outs_simps [simp]:
  "trade_outs [] = []" "trade_outs (xs @ ys) = trade_outs xs @ trade_outs ys"
  "trade_outs (map TradeOut os) = os" "trade_outs (map MdOut ms) = []"
  by (simp_all add: trade_outs_def comp_def)

section \<open>The trade side of the system is a run of the order manager\<close>

interpretation sys: machine "system_step q" "system_run q"
  by unfold_locales simp_all

abbreviation oms_reaches :: "quickfix \<Rightarrow> oms \<Rightarrow> oms_output list \<Rightarrow> oms \<Rightarrow> bool" where
  "oms_reaches q \<equiv> machine.reaches (oms_run q)"

lemmas oms_reaches_def = oms.reaches_def
lemmas oms_reaches_refl [simp] = oms.reaches_refl
lemmas oms_reaches_step = oms.reaches_step
lemmas oms_reaches_trans = oms.reaches_trans

lemma force_close_reaches: "force_close q t book o1 s = (s', outs) \<Longrightarrow> oms_reaches q s outs s'"
proof -
  assume a: "force_close q t book o1 s = (s', outs)"
  obtain s1 outs1 where c: "cancel_order (tn_cancel_net t) (tn_cancel_utc t) (ord_clordid o1) s = (s1, outs1)"
    by fastforce
  obtain s2 outs2 i where d: "send_ioc q (tn_close_net t) (tn_close_utc t) (close_side o1) (ord_qty o1)
      (if ord_side o1 = Buy then best_bid book else best_ask book) (tn_now_ns t) s1 = (s2, outs2, i)"
    by (metis prod_cases3)
  have "oms_step q s (CancelOrder (tn_cancel_net t) (tn_cancel_utc t) (ord_clordid o1)) = (s1, outs1)"
    using c by simp
  moreover have "oms_step q s1 (SendOrder (tn_close_net t) (tn_close_utc t) (close_side o1) (ord_qty o1)
      (if ord_side o1 = Buy then best_bid book else best_ask book) (tn_now_ns t)) = (s2, outs2)"
    using d by simp
  moreover have "s' = s2" "outs = outs1 @ outs2" using a c d by (simp_all add: force_close_def)
  ultimately show ?thesis using oms_reaches_step oms_reaches_trans by blast
qed

lemma serve_timeout_reaches: "serve_timeout q t book s = (s', outs) \<Longrightarrow> oms_reaches q s outs s'"
  by (auto simp: serve_timeout_def intro: force_close_reaches split: option.splits)

lemma enter_order_reaches: "enter_order q t sig s = (s', outs) \<Longrightarrow> oms_reaches q s outs s'"
proof -
  assume a: "enter_order q t sig s = (s', outs)"
  let ?e = "SendOrder (tn_entry_net t) (tn_entry_utc t) (if sig_direction sig = DirBuy then Buy else Sell) 1
    (sig_l1_price sig) (tn_now_ns t)"
  consider (sent) "oms_step q s ?e = (s', outs)" | (not_sent) "s' = s" "outs = []"
    using a by (auto simp: enter_order_def case_prod_unfold Let_def split: if_splits)
  then show ?thesis
  proof cases
    case sent
    then show ?thesis by (rule oms_reaches_step)
  qed simp
qed

text \<open>A turn that does something: what it popped, and the two parts of its effect on the orders.\<close>

lemma alpha_turn_cases:
  assumes "alpha_turn q t y = (y', outs)"
  obtains (nothing) "y' = y" "outs = []"
  | (event) queue queue' ev s1 outs1 e fired outs2 where "gw_queue (sy_gateway y) = Some queue"
      "spsc_pop kMdQueueCapacity queue = (queue', Some ev)"
      "serve_timeout q t (gw_book (sy_gateway y)) (sy_oms y) = (s1, outs1)"
      "signal_on_event (sy_signals y) ev (gw_book (sy_gateway y)) = (e, fired)"
      "(if fired then enter_order q t (se_last_signal e) s1 else (s1, [])) = (sy_oms y', outs2)"
      "outs = outs1 @ outs2" "sy_signals y' = e"
proof (cases "gw_queue (sy_gateway y)")
  case None
  then have "y' = y" "outs = []" using assms by (simp_all add: alpha_turn_def)
  then show ?thesis by (rule nothing)
next
  case (Some queue)
  obtain queue' res where pop: "spsc_pop kMdQueueCapacity queue = (queue', res)" by fastforce
  show ?thesis
  proof (cases res)
    case None
    then have "y' = y" "outs = []" using assms Some pop by (simp_all add: alpha_turn_def)
    then show ?thesis by (rule nothing)
  next
    case (Some ev)
    obtain s1 outs1 where s1: "serve_timeout q t (gw_book (sy_gateway y)) (sy_oms y) = (s1, outs1)" by fastforce
    obtain e fired where e: "signal_on_event (sy_signals y) ev (gw_book (sy_gateway y)) = (e, fired)" by fastforce
    obtain s2 outs2 where s2: "(if fired then enter_order q t (se_last_signal e) s1 else (s1, [])) = (s2, outs2)"
      by fastforce
    have "sy_oms y' = s2" "outs = outs1 @ outs2" "sy_signals y' = e"
      using assms \<open>gw_queue (sy_gateway y) = Some queue\<close> pop Some s1 e s2
      by (auto simp: alpha_turn_def Let_def)
    then show ?thesis
      using event [OF \<open>gw_queue (sy_gateway y) = Some queue\<close> _ s1 e] pop Some s2 by simp
  qed
qed

lemma alpha_turn_reaches: "alpha_turn q t y = (y', outs) \<Longrightarrow> oms_reaches q (sy_oms y) outs (sy_oms y')"
proof (erule alpha_turn_cases)
  fix s1 outs1 e fired outs2
  assume "serve_timeout q t (gw_book (sy_gateway y)) (sy_oms y) = (s1, outs1)"
    and s2: "(if fired then enter_order q t (se_last_signal e) s1 else (s1, [])) = (sy_oms y', outs2)"
    and o: "outs = outs1 @ outs2"
  then have "oms_reaches q (sy_oms y) outs1 s1" by (intro serve_timeout_reaches)
  moreover have "oms_reaches q s1 outs2 (sy_oms y')"
    using s2 enter_order_reaches by (auto split: if_splits)
  ultimately show "oms_reaches q (sy_oms y) outs (sy_oms y')" unfolding o by (rule oms_reaches_trans)
qed simp

lemma system_step_reaches:
  "system_step q y e = (y', outs) \<Longrightarrow> oms_reaches q (sy_oms y) (trade_outs outs) (sy_oms y')"
proof (cases e)
  case (AlphaTurn t)
  then show "system_step q y e = (y', outs) \<Longrightarrow> ?thesis"
    using alpha_turn_reaches by (auto simp: case_prod_unfold Let_def)
next
  case (TradeLogon sid)
  then show "system_step q y e = (y', outs) \<Longrightarrow> ?thesis"
    using oms_reaches_step [of q "sy_oms y" "SessionUp sid"] by auto
next
  case TradeLogout
  then show "system_step q y e = (y', outs) \<Longrightarrow> ?thesis"
    using oms_reaches_step [of q "sy_oms y" SessionDown] by auto
next
  case (TradeMessage m now)
  then show "system_step q y e = (y', outs) \<Longrightarrow> ?thesis"
    using oms_reaches_step [of q "sy_oms y" "Incoming m now"] by (auto simp: case_prod_unfold Let_def)
qed (auto simp: case_prod_unfold Let_def)

lemma system_run_reaches:
  "system_run q y evs = (y', outs) \<Longrightarrow> oms_reaches q (sy_oms y) (trade_outs outs) (sy_oms y')"
  by (rule sys.run_relates [of "\<lambda>y outs y'. oms_reaches q (sy_oms y) (trade_outs outs) (sy_oms y')"])
    (auto intro: oms_reaches_trans system_step_reaches)

section \<open>A fused system without an order sends nothing\<close>

definition stopped :: "oms \<Rightarrow> bool" where
  "stopped s \<longleftrightarrow> rk_fused (om_risk s) \<and> \<not> rk_has_position (om_risk s)"

definition no_orders :: "oms_output list \<Rightarrow> bool" where
  "no_orders outs \<longleftrightarrow> (\<forall>m sid. ToMarket m sid \<notin> set outs)"

lemma stopped_turn:
  assumes "stopped (sy_oms y)" "alpha_turn q t y = (y', outs)"
  shows "sy_oms y' = sy_oms y \<and> outs = []"
  using assms(2)
proof (cases rule: alpha_turn_cases)
  case (event queue queue' ev s1 outs1 e fired outs2)
  have "s1 = sy_oms y" "outs1 = []"
    using event(3) assms(1) by (auto simp: serve_timeout_def on_timer_def stopped_def)
  then show ?thesis
    using event(5,6) assms(1) by (auto simp: enter_order_def check_signal_def stopped_def split: if_splits)
qed simp

lemma stopped_message:
  assumes "stopped s" "oms_fromApp q m now s = (s', outs, err)"
  shows "stopped s' \<and> no_orders outs"
proof (rule fromApp_cases [of q m now s])
  fix clordid et last_px ord s1 outs1
  assume "apply_fill clordid et last_px now ord s = (s1, outs1)"
    "oms_fromApp q m now s = (s1, outs1, None)"
  then show ?thesis using assms
    by (auto simp: apply_fill_def stopped_def no_orders_def on_fill_fields on_fill_fused Let_def split: if_splits)
next
  fix clordid et ord s1 outs1
  assume "apply_reject clordid et ord s = (s1, outs1)"
    "oms_fromApp q m now s = (s1, outs1, None)"
  then show ?thesis using assms
    by (auto simp: apply_reject_def stopped_def no_orders_def on_reject_def Let_def split: if_splits)
qed (use assms in \<open>auto simp: no_orders_def\<close>)

lemma stopped_step:
  assumes "stopped (sy_oms y)" "system_step q y e = (y', outs)"
  shows "stopped (sy_oms y') \<and> no_orders (trade_outs outs)"
proof (cases e)
  case (AlphaTurn t)
  obtain y1 outs1 where "alpha_turn q t y = (y1, outs1)" by fastforce
  with stopped_turn [OF assms(1) this] show ?thesis using assms AlphaTurn by (auto simp: no_orders_def)
next
  case (TradeMessage m now)
  obtain s1 outs1 err where "oms_fromApp q m now (sy_oms y) = (s1, outs1, err)" by (metis prod_cases3)
  with stopped_message [OF assms(1) this] show ?thesis using assms(2) TradeMessage by auto
qed (use assms in \<open>auto simp: no_orders_def stopped_def oms_onLogon_def oms_onLogout_def case_prod_unfold Let_def\<close>)

section \<open>What a sent order looks like\<close>

lemma send_ioc_outs:
  assumes "send_ioc q net utc sd qty l1 ts s = (s', outs, i)" "ToMarket m sid \<in> set outs"
  shows "outs = [ToMarket m sid] \<and> m = new_order_single q utc (clordid_of (om_order_seq s)) sd qty \<and>
    rk_has_position (om_risk s') \<and>
    rk_open_order (om_risk s') = sent_order (clordid_of (om_order_seq s)) sd qty l1 ts"
  using assms
  by (auto simp: send_ioc_def next_clordid_def on_order_sent_def Let_def split: if_splits send_result.splits)

section \<open>The timeout closes what was never opened\<close>

definition position_unfilled :: "oms \<Rightarrow> bool" where
  "position_unfilled s \<longleftrightarrow> (rk_has_position (om_risk s) \<longrightarrow>
     ord_status (rk_open_order (om_risk s)) = Sent \<and> ord_fill_price (rk_open_order (om_risk s)) = 0)"

lemma position_unfilled_idle: "\<not> rk_has_position (om_risk s) \<Longrightarrow> position_unfilled s"
  by (simp add: position_unfilled_def)

lemma oms_step_unfilled:
  assumes "position_unfilled s" "oms_step q s e = (s', outs)"
  shows "position_unfilled s'"
proof (cases e)
  case (SendOrder net utc sd qty l1 ts)
  then show ?thesis using assms
    by (auto simp: send_ioc_def next_clordid_def Let_def position_unfilled_def on_order_sent_def sent_order_def
        order_default_def on_reject_def split: if_splits send_result.splits)
next
  case (CancelOrder net utc i)
  then show ?thesis using assms
    by (auto simp: cancel_order_def next_clordid_def Let_def position_unfilled_def
        split: option.splits send_result.splits)
next
  case (Incoming m now_ns)
  show ?thesis
    by (rule fromApp_cases [of q m now_ns s])
      (use Incoming assms apply_fill_idle apply_reject_idle position_unfilled_idle in fastforce)+
qed (use assms in \<open>auto simp: oms_onLogon_def oms_onLogout_def position_unfilled_def\<close>)

lemma oms_run_unfilled: "position_unfilled s \<Longrightarrow> position_unfilled (fst (oms_run q s evs))"
proof (induction evs arbitrary: s)
  case (Cons e evs)
  obtain s1 outs1 where s1: "oms_step q s e = (s1, outs1)" by fastforce
  show ?case using Cons.IH [OF oms_step_unfilled [OF Cons.prems s1]] by (simp only: oms_run_Cons [OF s1])
qed simp

text \<open>What every state of the engine has in common on the trade side.\<close>

lemma system_run_oms_inv:
  assumes "system_run q y0 evs = (y, outs)" "\<not> rk_has_position (om_risk (sy_oms y0))"
  shows "gate_ok (sy_oms y) \<and> position_unfilled (sy_oms y)"
proof -
  obtain oms_evs where r: "oms_run q (sy_oms y0) oms_evs = (sy_oms y, trade_outs outs)"
    using system_run_reaches [OF assms(1)] by (auto simp: oms_reaches_def)
  then show ?thesis
    using oms_run_gate [OF gate_idle [OF assms(2)], of q oms_evs]
      oms_run_unfilled [OF position_unfilled_idle [OF assms(2)], of q oms_evs] by simp
qed

lemma system_init_idle: "\<not> rk_has_position (om_risk (sy_oms (system_init st buf)))"
  by (simp add: system_init_def set_fill_callback_def set_reject_callback_def oms_init_def risk_init_def)

text \<open>
  C31: The position timeout strikes only orders of which no fill was ever reported: in every
  state reached from one without an order in flight, the order it picks is still open and unfilled, and next to the cancel
  request the alpha thread sends a market order for the opposite side and the same quantity,
  opening a position instead of closing one.
\<close>

theorem timeout_reverses_unfilled_order:
  assumes "system_run q y0 evs = (y, outs0)" and "\<not> rk_has_position (om_risk (sy_oms y0))"
    and "gw_queue (sy_gateway y) = Some queue" and "\<not> spsc_empty queue"
    and "on_timer (om_risk (sy_oms y)) (tn_now_ns t) = Some o1" and "om_logged_on (sy_oms y)"
    and "tn_cancel_net t = SendQueued b1" and "tn_close_net t = SendQueued b2"
    and "alpha_turn q t y = (y', outs)"
  shows "om_open_orders (sy_oms y) (ord_clordid o1) = Some o1 \<and>
    ord_status o1 = Sent \<and> ord_fill_price o1 = 0 \<and>
    (\<exists>m1 m2 sid rest. outs = ToMarket m1 sid # ToMarket m2 sid # rest \<and>
       msg_header m1 35 = Some ''F'' \<and> msg_body m1 41 = Some (ord_clordid o1) \<and>
       msg_header m2 35 = Some ''D'' \<and> msg_body m2 54 = Some (side_text (if ord_side o1 = Buy then Sell else Buy)) \<and>
       msg_body m2 38 = Some (qf_of_double q (f64_of_int (ord_qty o1))))"
proof -
  have opposite: "close_side o1 = (if ord_side o1 = Buy then Sell else Buy)"
    by (cases "ord_side o1") (simp_all add: close_side_def)
  let ?s = "sy_oms y"
  have o1: "rk_has_position (om_risk ?s)" "o1 = rk_open_order (om_risk ?s)"
    using assms(5) by (auto simp: on_timer_def split: if_splits)
  have inv: "om_open_orders ?s (ord_clordid o1) = Some o1" "ord_status o1 = Sent" "ord_fill_price o1 = 0"
    using system_run_oms_inv [OF assms(1,2)] o1
    by (simp_all add: gate_ok_def gate.tracks_def live_order_def position_unfilled_def)
  obtain s2 outs1 where tmo: "serve_timeout q t (gw_book (sy_gateway y)) ?s = (s2, outs1)" by fastforce
  have "\<exists>m1 m2 sid. outs1 = [ToMarket m1 sid, ToMarket m2 sid] \<and>
       msg_header m1 35 = Some ''F'' \<and> msg_body m1 41 = Some (ord_clordid o1) \<and>
       msg_header m2 35 = Some ''D'' \<and> msg_body m2 54 = Some (side_text (close_side o1)) \<and>
       msg_body m2 38 = Some (qf_of_double q (f64_of_int (ord_qty o1)))"
    using tmo assms(5-8) inv(1)
    by (auto simp: serve_timeout_def force_close_def cancel_order_def send_ioc_def next_clordid_def
        cancel_request_def new_order_single_def fix_building Let_def)
  moreover have "\<exists>rest. outs = outs1 @ rest"
    using assms(9)
  proof (cases rule: alpha_turn_cases)
    case nothing
    then show ?thesis using assms(3,4,9) tmo
      by (auto simp: alpha_turn_def spsc_pop_def spsc_empty_def Let_def case_prod_unfold split: if_splits)
  next
    case (event queue1 queue' ev s1 outs1' e fired outs2)
    then show ?thesis using tmo by simp
  qed
  ultimately show ?thesis unfolding opposite [symmetric] using inv by auto
qed

section \<open>Signals on an empty side are not priced\<close>

lemma fired_l1_price:
  "signal_on_event e0 ev book = (e, True) \<Longrightarrow> sig_l1_price (se_last_signal e) =
     (if sig_direction (se_last_signal e) = DirBuy then best_ask book else best_bid book)"
  by (auto simp: signal_on_event_def Let_def split: if_splits)

text \<open>
  When a signal fires while the side it would trade on is empty, an order is sent all the
  same, with a reference price of 0, and whatever price it fills at, its slippage counts as
  zero: neither the single-trade abort nor the daily-loss fuse can see it.
\<close>

theorem empty_side_order_never_slips:
  assumes "gw_queue (sy_gateway y) = Some queue" and "spsc_pop kMdQueueCapacity queue = (queue', Some ev)"
    and "signal_on_event (sy_signals y) ev (gw_book (sy_gateway y)) = (e, True)"
    and "(if sig_direction (se_last_signal e) = DirBuy then best_ask (gw_book (sy_gateway y))
          else best_bid (gw_book (sy_gateway y))) = 0"
    and "on_timer (om_risk (sy_oms y)) (tn_now_ns t) = None"
    and "check_signal (om_risk (sy_oms y)) (se_last_signal e) (tn_now_ns t)"
    and "om_logged_on (sy_oms y)" and "tn_entry_net t = SendQueued b"
  shows "let (y', outs) = alpha_turn q t y; ord = rk_open_order (om_risk (sy_oms y'))
    in (\<exists>m sid. outs = [ToMarket m sid]) \<and> ord_signal_l1 ord = 0 \<and>
       (\<forall>px. slippage_ticks (ord\<lparr>ord_fill_price := px\<rparr>) = 0)"
  using assms fired_l1_price [OF assms(3)]
  by (simp add: alpha_turn_def serve_timeout_def enter_order_def send_ioc_def next_clordid_def on_order_sent_def
      sent_order_def order_default_def slippage_ticks_def Let_def)

section \<open>Witnesses\<close>

definition sample_turn :: turn where
  "sample_turn = \<lparr> tn_now_ns = 9000000000, tn_cancel_utc = ''utc'', tn_cancel_net = SendQueued True,
     tn_close_utc = ''utc'', tn_close_net = SendQueued True, tn_entry_utc = ''utc'',
     tn_entry_net = SendQueued True \<rparr>"

definition sample_cells :: "lob_event list" where
  "sample_cells = replicate (unat kMdQueueCapacity) (blank_event 0 New)"

text \<open>A system whose queue holds the event that makes the sample engine sell, with no bid in the book.\<close>

definition sample_queue :: "lob_event spsc" where
  "sample_queue = fst (spsc_push kMdQueueCapacity
     (fst (spsc_push kMdQueueCapacity (spsc_init sample_cells) collapse)) quiet)"

definition sample_system :: trading_system where
  "sample_system = \<lparr> sy_gateway = gateway_new None (Some sample_queue), sy_signals = sample_engine,
     sy_oms = oms_onLogon ''TRADE'' (oms_init (risk_init default_config)) \<rparr>"

lemma not_empty_contents: "spsc_contents c q \<noteq> [] \<Longrightarrow> \<not> spsc_empty q"
  by (auto simp: spsc_contents_def spsc_empty_def ring_count_def)

lemma sample_queue_pop:
  obtains queue' where "spsc_pop kMdQueueCapacity sample_queue = (queue', Some collapse)" "\<not> spsc_empty queue'"
proof -
  have inv: "spsc_inv kMdQueueCapacity (spsc_init sample_cells)"
    by (rule spsc_init_inv) (simp_all add: capacity_2_14 sample_cells_def)
  have "spsc_contents kMdQueueCapacity sample_queue = [collapse, quiet]"
    using spsc.contents_push_all [OF inv, of "[collapse, quiet]"]
    by (simp add: sample_queue_def spsc_init_contents capacity_2_14)
  moreover have "spsc_inv kMdQueueCapacity sample_queue"
    unfolding sample_queue_def by (intro spsc.inv_push inv)
  ultimately have r: "snd (spsc_pop kMdQueueCapacity sample_queue) = Some collapse"
    "spsc_contents kMdQueueCapacity (fst (spsc_pop kMdQueueCapacity sample_queue)) = [quiet]"
    using spsc.pop_some [of kMdQueueCapacity sample_queue collapse "[quiet]"] by auto
  show thesis
  proof (rule that)
    show "spsc_pop kMdQueueCapacity sample_queue
        = (fst (spsc_pop kMdQueueCapacity sample_queue), Some collapse)" using r(1) by (simp add: prod_eq_iff)
    show "\<not> spsc_empty (fst (spsc_pop kMdQueueCapacity sample_queue))"
      using r(2) by (intro not_empty_contents [of kMdQueueCapacity]) simp
  qed
qed

lemma sample_system_parts:
  "gw_queue (sy_gateway sample_system) = Some sample_queue" "gw_book (sy_gateway sample_system) = book_empty"
  "sy_signals sample_system = sample_engine" "om_logged_on (sy_oms sample_system)"
  "on_timer (om_risk (sy_oms sample_system)) now = None"
  "check_signal (om_risk (sy_oms sample_system)) sig now"
  by (simp_all add: sample_system_def gateway_new_def oms_onLogon_def oms_init_def risk_init_def on_timer_def
      check_signal_def in_cooldown_def)

theorem empty_side_order_never_slips_witness:
  "\<exists>y' outs. alpha_turn sample_quickfix sample_turn sample_system = (y', outs) \<and>
     slippage_ticks ((rk_open_order (om_risk (sy_oms y')))\<lparr>ord_fill_price := 200000\<rparr>) = 0"
proof -
  obtain queue' where pop: "spsc_pop kMdQueueCapacity sample_queue = (queue', Some collapse)"
    by (rule sample_queue_pop)
  obtain e where e: "signal_on_event sample_engine collapse book_empty = (e, True)"
      "sig_direction (se_last_signal e) = DirSell" using sample_fires by blast
  have "let (y', outs) = alpha_turn sample_quickfix sample_turn sample_system;
      ord = rk_open_order (om_risk (sy_oms y'))
    in (\<exists>m sid. outs = [ToMarket m sid]) \<and> ord_signal_l1 ord = 0 \<and>
       (\<forall>px. slippage_ticks (ord\<lparr>ord_fill_price := px\<rparr>) = 0)"
    by (rule empty_side_order_never_slips [OF _ pop, of _ e])
      (use sample_system_parts e best_empty in \<open>simp_all add: sample_turn_def\<close>)
  moreover obtain y' outs where "alpha_turn sample_quickfix sample_turn sample_system = (y', outs)" by fastforce
  ultimately show ?thesis by (simp add: Let_def)
qed

text \<open>A turn more than five seconds after an order that has not been answered.\<close>

definition late_turn :: turn where
  "late_turn = sample_turn\<lparr>tn_now_ns := 14000000000\<rparr>"

theorem timeout_reverses_unfilled_order_witness:
  "\<exists>y outs0 y' m1 m2 sid rest. system_run sample_quickfix sample_system [AlphaTurn sample_turn] = (y, outs0) \<and>
     alpha_turn sample_quickfix late_turn y = (y', ToMarket m1 sid # ToMarket m2 sid # rest) \<and>
     msg_header m1 35 = Some ''F'' \<and> msg_header m2 35 = Some ''D'' \<and> msg_body m2 54 = Some ''1''"
proof -
  obtain queue' where pop: "spsc_pop kMdQueueCapacity sample_queue = (queue', Some collapse)"
    and ne: "\<not> spsc_empty queue'" by (rule sample_queue_pop)
  obtain e where e: "signal_on_event sample_engine collapse book_empty = (e, True)"
      "sig_direction (se_last_signal e) = DirSell" using sample_fires by blast
  obtain y outs0 where y: "alpha_turn sample_quickfix sample_turn sample_system = (y, outs0)" by fastforce
  let ?o = "rk_open_order (om_risk (sy_oms y))"
  have parts: "gw_queue (sy_gateway y) = Some queue'" "rk_has_position (om_risk (sy_oms y))"
    "rk_position_open_ns (om_risk (sy_oms y)) = 9000000000" "rk_cfg (om_risk (sy_oms y)) = default_config"
    "om_logged_on (sy_oms y)" "ord_side ?o = Sell"
    using y pop e sample_system_parts(1-3) sample_system_parts(5) [of 9000000000] sample_system_parts(6) [of _ 9000000000]
    by (auto simp: alpha_turn_def serve_timeout_def enter_order_def send_ioc_def next_clordid_def on_order_sent_def
        sent_order_def sample_turn_def sample_system_def oms_onLogon_def oms_init_def risk_init_def Let_def)
  have run: "system_run sample_quickfix sample_system [AlphaTurn sample_turn] = (y, map TradeOut outs0)"
    using y by simp
  have idle: "\<not> rk_has_position (om_risk (sy_oms sample_system))"
    by (simp add: sample_system_def oms_onLogon_def oms_init_def risk_init_def)
  have due: "on_timer (om_risk (sy_oms y)) (tn_now_ns late_turn) = Some ?o"
    using parts by (simp add: on_timer_def late_turn_def default_config_def)
  obtain y' outs where y': "alpha_turn sample_quickfix late_turn y = (y', outs)" by fastforce
  have nets: "tn_cancel_net late_turn = SendQueued True" "tn_close_net late_turn = SendQueued True"
    by (simp_all add: late_turn_def sample_turn_def)
  have "side_text (if ord_side ?o = Buy then Sell else Buy) = ''1''" using parts(6) by (simp add: side_text_def)
  then show ?thesis
    using timeout_reverses_unfilled_order [OF run idle parts(1) ne due parts(5) nets y'] run y' by auto
qed

end
