(* ===== verification/Backtest.thy ===== *)
theory Backtest
  imports Signal_Engine Score_Bounds
begin

text \<open>
  \<open>apps/backtest/main.cpp\<close>: the replay of a log of events through the order book and two
  signal engines, and the judgement of each signal by the first price at least five seconds
  later.  The log reader (\<open>LobEventLogger::Reader\<close>) is not among the sources; a run takes the
  list of events it would return.
\<close>

section \<open>State\<close>

record bt_result =
  br_total_signals :: u64
  br_buy_signals :: u64
  br_sell_signals :: u64
  br_wins :: u64
  br_losses :: u64
  br_sf_wins :: u64
  br_sf_total :: u64
  br_total_move_ticks :: f64

definition result_init :: bt_result where
  "result_init = \<lparr> br_total_signals = 0, br_buy_signals = 0, br_sell_signals = 0, br_wins = 0, br_losses = 0,
     br_sf_wins = 0, br_sf_total = 0, br_total_move_ticks = 0 \<rparr>"

definition percentage :: "u64 \<Rightarrow> u64 \<Rightarrow> f64" where
  "percentage part whole =
     (if 0 < whole then f64_div (Fin 100 * f64_of_int (uint part)) (f64_of_int (uint whole)) else 0)"

definition win_rate :: "bt_result \<Rightarrow> f64" where
  "win_rate r = percentage (br_wins r) (br_total_signals r)"

definition sf_win_rate :: "bt_result \<Rightarrow> f64" where
  "sf_win_rate r = percentage (br_sf_wins r) (br_sf_total r)"

definition avg_move :: "bt_result \<Rightarrow> f64" where
  "avg_move r = (if 0 < br_total_signals r
     then f64_div (br_total_move_ticks r) (f64_of_int (uint (br_total_signals r))) else 0)"

record pending_signal =
  ps_sig :: signal
  ps_entry_price :: int
  ps_sf_fired :: bool

record price_point =
  pp_ts_ns :: u64
  pp_bid :: int
  pp_ask :: int

record backtest =
  bt_book :: order_book
  bt_engine :: signal_engine
  bt_sf_engine :: signal_engine
  bt_result :: bt_result
  bt_pending :: "pending_signal list"
  bt_history :: "price_point list"

definition kLookForwardNs :: u64 where
  "kLookForwardNs = 5000000000"

definition backtest_init :: "f64 \<Rightarrow> backtest" where
  "backtest_init thresh_delta =
     \<lparr> bt_book = book_empty, bt_engine = signal_engine_new thresh_delta (Fin (3 / 2)),
       bt_sf_engine = signal_engine_new thresh_delta (Fin 1000000000), bt_result = result_init,
       bt_pending = [], bt_history = [] \<rparr>"

section \<open>Operations\<close>

text \<open>
  \<open>std::lower_bound\<close> on the \<open>len\<close> elements from \<open>first\<close> on: the bisection of the standard
  library.  \<open>before\<close> is the comparison with the value sought.
\<close>

function lower_bound_from :: "('a \<Rightarrow> bool) \<Rightarrow> 'a list \<Rightarrow> nat \<Rightarrow> nat \<Rightarrow> nat" where
  "lower_bound_from before xs first len =
     (if len = 0 then first
      else (let step = len div 2
            in if before (xs ! (first + step))
               then lower_bound_from before xs (first + step + 1) (len - (step + 1))
               else lower_bound_from before xs first step))"
  by pat_completeness auto
termination by (relation "measure (\<lambda>(before, xs, first, len). len)") auto

declare lower_bound_from.simps [simp del]

definition std_lower_bound :: "('a \<Rightarrow> bool) \<Rightarrow> 'a list \<Rightarrow> nat" where
  "std_lower_bound before xs = lower_bound_from before xs 0 (length xs)"

text \<open>The move in the predicted direction; a win is one of at least a dollar.\<close>

definition predicted_move :: "pending_signal \<Rightarrow> price_point \<Rightarrow> int" where
  "predicted_move p pp =
     (if sig_direction (ps_sig p) = DirBuy then i64 (pp_ask pp - ps_entry_price p)
      else i64 (ps_entry_price p - pp_bid pp))"

definition score_outcome :: "pending_signal \<Rightarrow> price_point \<Rightarrow> bt_result \<Rightarrow> bt_result" where
  "score_outcome p pp r =
     (let diff = predicted_move p pp;
          move_ticks = f64_div (f64_of_int diff) (f64_of_int kPriceScale);
          win = (kPriceScale \<le> diff);
          r = r\<lparr>br_total_move_ticks := br_total_move_ticks r + move_ticks\<rparr>;
          r = (if win then r\<lparr>br_wins := br_wins r + 1\<rparr> else r\<lparr>br_losses := br_losses r + 1\<rparr>)
      in if ps_sf_fired p
         then (let r = r\<lparr>br_sf_total := br_sf_total r + 1\<rparr>
               in if win then r\<lparr>br_sf_wins := br_sf_wins r + 1\<rparr> else r)
         else r)"

text \<open>One pending signal: judged and dropped once five seconds have passed, else kept.\<close>

definition judge_pending ::
  "u64 \<Rightarrow> price_point list \<Rightarrow> bt_result \<times> pending_signal list \<Rightarrow> pending_signal \<Rightarrow> bt_result \<times> pending_signal list" where
  "judge_pending now history acc p =
     (let (r, kept) = acc; trigger = sig_trigger_time_ns (ps_sig p)
      in if kLookForwardNs \<le> now - trigger then
           (let target_ts = trigger + kLookForwardNs;
                i = std_lower_bound (\<lambda>pp. pp_ts_ns pp < target_ts) history
            in (if i < length history then score_outcome p (history ! i) r else r, kept))
         else (r, kept @ [p]))"

definition judge_all :: "u64 \<Rightarrow> price_point list \<Rightarrow> bt_result \<Rightarrow> pending_signal list \<Rightarrow> bt_result \<times> pending_signal list" where
  "judge_all now history r ps = foldl (judge_pending now history) (r, []) ps"

definition note_price :: "lob_event \<Rightarrow> order_book \<Rightarrow> price_point list \<Rightarrow> price_point list" where
  "note_price ev book history =
     (if 0 < best_bid book \<and> 0 < best_ask book
      then history @ [\<lparr> pp_ts_ns = ev_timestamp_ns ev, pp_bid = best_bid book, pp_ask = best_ask book \<rparr>]
      else history)"

definition count_signal :: "direction \<Rightarrow> bt_result \<Rightarrow> bt_result" where
  "count_signal d r =
     (let r = r\<lparr>br_total_signals := br_total_signals r + 1\<rparr>;
          r = (if d = DirBuy then r\<lparr>br_buy_signals := br_buy_signals r + 1\<rparr> else r)
      in if d = DirSell then r\<lparr>br_sell_signals := br_sell_signals r + 1\<rparr> else r)"

definition bt_step :: "backtest \<Rightarrow> lob_event \<Rightarrow> backtest" where
  "bt_step b ev =
     (let book = book_after (bt_book b) ev;
          history = note_price ev book (bt_history b);
          (r, kept) = judge_all (ev_timestamp_ns ev) history (bt_result b) (bt_pending b);
          (e, fired) = signal_on_event (bt_engine b) ev book;
          sig = se_last_signal e;
          r = (if fired then count_signal (sig_direction sig) r else r);
          (sf, sf_fired) = signal_on_event (bt_sf_engine b) ev book;
          pending = (if fired then kept @ [\<lparr> ps_sig = sig, ps_entry_price = sig_l1_price sig,
                                             ps_sf_fired = sf_fired \<rparr>] else kept)
      in \<lparr> bt_book = book, bt_engine = e, bt_sf_engine = sf, bt_result = r, bt_pending = pending,
           bt_history = history \<rparr>)"

definition bt_run :: "backtest \<Rightarrow> lob_event list \<Rightarrow> backtest" where
  "bt_run b evs = foldl bt_step b evs"

lemma bt_run_simps [simp]: "bt_run b [] = b" "bt_run b (ev # evs) = bt_run (bt_step b ev) evs"
  by (simp_all add: bt_run_def)

section \<open>The bisection finds the first element that is not before\<close>

definition partitioned :: "('a \<Rightarrow> bool) \<Rightarrow> 'a list \<Rightarrow> bool" where
  "partitioned before xs \<longleftrightarrow> (\<forall>i j. i \<le> j \<longrightarrow> j < length xs \<longrightarrow> before (xs ! j) \<longrightarrow> before (xs ! i))"

lemma lower_bound_from_spec:
  assumes "partitioned before xs" "first + len \<le> length xs"
    and "\<forall>i < first. before (xs ! i)" "\<forall>i. first + len \<le> i \<longrightarrow> i < length xs \<longrightarrow> \<not> before (xs ! i)"
  shows "let k = lower_bound_from before xs first len
    in k \<le> length xs \<and> (\<forall>i < k. before (xs ! i)) \<and> (\<forall>i. k \<le> i \<longrightarrow> i < length xs \<longrightarrow> \<not> before (xs ! i))"
  using assms
proof (induction before xs first len rule: lower_bound_from.induct)
  case (1 before xs first len)
  let ?step = "len div 2"
  note eqn = lower_bound_from.simps [of before xs first len]
  show ?case
  proof (cases "len = 0")
    case True
    then have "lower_bound_from before xs first len = first" by (subst eqn) simp
    then show ?thesis using True 1(4-6) by (simp add: Let_def)
  next
    case False
    have mid: "first + ?step < length xs" using False 1(4) by simp
    note mono = 1(3) [unfolded partitioned_def]
    show ?thesis
    proof (cases "before (xs ! (first + ?step))")
      case True
      have eq: "lower_bound_from before xs first len
          = lower_bound_from before xs (first + ?step + 1) (len - (?step + 1))"
        using False True by (simp add: eqn Let_def)
      have s: "first + ?step + 1 + (len - (?step + 1)) = first + len" using False by simp
      have "before (xs ! i)" if "i < first + ?step + 1" for i
        using mono mid True that by (metis Suc_eq_plus1 less_Suc_eq_le)
      then show ?thesis unfolding eq using 1(1) [OF False refl True 1(3)] 1(4,6) unfolding s by blast
    next
      case nb: False
      have eq: "lower_bound_from before xs first len = lower_bound_from before xs first ?step"
        using False nb by (simp add: eqn Let_def)
      have "\<not> before (xs ! i)" if "first + ?step \<le> i" "i < length xs" for i
        using mono nb that by blast
      then show ?thesis unfolding eq using 1(2) [OF False refl nb 1(3) _ 1(5)] mid by (simp add: less_imp_le)
    qed
  qed
qed

text \<open>The reference: the number of leading elements that are before.\<close>

lemma lower_bound_takeWhile:
  assumes "partitioned before xs"
  shows "std_lower_bound before xs = length (takeWhile before xs)"
proof -
  let ?k = "std_lower_bound before xs"
  have k: "?k \<le> length xs" "\<And>i. i < ?k \<Longrightarrow> before (xs ! i)" "?k < length xs \<Longrightarrow> \<not> before (xs ! ?k)"
    using lower_bound_from_spec [OF assms, of 0 "length xs"] by (simp_all add: std_lower_bound_def Let_def)
  have "takeWhile before xs = take ?k xs"
    using k by (intro takeWhile_eq_take_P_nth) simp_all
  then show ?thesis using k(1) by simp
qed

section \<open>Signals are judged by the first price after five seconds\<close>

text \<open>The reference: drop the prices before the target time and take the first of the rest.\<close>

definition judge_reference ::
  "u64 \<Rightarrow> price_point list \<Rightarrow> bt_result \<times> pending_signal list \<Rightarrow> pending_signal \<Rightarrow> bt_result \<times> pending_signal list" where
  "judge_reference now history acc p =
     (let (r, kept) = acc; trigger = sig_trigger_time_ns (ps_sig p)
      in if kLookForwardNs \<le> now - trigger then
           (case dropWhile (\<lambda>pp. pp_ts_ns pp < trigger + kLookForwardNs) history of
              [] \<Rightarrow> r | pp # _ \<Rightarrow> score_outcome p pp r, kept)
         else (r, kept @ [p]))"

definition times_ordered :: "price_point list \<Rightarrow> bool" where
  "times_ordered history \<longleftrightarrow> sorted_wrt (\<lambda>a b. pp_ts_ns a \<le> pp_ts_ns b) history"

lemma ordered_partitioned: "times_ordered history \<Longrightarrow> partitioned (\<lambda>pp. pp_ts_ns pp < t) history"
  unfolding partitioned_def times_ordered_def
proof (intro allI impI)
  fix i j
  assume o: "sorted_wrt (\<lambda>a b. pp_ts_ns a \<le> pp_ts_ns b) history" and ij: "i \<le> j" "j < length history"
    and b: "pp_ts_ns (history ! j) < t"
  have "pp_ts_ns (history ! i) \<le> pp_ts_ns (history ! j)"
    using sorted_wrt_nth_less [OF o, of i j] ij by (cases "i = j") auto
  then show "pp_ts_ns (history ! i) < t" using b by (rule le_less_trans)
qed

lemma judge_pending_reference:
  "times_ordered history \<Longrightarrow> judge_pending now history acc p = judge_reference now history acc p"
proof -
  assume o: "times_ordered history"
  let ?b = "\<lambda>pp. pp_ts_ns pp < sig_trigger_time_ns (ps_sig p) + kLookForwardNs"
  have i: "std_lower_bound ?b history = length (takeWhile ?b history)"
    by (rule lower_bound_takeWhile [OF ordered_partitioned [OF o]])
  have d: "dropWhile ?b history = drop (length (takeWhile ?b history)) history" by (rule dropWhile_eq_drop)
  show ?thesis
  proof (cases "length (takeWhile ?b history) < length history")
    case True
    then have "dropWhile ?b history
        = history ! length (takeWhile ?b history) # drop (Suc (length (takeWhile ?b history))) history"
      unfolding d by (rule Cons_nth_drop_Suc [symmetric])
    then show ?thesis using i True by (simp add: judge_pending_def judge_reference_def case_prod_unfold Let_def)
  next
    case False
    then have e: "dropWhile ?b history = []" unfolding d by simp
    show ?thesis unfolding judge_pending_def judge_reference_def Let_def i e
      using False by (simp add: case_prod_unfold)
  qed
qed

lemma bt_step_history: "bt_history (bt_step b ev) = note_price ev (book_after (bt_book b) ev) (bt_history b)"
  by (simp add: bt_step_def case_prod_unfold Let_def)

lemma bt_step_book: "bt_book (bt_step b ev) = book_after (bt_book b) ev"
  by (simp add: bt_step_def case_prod_unfold Let_def)

definition feed_ordered :: "lob_event list \<Rightarrow> bool" where
  "feed_ordered evs \<longleftrightarrow> sorted_wrt (\<lambda>a b. ev_timestamp_ns a \<le> ev_timestamp_ns b) evs"

lemma bt_history_ordered:
  "feed_ordered evs \<Longrightarrow> times_ordered (bt_history b) \<Longrightarrow>
    list_all (\<lambda>pp. list_all (\<lambda>ev. pp_ts_ns pp \<le> ev_timestamp_ns ev) evs) (bt_history b) \<Longrightarrow>
    times_ordered (bt_history (bt_run b evs))"
proof (induction evs arbitrary: b)
  case (Cons ev evs)
  have "times_ordered (bt_history (bt_step b ev))"
    using Cons.prems by (auto simp: bt_step_history note_price_def times_ordered_def sorted_wrt_append list_all_iff)
  moreover have "list_all (\<lambda>pp. list_all (\<lambda>ev. pp_ts_ns pp \<le> ev_timestamp_ns ev) evs) (bt_history (bt_step b ev))"
    using Cons.prems by (auto simp: bt_step_history note_price_def feed_ordered_def list_all_iff)
  moreover have "feed_ordered evs" using Cons.prems(1) by (simp add: feed_ordered_def)
  ultimately show ?case by (simp add: Cons.IH)
qed simp

text \<open>
  C26: On a log whose time stamps never decrease, the bisection the backtest uses always finds
  the first recorded price at or after the target time: judging the pending signals is the
  same as judging each by the head of the remaining price history, and a signal with no such
  price is dropped without a verdict.
\<close>

theorem outcomes_use_first_later_price:
  assumes "feed_ordered evs" and "history = bt_history (bt_run (backtest_init th) evs)"
  shows "judge_all now history r ps = foldl (judge_reference now history) (r, []) ps"
proof -
  have "times_ordered history" unfolding assms(2)
    by (rule bt_history_ordered [OF assms(1)]) (simp_all add: backtest_init_def times_ordered_def)
  then have "judge_pending now history = judge_reference now history"
    using judge_pending_reference by (intro ext)
  then show ?thesis by (simp add: judge_all_def)
qed

section \<open>The books balance\<close>

definition accounts :: "bt_result \<Rightarrow> nat \<Rightarrow> nat \<Rightarrow> bool" where
  "accounts r waiting n \<longleftrightarrow>
     unat (br_total_signals r) = unat (br_buy_signals r) + unat (br_sell_signals r) \<and>
     unat (br_wins r) + unat (br_losses r) + waiting \<le> unat (br_total_signals r) \<and>
     unat (br_sf_wins r) \<le> unat (br_sf_total r) \<and> unat (br_sf_wins r) \<le> unat (br_wins r) \<and>
     unat (br_sf_total r) \<le> unat (br_wins r) + unat (br_losses r) \<and>
     unat (br_total_signals r) \<le> n \<and> n < 2 ^ 64"

lemma score_outcome_accounts: "accounts r (Suc k) n \<Longrightarrow> accounts (score_outcome p pp r) k n"
  by (auto simp: accounts_def score_outcome_def Let_def unat_Suc_u64)

lemma accounts_less: "accounts r (Suc k) n \<Longrightarrow> accounts r k n"
  by (simp add: accounts_def)

lemma judge_pending_accounts:
  assumes "accounts r (length kept + Suc k) n"
  shows "let (r', kept') = judge_pending now history (r, kept) p in accounts r' (length kept' + k) n"
  using assms score_outcome_accounts [of r "length kept + k" n p] accounts_less [of r "length kept + k" n]
  by (auto simp: judge_pending_def Let_def)

lemma judge_foldl_accounts:
  "accounts r (length kept + length ps) n \<Longrightarrow>
    foldl (judge_pending now history) (r, kept) ps = (r', kept') \<Longrightarrow> accounts r' (length kept') n"
proof (induction ps arbitrary: r kept)
  case (Cons p ps)
  obtain r1 kept1 where j: "judge_pending now history (r, kept) p = (r1, kept1)" by fastforce
  have "accounts r (length kept + Suc (length ps)) n" using Cons.prems(1) by simp
  from judge_pending_accounts [OF this, of now history p] have "accounts r1 (length kept1 + length ps) n"
    by (simp add: j)
  then show ?case using Cons.IH [of r1 kept1] Cons.prems(2) j by simp
qed simp

lemma fired_direction: "signal_on_event e ev book = (e', True) \<Longrightarrow> sig_direction (se_last_signal e') \<noteq> DirNone"
  by (auto simp: signal_on_event_def Let_def split: if_splits)

lemma count_signal_accounts:
  "accounts r k n \<Longrightarrow> d \<noteq> DirNone \<Longrightarrow> Suc n < 2 ^ 64 \<Longrightarrow> accounts (count_signal d r) (Suc k) (Suc n)"
  by (cases d) (auto simp: accounts_def count_signal_def Let_def unat_Suc_u64)

lemma accounts_mono: "accounts r k n \<Longrightarrow> Suc n < 2 ^ 64 \<Longrightarrow> accounts r k (Suc n)"
  by (simp add: accounts_def)

lemma bt_step_accounts:
  assumes "accounts (bt_result b) (length (bt_pending b)) n" "Suc n < 2 ^ 64"
  shows "accounts (bt_result (bt_step b ev)) (length (bt_pending (bt_step b ev))) (Suc n)"
proof -
  let ?book = "book_after (bt_book b) ev"
  obtain r kept where j: "judge_all (ev_timestamp_ns ev) (note_price ev ?book (bt_history b)) (bt_result b)
      (bt_pending b) = (r, kept)" by fastforce
  obtain e fired where e: "signal_on_event (bt_engine b) ev ?book = (e, fired)" by fastforce
  have a: "accounts r (length kept) n"
    using judge_foldl_accounts [of "bt_result b" "[]" "bt_pending b" n] assms(1) j by (simp add: judge_all_def)
  show ?thesis
  proof (cases fired)
    case True
    then show ?thesis using count_signal_accounts [OF a fired_direction assms(2)] e j
      by (simp add: bt_step_def case_prod_unfold Let_def)
  next
    case False
    then show ?thesis using accounts_mono [OF a assms(2)] e j by (simp add: bt_step_def case_prod_unfold Let_def)
  qed
qed

lemma bt_run_accounts:
  "accounts (bt_result b) (length (bt_pending b)) n \<Longrightarrow> n + length evs < 2 ^ 64 \<Longrightarrow>
    accounts (bt_result (bt_run b evs)) (length (bt_pending (bt_run b evs))) (n + length evs)"
proof (induction evs arbitrary: b n)
  case (Cons ev evs)
  then show ?case using Cons.IH [OF bt_step_accounts, of b n ev] by simp
qed simp

text \<open>
  After any log, every signal is a buy or a sell, the verdicts and the signals still
  waiting together never exceed the signals, the single-factor figures count a part of the
  verdicts, and no counter has wrapped.
\<close>

theorem backtest_books_balance:
  assumes "length evs < 2 ^ 64"
  shows "let b = bt_run (backtest_init th) evs; r = bt_result b
    in unat (br_total_signals r) = unat (br_buy_signals r) + unat (br_sell_signals r) \<and>
       unat (br_wins r) + unat (br_losses r) + length (bt_pending b) \<le> unat (br_total_signals r) \<and>
       unat (br_sf_wins r) \<le> unat (br_wins r) \<and> unat (br_sf_wins r) \<le> unat (br_sf_total r) \<and>
       unat (br_sf_total r) \<le> unat (br_wins r) + unat (br_losses r) \<and>
       unat (br_total_signals r) \<le> length evs"
proof -
  have "accounts (bt_result (backtest_init th)) (length (bt_pending (backtest_init th))) 0"
    by (simp add: accounts_def backtest_init_def result_init_def)
  from bt_run_accounts [OF this, of evs] show ?thesis using assms by (simp add: accounts_def Let_def)
qed

section \<open>The single-factor engine never fires\<close>

lemma small_score_blocks:
  assumes "se_min_cancel_z e = Fin 1000000000" "in_range (- pow2 24) (pow2 24) (cf_z_bid (se_cancel e))"
    "in_range (- pow2 24) (pow2 24) (cf_z_ask (se_cancel e))"
  shows "signal_direction e = DirNone"
proof -
  have "\<not> std_max (Fin 1000000000) th < z" if z: "in_range (- pow2 24) (pow2 24) z" for th z
  proof -
    obtain a where a: "z = Fin a" "a \<le> pow2 24" using in_rangeE [OF z] by blast
    then have "a \<le> 1000000000" by (simp add: pow2_def)
    then show ?thesis using a(1) f64_less_trans [of "Fin 1000000000" th z] by (auto simp: std_max_def)
  qed
  then show ?thesis using assms by (simp add: signal_direction_def Let_def)
qed

lemma bt_step_sf:
  "bt_sf_engine (bt_step b ev) = fst (signal_on_event (bt_sf_engine b) ev (book_after (bt_book b) ev))"
  by (simp add: bt_step_def case_prod_unfold Let_def)

lemma bt_step_sf_factors:
  "se_cancel (bt_sf_engine (bt_step b ev)) = cancel_on_event ev (se_cancel (bt_sf_engine b))"
  "se_min_cancel_z (bt_sf_engine (bt_step b ev)) = se_min_cancel_z (bt_sf_engine b)"
  by (simp_all add: bt_step_sf signal_on_event_factors feed_factors_def Let_def)

lemma bt_run_snoc: "bt_run b (evs @ [ev]) = bt_step (bt_run b evs) ev"
  by (simp add: bt_run_def)

lemma bt_run_sf_factors:
  "se_cancel (bt_sf_engine (bt_run (backtest_init th) evs)) = cancel_feed cancel_new evs"
  "se_min_cancel_z (bt_sf_engine (bt_run (backtest_init th) evs)) = Fin 1000000000"
proof (induction evs rule: rev_induct)
  case Nil
  show "se_cancel (bt_sf_engine (bt_run (backtest_init th) [])) = cancel_feed cancel_new []"
    "se_min_cancel_z (bt_sf_engine (bt_run (backtest_init th) [])) = Fin 1000000000"
    by (simp_all add: backtest_init_def signal_engine_new_def cancel_feed_def)
qed (simp_all add: bt_run_snoc bt_step_sf_factors cancel_feed_snoc)

text \<open>No signal is marked as seen by the single-factor engine, and none is counted for it.\<close>

definition sf_silent :: "bt_result \<Rightarrow> pending_signal list \<Rightarrow> bool" where
  "sf_silent r ps \<longleftrightarrow> br_sf_total r = 0 \<and> br_sf_wins r = 0 \<and> list_all (\<lambda>p. \<not> ps_sf_fired p) ps"

lemma judge_foldl_silent:
  "sf_silent r (kept @ ps) \<Longrightarrow> foldl (judge_pending now history) (r, kept) ps = (r', kept') \<Longrightarrow> sf_silent r' kept'"
proof (induction ps arbitrary: r kept)
  case (Cons p ps)
  obtain r1 kept1 where j: "judge_pending now history (r, kept) p = (r1, kept1)" by fastforce
  have "sf_silent r1 (kept1 @ ps)" using Cons.prems(1) j
    by (auto simp: sf_silent_def judge_pending_def score_outcome_def Let_def split: if_splits)
  then show ?case using Cons.IH [of r1 kept1] Cons.prems(2) j by simp
qed simp

lemma bt_step_silent:
  assumes "sf_silent (bt_result b) (bt_pending b)"
    and "\<not> snd (signal_on_event (bt_sf_engine b) ev (book_after (bt_book b) ev))"
  shows "sf_silent (bt_result (bt_step b ev)) (bt_pending (bt_step b ev))"
proof -
  obtain r kept where j: "judge_all (ev_timestamp_ns ev) (note_price ev (book_after (bt_book b) ev) (bt_history b))
      (bt_result b) (bt_pending b) = (r, kept)" by fastforce
  have "sf_silent r kept"
    using judge_foldl_silent [of "bt_result b" "[]" "bt_pending b"] assms(1) j by (simp add: judge_all_def)
  then show ?thesis using assms(2) j
    by (auto simp: bt_step_def case_prod_unfold Let_def sf_silent_def count_signal_def)
qed

lemma bt_run_silent:
  "calm_feed evs \<Longrightarrow>
    sf_silent (bt_result (bt_run (backtest_init th) evs)) (bt_pending (bt_run (backtest_init th) evs))"
proof (induction evs rule: rev_induct)
  case (snoc ev evs)
  let ?b = "bt_run (backtest_init th) evs"
  let ?book = "book_after (bt_book ?b) ev"
  let ?e = "feed_factors (bt_sf_engine ?b) ev ?book"
  have calm: "calm_feed (evs @ [ev])" using snoc.prems by simp
  have c: "se_cancel ?e = cancel_feed cancel_new (evs @ [ev])" "se_min_cancel_z ?e = Fin 1000000000"
    by (simp_all add: feed_factors_def Let_def bt_run_sf_factors cancel_feed_snoc)
  have "signal_direction ?e = DirNone"
    using calm_scores_bounded [OF calm] by (intro small_score_blocks) (simp_all add: c bt_run_sf_factors(2) scores_small_def)
  then have "\<not> snd (signal_on_event (bt_sf_engine ?b) ev ?book)" by (simp add: signal_on_event_def Let_def)
  moreover have "calm_feed evs" using calm_butlast [OF calm] .
  ultimately show ?case unfolding bt_run_snoc using snoc.IH by (intro bt_step_silent)
qed (simp add: sf_silent_def backtest_init_def result_init_def)

text \<open>
  C36: The single-factor engine of the comparison is built with a cancellation threshold of
  \<open>1e9\<close>, which its score would have to exceed: on any log in the order of its times, of any
  length and with any gaps, that has at most 8192 deletions of a side in 10 ms (and ends before
  the last 10 ms the clock can show), it never fires, and the single-factor figures are zero
  whatever the market did.
\<close>

theorem single_factor_engine_never_fires:
  assumes "calm_feed evs"
  shows "let b = bt_run (backtest_init th) evs
    in br_sf_total (bt_result b) = 0 \<and> br_sf_wins (bt_result b) = 0 \<and> sf_win_rate (bt_result b) = 0 \<and>
       list_all (\<lambda>p. \<not> ps_sf_fired p) (bt_pending b)"
  using bt_run_silent [of evs th] assms by (simp add: sf_silent_def sf_win_rate_def percentage_def Let_def)

section \<open>Witnesses\<close>

text \<open>A bid and an offer at one second, a better offer six seconds later.\<close>

definition sample_log :: "lob_event list" where
  "sample_log =
     [(make_ev 1 New Bid 200000 3)\<lparr>ev_timestamp_ns := 1000000000\<rparr>,
      (make_ev 2 New Offer 200300 4)\<lparr>ev_timestamp_ns := 1000000000\<rparr>,
      (make_ev 3 New Offer 200200 4)\<lparr>ev_timestamp_ns := 7000000000\<rparr>]"

definition sample_pending :: pending_signal where
  "sample_pending = \<lparr> ps_sig = signal_default\<lparr>sig_trigger_time_ns := 1500000000, sig_direction := DirSell\<rparr>,
     ps_entry_price = 200150, ps_sf_fired = False \<rparr>"

lemma sample_history:
  "bt_history (bt_run (backtest_init th) sample_log) =
     [\<lparr> pp_ts_ns = 1000000000, pp_bid = 200000, pp_ask = 200300 \<rparr>,
      \<lparr> pp_ts_ns = 7000000000, pp_bid = 200000, pp_ask = 200200 \<rparr>]"
  by (simp add: sample_log_def bt_step_history bt_step_book backtest_init_def note_price_def best_bid_def
      best_ask_def smap_first_def smap_last_def book_eval)

theorem outcomes_use_first_later_price_witness:
  "\<exists>r. judge_all 7000000000 (bt_history (bt_run (backtest_init (Fin 50)) sample_log)) result_init [sample_pending]
     = (r, []) \<and> br_wins r = 1 \<and> br_losses r = 0"
proof -
  have o: "feed_ordered sample_log" by (simp add: feed_ordered_def sample_log_def)
  show ?thesis
    unfolding outcomes_use_first_later_price [OF o refl] unfolding sample_history
    by (simp add: judge_reference_def sample_pending_def score_outcome_def predicted_move_def Let_def
        kLookForwardNs_def kPriceScale_def result_init_def i64_def)
qed

theorem backtest_books_balance_witness:
  "unat (br_total_signals (bt_result (bt_run (backtest_init (Fin 50)) sample_log))) \<le> 3"
proof -
  have "length sample_log < 2 ^ 64" by (simp add: sample_log_def)
  from backtest_books_balance [OF this, of "Fin 50"] show ?thesis by (simp add: Let_def sample_log_def)
qed

theorem single_factor_engine_never_fires_witness:
  "br_sf_total (bt_result (bt_run (backtest_init (Fin 50)) [quiet, burst, collapse])) = 0"
proof -
  have "deleted sd (filter p [quiet, burst, collapse]) \<le> 8192" for sd p
    using deleted_le_length [of sd "filter p [quiet, burst, collapse]"] length_filter_le [of p "[quiet, burst, collapse]"]
    by (simp del: filter.simps)
  then have "calm_feed [quiet, burst, collapse]"
    by (simp add: calm_feed_def sample_event_defs kBucketNs_def del: filter.simps)
  from single_factor_engine_never_fires [OF this, of "Fin 50"] show ?thesis by (simp add: Let_def)
qed

end
