(* ===== verification/Logger_App.thy ===== *)
theory Logger_App
  imports Fix_Md_Gateway Machine
begin

text \<open>
  \<open>apps/logger/main.cpp\<close>: the program that only records.  A gateway without a queue writes
  its events to the log; the main thread wakes every second, flushes the log, and leaves its
  loop on a signal or on an authentication failure.  The log itself (\<open>LobEventLogger\<close>) is not
  among the sources: its writes and flushes are outputs.
\<close>

section \<open>State and steps\<close>

text \<open>\<open>la_ended\<close> says that the main thread has left its loop and stopped the gateway.\<close>

record logger_app =
  la_gateway :: gateway
  la_running :: bool
  la_ended :: bool

datatype logger_event =
    LoggerTick
  | LoggerSignal
  | LoggerLogon send_result string int
  | LoggerLogout int
  | LoggerAdmin fix_message
  | LoggerMessage fix_message u64

datatype logger_output = LoggerMd md_output | LogFlush | LogReport | GatewayStopped

definition logger_init :: "dictionary option \<Rightarrow> logger_app" where
  "logger_init settings = \<lparr> la_gateway = gateway_new settings None, la_running = True, la_ended = False \<rparr>"

definition on_signal :: "logger_app \<Rightarrow> logger_app" where
  "on_signal a = a\<lparr>la_running := False\<rparr>"

text \<open>The body of the loop after its sleep, the loop test, and what follows the loop.\<close>

definition logger_tick :: "logger_app \<Rightarrow> logger_app \<times> logger_output list" where
  "logger_tick a =
     (let (a1, outs) = (if gw_auth_failed (la_gateway a) then (a\<lparr>la_running := False\<rparr>, [LogFlush])
                        else (a, [LogFlush, LogReport]))
      in if la_running a1 then (a1, outs)
         else (a1\<lparr>la_ended := True\<rparr>, outs @ [GatewayStopped, LogFlush]))"

fun logger_step :: "quickfix \<Rightarrow> logger_app \<Rightarrow> logger_event \<Rightarrow> logger_app \<times> logger_output list" where
  "logger_step q a e =
     (if la_ended a then (a, [])
      else (case e of
          LoggerTick \<Rightarrow> logger_tick a
        | LoggerSignal \<Rightarrow> (on_signal a, [])
        | LoggerLogon net sid now \<Rightarrow>
            (let (g, outs, _) = md_onLogon net sid now (la_gateway a) in (a\<lparr>la_gateway := g\<rparr>, map LoggerMd outs))
        | LoggerLogout now \<Rightarrow> (a\<lparr>la_gateway := md_onLogout now (la_gateway a)\<rparr>, [])
        | LoggerAdmin m \<Rightarrow> (a\<lparr>la_gateway := fst (md_fromAdmin m (la_gateway a))\<rparr>, [])
        | LoggerMessage m ts \<Rightarrow>
            (let (g, outs, _) = md_fromApp q m ts (la_gateway a) in (a\<lparr>la_gateway := g\<rparr>, map LoggerMd outs))))"

fun logger_run :: "quickfix \<Rightarrow> logger_app \<Rightarrow> logger_event list \<Rightarrow> logger_app \<times> logger_output list" where
  "logger_run q a [] = (a, [])"
| "logger_run q a (e # evs) =
     (let (a1, outs1) = logger_step q a e; (a2, outs2) = logger_run q a1 evs in (a2, outs1 @ outs2))"

declare logger_step.simps [simp del]

interpretation lgr: machine "logger_step q" "logger_run q"
  by unfold_locales simp_all

lemma ended_step: "la_ended a \<Longrightarrow> logger_step q a e = (a, [])"
  by (simp add: logger_step.simps)

lemma ended_run: "la_ended a \<Longrightarrow> logger_run q a evs = (a, [])"
  by (induction evs) (simp_all add: ended_step)

section \<open>Nothing is left unflushed\<close>

text \<open>The events given to the log after its last flush.\<close>

definition unflushed :: "logger_output list \<Rightarrow> lob_event list" where
  "unflushed outs = concat (map (\<lambda>x. case x of LoggerMd (LogWrite ev) \<Rightarrow> [ev] | _ \<Rightarrow> [])
     (takeWhile (\<lambda>x. x \<noteq> LogFlush) (rev outs)))"

lemma unflushed_flush: "unflushed (outs @ [LogFlush]) = []"
  by (simp add: unflushed_def)

lemma logger_step_ends:
  assumes "\<not> la_ended a" "logger_step q a e = (a', outs)" "la_ended a'"
  shows "e = LoggerTick \<and> (\<not> la_running a \<or> gw_auth_failed (la_gateway a)) \<and> (\<exists>os. outs = os @ [GatewayStopped, LogFlush])"
  using assms
  by (cases e) (auto simp: logger_step.simps logger_tick_def on_signal_def case_prod_unfold Let_def split: if_splits)

lemma logger_run_ends:
  "\<not> la_ended a \<Longrightarrow> logger_run q a evs = (a', outs) \<Longrightarrow> la_ended a' \<Longrightarrow>
    \<exists>os. outs = os @ [GatewayStopped, LogFlush]"
proof (induction evs arbitrary: a outs)
  case (Cons e evs)
  obtain a1 outs1 where e: "logger_step q a e = (a1, outs1)" by fastforce
  obtain outs2 where r: "logger_run q a1 evs = (a', outs2)" "outs = outs1 @ outs2"
    using Cons.prems(2) e by (auto simp: case_prod_unfold Let_def prod_eq_iff)
  show ?case
  proof (cases "la_ended a1")
    case True
    then show ?thesis using logger_step_ends [OF Cons.prems(1) e] r ended_run [OF True] by auto
  next
    case False
    show ?thesis using Cons.IH [OF False r(1) Cons.prems(3)] r(2) by auto
  qed
qed simp

text \<open>
  Once the logger has ended, whatever came in before and comes in after, the last thing
  done to the log is a flush made after the gateway was stopped: no event stays unflushed, and
  nothing that arrives later changes anything.
\<close>

theorem logger_flushes_everything:
  assumes "logger_run q (logger_init settings) evs = (a, outs)" and "la_ended a"
  shows "unflushed outs = [] \<and> (\<exists>os. outs = os @ [GatewayStopped, LogFlush]) \<and>
    logger_run q (logger_init settings) (evs @ later) = (a, outs)"
proof -
  obtain os where os: "outs = os @ [GatewayStopped, LogFlush]"
    using logger_run_ends [OF _ assms] by (auto simp: logger_init_def)
  have "unflushed outs = []" using unflushed_flush [of "os @ [GatewayStopped]"] by (simp add: os)
  then show ?thesis using os assms ended_run [OF assms(2)] by (simp add: lgr.run_append)
qed

section \<open>An early disconnect ends the logger\<close>

definition no_logon :: "logger_event list \<Rightarrow> bool" where
  "no_logon evs \<longleftrightarrow> list_all (\<lambda>e. case e of LoggerLogon _ _ _ \<Rightarrow> False | _ \<Rightarrow> True) evs"

lemma read_entries_session:
  "gw_auth_failed (fst (read_entries q f m g)) = gw_auth_failed g"
  "gw_logon_time (fst (read_entries q f m g)) = gw_logon_time g"
  using read_entries_streamed [of q f m g "fst (read_entries q f m g)" "fst (snd (read_entries q f m g))"
      "snd (snd (read_entries q f m g))"]
  by (simp_all add: streamed_def)

lemma fromApp_session:
  "gw_auth_failed (fst (md_fromApp q m ts g)) = gw_auth_failed g"
  "gw_logon_time (fst (md_fromApp q m ts g)) = gw_logon_time g"
  by (simp_all add: md_fromApp_def on_incremental_refresh_def on_snapshot_def on_md_reject_def
      read_entries_session case_prod_unfold Let_def split: sum.splits option.splits)

lemma fromAdmin_session:
  "gw_auth_failed g \<Longrightarrow> gw_auth_failed (fst (md_fromAdmin m g))"
  "gw_logon_time (fst (md_fromAdmin m g)) = gw_logon_time g"
  by (simp_all add: md_fromAdmin_def split: sum.splits option.splits)

lemma logout_session:
  "gw_auth_failed g \<Longrightarrow> gw_auth_failed (md_onLogout now g)" "gw_logon_time (md_onLogout now g) = gw_logon_time g"
  by (simp_all add: md_onLogout_def)

text \<open>Steps other than a logon keep the logon time, and never clear the failure flag.\<close>

lemma no_logon_step:
  assumes "no_logon [e]" "logger_step q a e = (a', outs)"
  shows "gw_logon_time (la_gateway a') = gw_logon_time (la_gateway a) \<and>
    (gw_auth_failed (la_gateway a) \<longrightarrow> gw_auth_failed (la_gateway a'))"
  using assms
  by (cases e) (auto simp: no_logon_def logger_step.simps logger_tick_def on_signal_def case_prod_unfold Let_def
      fromApp_session fromAdmin_session logout_session split: if_splits)

lemma no_logon_run:
  "no_logon evs \<Longrightarrow> logger_run q a evs = (a', outs) \<Longrightarrow>
    gw_logon_time (la_gateway a') = gw_logon_time (la_gateway a) \<and>
    (gw_auth_failed (la_gateway a) \<longrightarrow> gw_auth_failed (la_gateway a'))"
proof (induction evs arbitrary: a outs)
  case (Cons e evs)
  obtain a1 outs1 where e: "logger_step q a e = (a1, outs1)" by fastforce
  obtain outs2 where r: "logger_run q a1 evs = (a', outs2)"
    using Cons.prems(2) e by (auto simp: case_prod_unfold Let_def prod_eq_iff)
  have n: "no_logon [e]" "no_logon evs" using Cons.prems(1) by (simp_all add: no_logon_def)
  show ?case using no_logon_step [OF n(1) e] Cons.IH [OF n(2) r] by simp
qed simp

lemma tick_ends: "gw_auth_failed (la_gateway a) \<Longrightarrow> la_ended (fst (logger_step q a LoggerTick))"
  by (simp add: logger_step.simps logger_tick_def)

lemma run_snoc_fst: "fst (logger_run q a (evs @ [e])) = fst (logger_step q (fst (logger_run q a evs)) e)"
  by (simp add: lgr.run_append case_prod_unfold Let_def)

lemma early_logout_flags:
  assumes "no_logon (before @ after)" "t1 \<noteq> 0" "t1 \<le> t2" "t2 - t1 < 3000000000"
    and "\<not> la_ended (fst (logger_run q a (LoggerLogon net sid t1 # before)))"
  shows "gw_auth_failed (la_gateway (fst (logger_run q a (LoggerLogon net sid t1 # before @ LoggerLogout t2 # after))))"
proof -
  obtain a1 o1 where a1: "logger_step q a (LoggerLogon net sid t1) = (a1, o1)" by fastforce
  obtain a2 o2 where a2: "logger_run q a1 before = (a2, o2)" by fastforce
  obtain a3 o3 where a3: "logger_step q a2 (LoggerLogout t2) = (a3, o3)" by fastforce
  obtain a4 o4 where a4: "logger_run q a3 after = (a4, o4)" by fastforce
  have live: "\<not> la_ended a2" using assms(5) a1 a2 by simp
  then have "\<not> la_ended a" using a1 a2 ended_run ended_step by fastforce
  then have "gw_logon_time (la_gateway a1) = t1"
    using a1 by (auto simp: logger_step.simps md_onLogon_def subscribe_market_data_def case_prod_unfold Let_def
        split: send_result.splits)
  then have "gw_logon_time (la_gateway a2) = t1"
    using no_logon_run [OF _ a2] assms(1) by (simp add: no_logon_def)
  moreover have "c_div (t2 - t1) 1000000 < 3000" using assms(3,4) by (simp add: c_div_nonneg)
  ultimately have "gw_auth_failed (la_gateway a3)"
    using a3 live assms(2) by (auto simp: logger_step.simps md_onLogout_def)
  then have "gw_auth_failed (la_gateway a4)"
    using no_logon_run [OF _ a4] assms(1) by (simp add: no_logon_def)
  then show ?thesis using a1 a2 a3 a4 by (simp add: lgr.run_append case_prod_unfold Let_def)
qed

lemma early_logout_ends:
  assumes "no_logon (before @ after)" and "t1 \<noteq> 0" and "t1 \<le> t2" and "t2 - t1 < 3000000000"
  shows "la_ended (fst (logger_run q a (LoggerLogon net sid t1 # before @ LoggerLogout t2 # after @ [LoggerTick])))"
proof (cases "la_ended (fst (logger_run q a (LoggerLogon net sid t1 # before)))")
  case True
  then have "fst (logger_run q a ((LoggerLogon net sid t1 # before) @ (LoggerLogout t2 # after @ [LoggerTick])))
      = fst (logger_run q a (LoggerLogon net sid t1 # before))"
    unfolding lgr.run_append by (simp only: case_prod_unfold Let_def ended_run fst_conv)
  then show ?thesis using True by simp
next
  case False
  have "la_ended (fst (logger_run q a ((LoggerLogon net sid t1 # before @ LoggerLogout t2 # after) @ [LoggerTick])))"
    unfolding run_snoc_fst by (rule tick_ends [OF early_logout_flags [OF assms False]])
  then show ?thesis by simp
qed

text \<open>
  A session that is lost within three seconds of its logon, for whatever reason, ends the
  program: unless a new logon comes first, the next wake-up of the main thread takes it for an
  authentication failure, whatever market data the session had already brought.
\<close>

theorem early_disconnect_ends_logger:
  assumes "no_logon (before @ after)" and "t1 \<noteq> 0" and "t1 \<le> t2" and "t2 - t1 < 3000000000"
  shows "la_ended (fst (logger_run q a (LoggerLogon net sid t1 # before @ LoggerLogout t2 # after @ [LoggerTick])))"
  using assms by (rule early_logout_ends)

section \<open>Witnesses\<close>

definition sample_settings :: "dictionary option" where
  "sample_settings = Some [''SymbolID'' \<mapsto> ''41'']"

lemma sample_logger_ends:
  "la_ended (fst (logger_run sample_quickfix (logger_init sample_settings) [LoggerSignal, LoggerTick]))"
  by (simp add: logger_step.simps logger_tick_def on_signal_def logger_init_def Let_def)

theorem logger_flushes_everything_witness:
  "\<exists>a outs. logger_run sample_quickfix (logger_init sample_settings) [LoggerSignal, LoggerTick] = (a, outs) \<and>
     unflushed outs = []"
proof -
  obtain a outs where r: "logger_run sample_quickfix (logger_init sample_settings) [LoggerSignal, LoggerTick] = (a, outs)"
    by fastforce
  then have "la_ended a" using sample_logger_ends by (simp only: fst_conv)
  from logger_flushes_everything [OF r this] show ?thesis using r by blast
qed

theorem early_disconnect_ends_logger_witness:
  "la_ended (fst (logger_run sample_quickfix (logger_init sample_settings)
     [LoggerLogon (SendQueued True) ''S'' 1, LoggerTick, LoggerMessage sample_snapshot 5, LoggerLogout 2000000001, LoggerTick]))"
  using early_disconnect_ends_logger [of "[LoggerTick, LoggerMessage sample_snapshot 5]" "[]" 1 2000000001
      sample_quickfix "logger_init sample_settings" "SendQueued True" "''S''"]
  by (simp add: no_logon_def)

end
