(* ===== verification/Engine_Threads.thy ===== *)
theory Engine_Threads
  imports Engine
begin

text \<open>
  The alpha thread of \<open>apps/engine/main.cpp\<close> at the granularity of its calls: between any two
  of them the handlers of the FIX threads may run.  Each call into the order manager, the
  risk manager, the queue or the signal engine is one step.  A run of whole turns (theory
  \<open>Engine\<close>) is one in which no handler comes in between.  The callback of \<open>on_timer\<close> has the
  order by reference, so it reads the order of the risk manager at the time of each call.
\<close>

section \<open>Steps of the alpha thread\<close>

text \<open>
  Where the thread stands: before \<open>pop\<close>, before \<open>on_timer\<close>, inside its callback before
  \<open>cancel_order\<close> and before \<open>send_ioc\<close>, before \<open>on_event\<close>, before \<open>check_signal\<close>, before the
  entry \<open>send_ioc\<close>; with the local variables that are still read.
\<close>

datatype alpha_pc =
    AtPop
  | AtTimer lob_event u64
  | AtCancel lob_event u64
  | AtClose lob_event u64
  | AtSignal lob_event u64
  | AtCheck u64
  | AtSend u64

record threads =
  th_sys :: trading_system
  th_alpha :: alpha_pc

text \<open>Outputs, by the call that caused them.\<close>

datatype thread_output = EntryOut oms_output | CloseOut oms_output | SessionOut system_output

definition pop_step :: "turn \<Rightarrow> threads \<Rightarrow> threads" where
  "pop_step t h =
     (case gw_queue (sy_gateway (th_sys h)) of
        None \<Rightarrow> h
      | Some queue \<Rightarrow>
          (case spsc_pop kMdQueueCapacity queue of
             (_, None) \<Rightarrow> h
           | (queue', Some ev) \<Rightarrow>
               h\<lparr>th_sys := (th_sys h)\<lparr>sy_gateway := (sy_gateway (th_sys h))\<lparr>gw_queue := Some queue'\<rparr>\<rparr>,
                 th_alpha := AtTimer ev (tn_now_ns t)\<rparr>))"

definition cancel_step :: "turn \<Rightarrow> lob_event \<Rightarrow> u64 \<Rightarrow> threads \<Rightarrow> threads \<times> thread_output list" where
  "cancel_step t ev now h =
     (let o1 = rk_open_order (om_risk (sy_oms (th_sys h)));
          (s, outs) = cancel_order (tn_cancel_net t) (tn_cancel_utc t) (ord_clordid o1) (sy_oms (th_sys h))
      in (h\<lparr>th_sys := (th_sys h)\<lparr>sy_oms := s\<rparr>, th_alpha := AtClose ev now\<rparr>, map CloseOut outs))"

definition close_step :: "quickfix \<Rightarrow> turn \<Rightarrow> lob_event \<Rightarrow> u64 \<Rightarrow> threads \<Rightarrow> threads \<times> thread_output list" where
  "close_step q t ev now h =
     (let o1 = rk_open_order (om_risk (sy_oms (th_sys h)));
          book = gw_book (sy_gateway (th_sys h));
          (s, outs, _) = send_ioc q (tn_close_net t) (tn_close_utc t) (close_side o1) (ord_qty o1)
            (if ord_side o1 = Buy then best_bid book else best_ask book) now (sy_oms (th_sys h))
      in (h\<lparr>th_sys := (th_sys h)\<lparr>sy_oms := s\<rparr>, th_alpha := AtSignal ev now\<rparr>, map CloseOut outs))"

definition signal_step :: "lob_event \<Rightarrow> u64 \<Rightarrow> threads \<Rightarrow> threads" where
  "signal_step ev now h =
     (let (e, fired) = signal_on_event (sy_signals (th_sys h)) ev (gw_book (sy_gateway (th_sys h)))
      in h\<lparr>th_sys := (th_sys h)\<lparr>sy_signals := e\<rparr>, th_alpha := (if fired then AtCheck now else AtPop)\<rparr>)"

definition send_step :: "quickfix \<Rightarrow> turn \<Rightarrow> u64 \<Rightarrow> threads \<Rightarrow> threads \<times> thread_output list" where
  "send_step q t now h =
     (let sig = se_last_signal (sy_signals (th_sys h));
          (s, outs, _) = send_ioc q (tn_entry_net t) (tn_entry_utc t)
            (if sig_direction sig = DirBuy then Buy else Sell) 1 (sig_l1_price sig) now (sy_oms (th_sys h))
      in (h\<lparr>th_sys := (th_sys h)\<lparr>sy_oms := s\<rparr>, th_alpha := AtPop\<rparr>, map EntryOut outs))"

definition alpha_step :: "quickfix \<Rightarrow> turn \<Rightarrow> threads \<Rightarrow> threads \<times> thread_output list" where
  "alpha_step q t h =
     (case th_alpha h of
        AtPop \<Rightarrow> (pop_step t h, [])
      | AtTimer ev now \<Rightarrow>
          (case on_timer (om_risk (sy_oms (th_sys h))) now of
             None \<Rightarrow> (h\<lparr>th_alpha := AtSignal ev now\<rparr>, [])
           | Some _ \<Rightarrow> (h\<lparr>th_alpha := AtCancel ev now\<rparr>, []))
      | AtCancel ev now \<Rightarrow> cancel_step t ev now h
      | AtClose ev now \<Rightarrow> close_step q t ev now h
      | AtSignal ev now \<Rightarrow> (signal_step ev now h, [])
      | AtCheck now \<Rightarrow>
          (if check_signal (om_risk (sy_oms (th_sys h))) (se_last_signal (sy_signals (th_sys h))) now
           then (h\<lparr>th_alpha := AtSend now\<rparr>, []) else (h\<lparr>th_alpha := AtPop\<rparr>, []))
      | AtSend now \<Rightarrow> send_step q t now h)"

section \<open>Both threads\<close>

text \<open>The FIX threads' handlers are those of the coarse system; a whole turn is none of them.\<close>

datatype thread_event = AlphaStep turn | Handler system_event

fun thread_step :: "quickfix \<Rightarrow> threads \<Rightarrow> thread_event \<Rightarrow> threads \<times> thread_output list" where
  "thread_step q h (AlphaStep t) = alpha_step q t h"
| "thread_step q h (Handler e) =
     (case e of
        AlphaTurn _ \<Rightarrow> (h, [])
      | _ \<Rightarrow> (let (y, outs) = system_step q (th_sys h) e in (h\<lparr>th_sys := y\<rparr>, map SessionOut outs)))"

fun thread_run :: "quickfix \<Rightarrow> threads \<Rightarrow> thread_event list \<Rightarrow> threads \<times> thread_output list" where
  "thread_run q h [] = (h, [])"
| "thread_run q h (e # evs) =
     (let (h1, outs1) = thread_step q h e; (h2, outs2) = thread_run q h1 evs in (h2, outs1 @ outs2))"

text \<open>What leaves on the trade session, whichever call it is from.\<close>

definition oms_outs :: "thread_output list \<Rightarrow> oms_output list" where
  "oms_outs outs = concat (map (\<lambda>x. case x of EntryOut y \<Rightarrow> [y] | CloseOut y \<Rightarrow> [y]
     | SessionOut (TradeOut y) \<Rightarrow> [y] | SessionOut (MdOut _) \<Rightarrow> []) outs)"

lemma oms_outs_simps [simp]:
  "oms_outs [] = []" "oms_outs (xs @ ys) = oms_outs xs @ oms_outs ys"
  "oms_outs (map EntryOut os) = os" "oms_outs (map CloseOut os) = os"
  by (simp_all add: oms_outs_def comp_def)

lemma oms_outs_session [simp]: "oms_outs (map SessionOut outs) = trade_outs outs"
  by (induction outs) (auto simp: oms_outs_def trade_outs_def split: system_output.splits)

interpretation thr: machine "thread_step q" "thread_run q"
  by unfold_locales simp_all

section \<open>Order state changes only by calls of the order manager\<close>

lemma alpha_step_reaches:
  "alpha_step q t h = (h', outs) \<Longrightarrow>
    oms_reaches q (sy_oms (th_sys h)) (oms_outs outs) (sy_oms (th_sys h'))"
proof (cases "th_alpha h")
  case AtPop
  then show "alpha_step q t h = (h', outs) \<Longrightarrow> ?thesis"
    by (auto simp: alpha_step_def pop_step_def split: option.splits prod.splits)
next
  case (AtTimer ev now)
  then show "alpha_step q t h = (h', outs) \<Longrightarrow> ?thesis" by (auto simp: alpha_step_def split: option.splits)
next
  case (AtCancel ev now)
  let ?o = "rk_open_order (om_risk (sy_oms (th_sys h)))"
  from AtCancel show "alpha_step q t h = (h', outs) \<Longrightarrow> ?thesis"
    using oms_reaches_step [of q "sy_oms (th_sys h)" "CancelOrder (tn_cancel_net t) (tn_cancel_utc t) (ord_clordid ?o)"]
    by (auto simp: alpha_step_def cancel_step_def case_prod_unfold Let_def)
next
  case (AtClose ev now)
  let ?b = "gw_book (sy_gateway (th_sys h))" and ?o = "rk_open_order (om_risk (sy_oms (th_sys h)))"
  show "alpha_step q t h = (h', outs) \<Longrightarrow> ?thesis"
    using AtClose oms_reaches_step [of q "sy_oms (th_sys h)" "SendOrder (tn_close_net t) (tn_close_utc t) (close_side ?o)
        (ord_qty ?o) (if ord_side ?o = Buy then best_bid ?b else best_ask ?b) now"]
    by (auto simp: alpha_step_def close_step_def case_prod_unfold Let_def)
next
  case (AtSignal ev now)
  then show "alpha_step q t h = (h', outs) \<Longrightarrow> ?thesis"
    by (auto simp: alpha_step_def signal_step_def case_prod_unfold Let_def)
next
  case (AtCheck now)
  then show "alpha_step q t h = (h', outs) \<Longrightarrow> ?thesis" by (auto simp: alpha_step_def split: if_splits)
next
  case (AtSend now)
  let ?sig = "se_last_signal (sy_signals (th_sys h))"
  show "alpha_step q t h = (h', outs) \<Longrightarrow> ?thesis"
    using AtSend oms_reaches_step [of q "sy_oms (th_sys h)" "SendOrder (tn_entry_net t) (tn_entry_utc t)
        (if sig_direction ?sig = DirBuy then Buy else Sell) 1 (sig_l1_price ?sig) now"]
    by (auto simp: alpha_step_def send_step_def case_prod_unfold Let_def)
qed

lemma handler_step:
  assumes "thread_step q h (Handler e) = (h', outs)"
  obtains (none) "h' = h" "outs = []"
  | (handled) y os where "system_step q (th_sys h) e = (y, os)" "h' = h\<lparr>th_sys := y\<rparr>" "outs = map SessionOut os"
      "\<And>t. e \<noteq> AlphaTurn t"
  using assms by (cases e) (auto simp: case_prod_unfold Let_def)

lemma thread_step_reaches:
  assumes "thread_step q h e = (h', outs)"
  shows "oms_reaches q (sy_oms (th_sys h)) (oms_outs outs) (sy_oms (th_sys h'))"
proof (cases e)
  case (AlphaStep t)
  then show ?thesis using alpha_step_reaches assms by simp
next
  case (Handler x)
  from assms [unfolded this] show ?thesis
  proof (cases rule: handler_step)
    case (handled y os)
    then show ?thesis using system_step_reaches [OF handled(1)] by simp
  qed simp
qed

lemma thread_run_reaches:
  "thread_run q h evs = (h', outs) \<Longrightarrow> oms_reaches q (sy_oms (th_sys h)) (oms_outs outs) (sy_oms (th_sys h'))"
  by (rule thr.run_relates [of "\<lambda>h outs h'. oms_reaches q (sy_oms (th_sys h)) (oms_outs outs) (sy_oms (th_sys h'))"])
    (auto intro: oms_reaches_trans thread_step_reaches)

section \<open>A turn is a sequence of steps\<close>

text \<open>Uninterrupted steps, with the trade outputs.\<close>

definition alpha_steps :: "quickfix \<Rightarrow> turn \<Rightarrow> threads \<Rightarrow> nat \<Rightarrow> oms_output list \<Rightarrow> threads \<Rightarrow> bool" where
  "alpha_steps q t h n outs h' \<longleftrightarrow>
     (\<exists>touts. thread_run q h (replicate n (AlphaStep t)) = (h', touts) \<and> oms_outs touts = outs)"

lemma alpha_steps_trans:
  "alpha_steps q t h m outs1 h1 \<Longrightarrow> alpha_steps q t h1 n outs2 h2 \<Longrightarrow> alpha_steps q t h (m + n) (outs1 @ outs2) h2"
  by (auto simp: alpha_steps_def replicate_add thr.run_append Let_def)

lemma alpha_steps_one: "alpha_step q t h = (h', touts) \<Longrightarrow> alpha_steps q t h 1 (oms_outs touts) h'"
  by (simp add: alpha_steps_def)

lemma alpha_steps_none: "alpha_steps q t h 0 [] h"
  by (simp add: alpha_steps_def)

lemma cancel_order_risk: "cancel_order net utc i s = (s', outs) \<Longrightarrow> om_risk s' = om_risk s"
  by (auto simp: cancel_order_def next_clordid_def Let_def split: option.splits send_result.splits)

lemma timeout_steps:
  assumes "serve_timeout q t (gw_book (sy_gateway y)) (sy_oms y) = (s, outs)"
  shows "\<exists>n \<le> 3. alpha_steps q t \<lparr>th_sys = y, th_alpha = AtTimer ev (tn_now_ns t)\<rparr> n outs
      \<lparr>th_sys = y\<lparr>sy_oms := s\<rparr>, th_alpha = AtSignal ev (tn_now_ns t)\<rparr>"
proof (cases "on_timer (om_risk (sy_oms y)) (tn_now_ns t)")
  case None
  then have "s = sy_oms y" "outs = []" using assms by (simp_all add: serve_timeout_def)
  then have "alpha_steps q t \<lparr>th_sys = y, th_alpha = AtTimer ev (tn_now_ns t)\<rparr> 1 outs
      \<lparr>th_sys = y\<lparr>sy_oms := s\<rparr>, th_alpha = AtSignal ev (tn_now_ns t)\<rparr>"
    using None by (simp add: alpha_steps_def alpha_step_def)
  then show ?thesis by (intro exI [of _ 1]) simp
next
  case (Some o1)
  obtain s1 outs1 where c: "cancel_order (tn_cancel_net t) (tn_cancel_utc t) (ord_clordid o1) (sy_oms y) = (s1, outs1)"
    by fastforce
  have o1: "rk_open_order (om_risk (sy_oms y)) = o1" using Some by (auto simp: on_timer_def split: if_splits)
  then have o2: "rk_open_order (om_risk s1) = o1" using cancel_order_risk [OF c] by simp
  let ?h = "\<lambda>s pc. \<lparr>th_sys = y\<lparr>sy_oms := s\<rparr>, th_alpha = pc\<rparr>" and ?now = "tn_now_ns t"
  have "alpha_steps q t \<lparr>th_sys = y, th_alpha = AtTimer ev ?now\<rparr> 1 [] (?h (sy_oms y) (AtCancel ev ?now))"
    using Some by (simp add: alpha_steps_def alpha_step_def)
  moreover have "alpha_steps q t (?h (sy_oms y) (AtCancel ev ?now)) 1 outs1 (?h s1 (AtClose ev ?now))"
    using c o1 by (simp add: alpha_steps_def alpha_step_def cancel_step_def)
  moreover obtain outs2 where "outs = outs1 @ outs2"
      "alpha_steps q t (?h s1 (AtClose ev ?now)) 1 outs2 (?h s (AtSignal ev ?now))"
    using assms Some c o2
    by (auto simp: serve_timeout_def force_close_def alpha_steps_def alpha_step_def close_step_def case_prod_unfold Let_def)
  ultimately have "alpha_steps q t \<lparr>th_sys = y, th_alpha = AtTimer ev ?now\<rparr> (1 + (1 + 1)) ([] @ outs1 @ outs2)
      (?h s (AtSignal ev ?now))" by (intro alpha_steps_trans)
  then show ?thesis using \<open>outs = outs1 @ outs2\<close> by (intro exI [of _ 3]) (simp add: eval_nat_numeral)
qed

lemma signal_steps:
  assumes "signal_on_event (sy_signals y) ev (gw_book (sy_gateway y)) = (e, fired)"
    "(if fired then enter_order q t (se_last_signal e) (sy_oms y) else (sy_oms y, [])) = (s, outs)"
  shows "\<exists>n \<le> 3. alpha_steps q t \<lparr>th_sys = y, th_alpha = AtSignal ev (tn_now_ns t)\<rparr> n outs
      \<lparr>th_sys = y\<lparr>sy_signals := e, sy_oms := s\<rparr>, th_alpha = AtPop\<rparr>"
proof -
  let ?h = "\<lambda>s pc. \<lparr>th_sys = y\<lparr>sy_signals := e, sy_oms := s\<rparr>, th_alpha = pc\<rparr>" and ?now = "tn_now_ns t"
  have first: "alpha_steps q t \<lparr>th_sys = y, th_alpha = AtSignal ev ?now\<rparr> 1 []
      (?h (sy_oms y) (if fired then AtCheck ?now else AtPop))"
    using assms(1) by (simp add: alpha_steps_def alpha_step_def signal_step_def)
  consider (silent) "\<not> fired" | (blocked) "fired" "\<not> check_signal (om_risk (sy_oms y)) (se_last_signal e) ?now"
    | (sent) "fired" "check_signal (om_risk (sy_oms y)) (se_last_signal e) ?now" by blast
  then show ?thesis
  proof cases
    case silent
    then have "s = sy_oms y" "outs = []" using assms(2) by simp_all
    then show ?thesis using first silent by (intro exI [of _ 1]) simp
  next
    case blocked
    then have "alpha_steps q t (?h (sy_oms y) (AtCheck ?now)) 1 [] (?h (sy_oms y) AtPop)"
      by (simp add: alpha_steps_def alpha_step_def)
    then have "alpha_steps q t \<lparr>th_sys = y, th_alpha = AtSignal ev ?now\<rparr> (1 + 1) ([] @ []) (?h (sy_oms y) AtPop)"
      using first blocked by (intro alpha_steps_trans) simp_all
    moreover have "s = sy_oms y" "outs = []" using blocked assms(2) by (simp_all add: enter_order_def)
    ultimately show ?thesis by (intro exI [of _ 2]) (simp add: eval_nat_numeral)
  next
    case sent
    then have "alpha_steps q t (?h (sy_oms y) (AtCheck ?now)) 1 [] (?h (sy_oms y) (AtSend ?now))"
      by (simp add: alpha_steps_def alpha_step_def)
    moreover have "alpha_steps q t (?h (sy_oms y) (AtSend ?now)) 1 outs (?h s AtPop)"
      using assms(2) sent by (auto simp: alpha_steps_def alpha_step_def send_step_def enter_order_def case_prod_unfold Let_def)
    ultimately have "alpha_steps q t \<lparr>th_sys = y, th_alpha = AtSignal ev ?now\<rparr> (1 + (1 + 1)) ([] @ [] @ outs) (?h s AtPop)"
      using first sent by (intro alpha_steps_trans) simp_all
    then show ?thesis by (intro exI [of _ 3]) (simp add: eval_nat_numeral)
  qed
qed

lemma turn_steps:
  assumes "alpha_turn q t y = (y', outs)"
  shows "\<exists>n \<le> 7. alpha_steps q t \<lparr>th_sys = y, th_alpha = AtPop\<rparr> n outs \<lparr>th_sys = y', th_alpha = AtPop\<rparr>"
  using assms
proof (cases rule: alpha_turn_cases)
  case nothing
  then show ?thesis using alpha_steps_none by (intro exI [of _ 0]) simp
next
  case (event queue queue' ev s1 outs1 e fired outs2)
  let ?y1 = "y\<lparr>sy_gateway := (sy_gateway y)\<lparr>gw_queue := Some queue'\<rparr>\<rparr>"
  have y': "y' = ?y1\<lparr>sy_signals := e, sy_oms := sy_oms y'\<rparr>"
    using assms event(1-5) by (auto simp: alpha_turn_def case_prod_unfold Let_def split: if_splits)
  have pop: "alpha_steps q t \<lparr>th_sys = y, th_alpha = AtPop\<rparr> 1 [] \<lparr>th_sys = ?y1, th_alpha = AtTimer ev (tn_now_ns t)\<rparr>"
    using event(1,2) by (simp add: alpha_steps_def alpha_step_def pop_step_def)
  obtain m where m: "m \<le> 3" "alpha_steps q t \<lparr>th_sys = ?y1, th_alpha = AtTimer ev (tn_now_ns t)\<rparr> m outs1
      \<lparr>th_sys = ?y1\<lparr>sy_oms := s1\<rparr>, th_alpha = AtSignal ev (tn_now_ns t)\<rparr>"
    using timeout_steps [of q t ?y1 s1 outs1 ev] event(3) by auto
  have "signal_on_event (sy_signals (?y1\<lparr>sy_oms := s1\<rparr>)) ev (gw_book (sy_gateway (?y1\<lparr>sy_oms := s1\<rparr>))) = (e, fired)"
      "(if fired then enter_order q t (se_last_signal e) (sy_oms (?y1\<lparr>sy_oms := s1\<rparr>))
        else (sy_oms (?y1\<lparr>sy_oms := s1\<rparr>), [])) = (sy_oms y', outs2)"
    using event(4,5) by (simp_all split: if_splits)
  from signal_steps [OF this] obtain n where n: "n \<le> 3" "alpha_steps q t \<lparr>th_sys = ?y1\<lparr>sy_oms := s1\<rparr>, th_alpha = AtSignal ev (tn_now_ns t)\<rparr> n outs2
      \<lparr>th_sys = ?y1\<lparr>sy_oms := s1, sy_signals := e, sy_oms := sy_oms y'\<rparr>, th_alpha = AtPop\<rparr>"
    by blast
  have "?y1\<lparr>sy_oms := s1, sy_signals := e, sy_oms := sy_oms y'\<rparr> = y'" by (subst y') simp
  then have "alpha_steps q t \<lparr>th_sys = y, th_alpha = AtPop\<rparr> (1 + (m + n)) ([] @ outs1 @ outs2) \<lparr>th_sys = y', th_alpha = AtPop\<rparr>"
    using alpha_steps_trans [OF pop alpha_steps_trans [OF m(2) n(2)]] by simp
  then show ?thesis using m(1) n(1) event(6) by (intro exI [of _ "1 + (m + n)"]) simp
qed

text \<open>Hence every run of whole turns is a run of steps.\<close>

lemma coarse_step_is_fine:
  assumes "system_step q y e = (y', outs)"
  shows "\<exists>tevs touts. thread_run q \<lparr>th_sys = y, th_alpha = AtPop\<rparr> tevs = (\<lparr>th_sys = y', th_alpha = AtPop\<rparr>, touts) \<and>
    oms_outs touts = trade_outs outs"
proof (cases "\<exists>t. e = AlphaTurn t")
  case True
  then obtain t where e: "e = AlphaTurn t" by blast
  obtain os where t: "alpha_turn q t y = (y', os)" "outs = map TradeOut os"
    using assms e by (auto simp: case_prod_unfold Let_def prod_eq_iff)
  show ?thesis using turn_steps [OF t(1)] t(2) by (auto simp: alpha_steps_def)
next
  case False
  then have "thread_run q \<lparr>th_sys = y, th_alpha = AtPop\<rparr> [Handler e] = (\<lparr>th_sys = y', th_alpha = AtPop\<rparr>, map SessionOut outs)"
    using assms by (cases e) (simp_all add: case_prod_unfold Let_def)
  then show ?thesis by (metis oms_outs_session)
qed

definition does_as :: "quickfix \<Rightarrow> trading_system \<Rightarrow> system_output list \<Rightarrow> trading_system \<Rightarrow> bool" where
  "does_as q y outs y' \<longleftrightarrow> (\<exists>tevs touts. thread_run q \<lparr>th_sys = y, th_alpha = AtPop\<rparr> tevs
     = (\<lparr>th_sys = y', th_alpha = AtPop\<rparr>, touts) \<and> oms_outs touts = trade_outs outs)"

lemma does_as_trans: "does_as q y1 o1 y2 \<Longrightarrow> does_as q y2 o2 y3 \<Longrightarrow> does_as q y1 (o1 @ o2) y3"
  unfolding does_as_def
proof (elim exE conjE)
  fix xs xouts ys youts
  assume "thread_run q \<lparr>th_sys = y1, th_alpha = AtPop\<rparr> xs = (\<lparr>th_sys = y2, th_alpha = AtPop\<rparr>, xouts)"
    "thread_run q \<lparr>th_sys = y2, th_alpha = AtPop\<rparr> ys = (\<lparr>th_sys = y3, th_alpha = AtPop\<rparr>, youts)"
    "oms_outs xouts = trade_outs o1" "oms_outs youts = trade_outs o2"
  then show "\<exists>tevs touts. thread_run q \<lparr>th_sys = y1, th_alpha = AtPop\<rparr> tevs
      = (\<lparr>th_sys = y3, th_alpha = AtPop\<rparr>, touts) \<and> oms_outs touts = trade_outs (o1 @ o2)"
    by (intro exI [of _ "xs @ ys"]) (simp add: thr.run_append)
qed

lemma does_as_refl: "does_as q y [] y"
  unfolding does_as_def by (rule exI [of _ "[]"]) simp

text \<open>Every run of whole turns is one of these interleavings, with the same messages and the same end.\<close>

lemma coarse_run_is_fine: "system_run q y evs = (y', outs) \<Longrightarrow> does_as q y outs y'"
  by (rule sys.run_relates [of "does_as q"])
    (auto intro: does_as_refl does_as_trans coarse_step_is_fine [folded does_as_def])

section \<open>What holds whatever comes in between\<close>

lemma fused_reaches: "oms_reaches q s outs s' \<Longrightarrow> rk_fused (om_risk s) \<Longrightarrow> rk_fused (om_risk s')"
proof -
  assume "oms_reaches q s outs s'" "rk_fused (om_risk s)"
  moreover from this(1) obtain evs where "oms_run q s evs = (s', outs)" by (auto simp: oms_reaches_def)
  moreover from this obtain revs where "DailyReset \<notin> set revs" "om_risk s' = risk_run (om_risk s) revs"
    using oms_run_risk [of s q evs] by (auto simp: legal_history_def)
  ultimately show ?thesis using risk_run_fused by simp
qed

text \<open>The entry orders among some outputs.\<close>

definition is_entry :: "thread_output \<Rightarrow> bool" where
  "is_entry x \<longleftrightarrow> (case x of EntryOut (ToMarket _ _) \<Rightarrow> True | _ \<Rightarrow> False)"

definition entries :: "thread_output list \<Rightarrow> nat" where
  "entries outs = length (filter is_entry outs)"

lemma entries_simps [simp]:
  "entries [] = 0" "entries (xs @ ys) = entries xs + entries ys"
  "entries (map CloseOut os) = 0" "entries (map SessionOut ss) = 0"
  by (simp_all add: entries_def is_entry_def filter_map comp_def)

definition at_send :: "threads \<Rightarrow> bool" where
  "at_send h \<longleftrightarrow> (case th_alpha h of AtSend _ \<Rightarrow> True | _ \<Rightarrow> False)"

text \<open>One step of the alpha thread: what it may send, and when it comes to the entry order.\<close>

lemma send_entries: "send_ioc q net utc sd qty l1 ts s = (s', outs, i) \<Longrightarrow> entries (map EntryOut outs) \<le> 1"
  by (auto simp: send_ioc_def next_clordid_def entries_def is_entry_def Let_def split: if_splits send_result.splits)

lemma alpha_step_entries:
  assumes "alpha_step q t h = (h', outs)"
  shows "entries outs \<le> (if at_send h then 1 else 0) \<and>
    (at_send h' \<longrightarrow> \<not> at_send h \<and> sy_oms (th_sys h') = sy_oms (th_sys h) \<and>
       (\<exists>sig now. check_signal (om_risk (sy_oms (th_sys h))) sig now))"
proof (cases "th_alpha h")
  case AtPop
  then show ?thesis using assms
    by (auto simp: alpha_step_def pop_step_def at_send_def split: option.splits prod.splits)
next
  case (AtSignal ev now)
  then show ?thesis using assms
    by (auto simp: alpha_step_def signal_step_def at_send_def case_prod_unfold Let_def split: if_splits)
next
  case (AtSend now)
  let ?sig = "se_last_signal (sy_signals (th_sys h))"
  obtain s os i where "send_ioc q (tn_entry_net t) (tn_entry_utc t)
      (if sig_direction ?sig = DirBuy then Buy else Sell) 1 (sig_l1_price ?sig) now (sy_oms (th_sys h)) = (s, os, i)"
    by (metis prod_cases3)
  then show ?thesis using AtSend assms send_entries by (auto simp: alpha_step_def send_step_def at_send_def Let_def)
qed (use assms in \<open>auto simp: alpha_step_def cancel_step_def close_step_def at_send_def case_prod_unfold Let_def
       split: option.splits if_splits\<close>)

lemma fused_step:
  assumes "thread_step q h e = (h', outs)" "rk_fused (om_risk (sy_oms (th_sys h)))"
  shows "rk_fused (om_risk (sy_oms (th_sys h'))) \<and>
    entries outs + (if at_send h' then 1 else 0) \<le> (if at_send h then 1 else 0)"
proof (cases e)
  case (AlphaStep t)
  then have "alpha_step q t h = (h', outs)" using assms(1) by simp
  then have "entries outs \<le> (if at_send h then 1 else 0)" "\<not> at_send h'"
    using alpha_step_entries [of q t h h' outs] assms(2) by (auto simp: check_signal_def)
  then show ?thesis using fused_reaches [OF thread_step_reaches [OF assms(1)] assms(2)] by simp
next
  case (Handler x)
  from assms(1) [unfolded this] show ?thesis
  proof (cases rule: handler_step)
    case (handled y os)
    then show ?thesis using fused_reaches [OF thread_step_reaches [OF assms(1)] assms(2)] by (simp add: at_send_def)
  qed (use assms(2) in simp)
qed

text \<open>
  C12: Once the daily-loss fuse has tripped, whatever the alpha thread is doing at that moment
  and however the threads interleave afterwards, it sends at most one more entry order,
  and that one only if it had already asked the risk manager; and the fuse stays tripped.
\<close>

theorem fuse_stops_entries:
  assumes "rk_fused (om_risk (sy_oms (th_sys h)))" and "thread_run q h evs = (h', outs)"
  shows "entries outs \<le> (if at_send h then 1 else 0) \<and> rk_fused (om_risk (sy_oms (th_sys h')))"
proof -
  let ?left = "\<lambda>h. (if at_send h then 1 else 0) :: nat" and ?fused = "\<lambda>h. rk_fused (om_risk (sy_oms (th_sys h)))"
  have "?fused h \<longrightarrow> ?fused h' \<and> entries outs + ?left h' \<le> ?left h"
    by (rule thr.run_relates [of "\<lambda>h outs h'. ?fused h \<longrightarrow> ?fused h' \<and> entries outs + ?left h' \<le> ?left h", OF _ _ _ assms(2)])
      (use fused_step in force)+
  then have "?fused h'" "entries outs + ?left h' \<le> ?left h" using assms(1) by blast+
  then show ?thesis by linarith
qed

lemma handler_idle:
  assumes "system_step q y e = (y', outs)" "\<And>t. e \<noteq> AlphaTurn t" "\<not> rk_has_position (om_risk (sy_oms y))"
  shows "\<not> rk_has_position (om_risk (sy_oms y'))"
proof (cases e)
  case (TradeMessage m now)
  show ?thesis
    by (rule fromApp_cases [of q m now "sy_oms y"])
      (use TradeMessage assms(1,3) apply_fill_idle apply_reject_idle in fastforce)+
qed (use assms in \<open>auto simp: oms_onLogon_def oms_onLogout_def case_prod_unfold Let_def\<close>)

text \<open>Before the entry order no order is in flight, whatever came since the check.\<close>

definition send_idle :: "threads \<Rightarrow> bool" where
  "send_idle h \<longleftrightarrow> (at_send h \<longrightarrow> \<not> rk_has_position (om_risk (sy_oms (th_sys h))))"

lemma send_idle_step: "thread_step q h e = (h', outs) \<Longrightarrow> send_idle h \<Longrightarrow> send_idle h'"
proof (cases e)
  case (AlphaStep t)
  show "thread_step q h e = (h', outs) \<Longrightarrow> send_idle h \<Longrightarrow> send_idle h'"
    using alpha_step_entries [of q t h h' outs] AlphaStep by (auto simp: send_idle_def check_signal_def split: if_splits)
next
  case (Handler x)
  show "thread_step q h e = (h', outs) \<Longrightarrow> send_idle h \<Longrightarrow> send_idle h'"
    unfolding Handler
    by (erule handler_step) (use handler_idle in \<open>auto simp: send_idle_def at_send_def\<close>)
qed

lemma send_idle_run: "thread_run q h evs = (h', outs) \<Longrightarrow> send_idle h \<Longrightarrow> send_idle h'"
  by (rule thr.run_invariant) (auto intro: send_idle_step)

text \<open>
  C11: However finely the threads interleave, an entry order leaves only while the risk manager
  holds no order, is an order of quantity 1 with a fresh id, and becomes the order the gate is held
  closed for.  (The gate opens again on the first fill, a partial one included, so the rest of an
  order may still be open at the market by then.)
\<close>

theorem one_entry_in_flight:
  assumes "thread_run q \<lparr>th_sys = y, th_alpha = AtPop\<rparr> evs = (h, outs0)"
    and "thread_step q h e = (h', outs)" and "EntryOut (ToMarket m sid) \<in> set outs"
  shows "let s = sy_oms (th_sys h); s' = sy_oms (th_sys h'); i = clordid_of (om_order_seq s)
    in \<not> rk_has_position (om_risk s) \<and> rk_has_position (om_risk s') \<and> outs = [EntryOut (ToMarket m sid)] \<and>
       msg_header m 35 = Some ''D'' \<and> msg_body m 11 = Some i \<and>
       msg_body m 38 = Some (qf_of_double q (f64_of_int 1)) \<and>
       ord_clordid (rk_open_order (om_risk s')) = i \<and> om_order_seq s' = om_order_seq s + 1"
proof -
  have idle: "send_idle h"
    by (rule send_idle_run [OF assms(1)]) (simp add: send_idle_def at_send_def)
  have "is_entry (EntryOut (ToMarket m sid))" by (simp add: is_entry_def)
  then have entry: "entries outs > 0" using assms(3) unfolding entries_def length_greater_0_conv filter_empty_conv by blast
  have "\<not> 0 < entries outs" if "e = Handler x" for x
    using assms(2) [unfolded that] by (cases rule: handler_step) simp_all
  then obtain t where e: "e = AlphaStep t" using entry by (cases e) auto
  have at: "at_send h" using alpha_step_entries [of q t h h' outs] assms(2) entry e by (auto split: if_splits)
  then obtain now where pc: "th_alpha h = AtSend now" by (auto simp: at_send_def split: alpha_pc.splits)
  let ?s = "sy_oms (th_sys h)" and ?sig = "se_last_signal (sy_signals (th_sys h))"
  let ?sd = "if sig_direction ?sig = DirBuy then Buy else Sell"
  obtain s2 os i where send: "send_ioc q (tn_entry_net t) (tn_entry_utc t) ?sd 1 (sig_l1_price ?sig) now ?s = (s2, os, i)"
    by (metis prod_cases3)
  have res: "outs = map EntryOut os" "sy_oms (th_sys h') = s2"
    using send pc e assms(2) by (auto simp: alpha_step_def send_step_def)
  then have "ToMarket m sid \<in> set os" using assms(3) by auto
  from send_ioc_outs [OF send this] have "os = [ToMarket m sid]"
    "m = new_order_single q (tn_entry_utc t) (clordid_of (om_order_seq ?s)) ?sd 1" "rk_has_position (om_risk s2)"
    "rk_open_order (om_risk s2) = sent_order (clordid_of (om_order_seq ?s)) ?sd 1 (sig_l1_price ?sig) now"
    by blast+
  moreover have "om_order_seq s2 = om_order_seq ?s + 1"
    using send \<open>os = [ToMarket m sid]\<close>
    by (auto simp: send_ioc_def next_clordid_def Let_def split: if_splits send_result.splits)
  ultimately show ?thesis
    using idle at res by (simp add: send_idle_def new_order_single_def fix_building Let_def)
qed

section \<open>What does not hold\<close>

text \<open>
  C33: The risk check and the entry order are two steps: when a report that trips the daily-loss
  fuse is handled between them (one for an earlier order, still open after a partial fill),
  the entry order is sent all the same, with the fuse tripped.
\<close>

theorem fuse_trips_too_late:
  assumes "th_alpha h = AtCheck now" and "om_logged_on (sy_oms (th_sys h))"
    and "check_signal (om_risk (sy_oms (th_sys h))) (se_last_signal (sy_signals (th_sys h))) now"
    and "om_open_orders (sy_oms (th_sys h)) i = Some ord" and "report_for q m i et px" and "et \<in> {CHR ''1'', CHR ''2''}"
    and "rk_fused (on_fill (om_risk (sy_oms (th_sys h))) (ord\<lparr>ord_fill_price := to_price px, ord_fill_ts_ns := ts,
           ord_status := (if et = CHR ''2'' then Filled else Pending)\<rparr>) ts)"
    and "tn_entry_net t = SendQueued b"
  shows "let (h', outs) = thread_run q h [AlphaStep t, Handler (TradeMessage m ts), AlphaStep t]
    in rk_fused (om_risk (sy_oms (th_sys h'))) \<and> entries outs = 1 \<and> rk_has_position (om_risk (sy_oms (th_sys h')))"
proof -
  have "rk_fused (om_risk (fst (apply_fill i et px ts ord (sy_oms (th_sys h)))))"
    using assms(7) by (simp add: apply_fill_def Let_def split: if_splits)
  then obtain s os where f: "oms_fromApp q m ts (sy_oms (th_sys h)) = (s, os, None)" "rk_fused (om_risk s)"
      "om_logged_on s"
    using fromApp_report [OF assms(5,4), of ts] assms(2,6) by (auto simp: apply_fill_def Let_def split: if_splits)
  show ?thesis
    using assms(1-3,8) f
    by (simp add: alpha_step_def send_step_def send_ioc_def next_clordid_def on_order_sent_def sent_order_def
        entries_def is_entry_def Let_def case_prod_unfold filter_map comp_def)
qed

text \<open>
  The position timeout is only looked at after an event was popped.  A feed that falls silent
  leaves the thread before \<open>pop\<close>.
\<close>

definition trade_side :: "thread_event \<Rightarrow> bool" where
  "trade_side e \<longleftrightarrow> (case e of AlphaStep _ \<Rightarrow> True
     | Handler (TradeLogon _) \<Rightarrow> True | Handler TradeLogout \<Rightarrow> True | Handler (TradeMessage _ _) \<Rightarrow> True | _ \<Rightarrow> False)"

definition starved :: "threads \<Rightarrow> bool" where
  "starved h \<longleftrightarrow> th_alpha h = AtPop \<and> (\<exists>queue. gw_queue (sy_gateway (th_sys h)) = Some queue \<and> spsc_empty queue)"

lemma message_sends_nothing: "oms_fromApp q m now s = (s', outs, err) \<Longrightarrow> ToMarket x sid \<notin> set outs"
  by (rule fromApp_cases [of q m now s])
    (auto simp: apply_fill_def apply_reject_def Let_def split: if_splits)

lemma starved_step:
  assumes "starved h" "trade_side e" "thread_step q h e = (h', outs)"
  shows "starved h' \<and> no_orders (oms_outs outs)"
proof (cases e)
  case (AlphaStep t)
  then show ?thesis using assms
    by (auto simp: starved_def alpha_step_def pop_step_def spsc_pop_def spsc_empty_def no_orders_def Let_def)
next
  case (Handler x)
  show ?thesis
  proof (cases x)
    case (TradeMessage m now)
    obtain s os err where r: "oms_fromApp q m now (sy_oms (th_sys h)) = (s, os, err)" by (metis prod_cases3)
    then have "h' = h\<lparr>th_sys := (th_sys h)\<lparr>sy_oms := s\<rparr>\<rparr>" "oms_outs outs = os"
      using assms(3) Handler TradeMessage by (auto simp: oms_outs_def comp_def)
    then show ?thesis using assms(1) message_sends_nothing [OF r] by (simp add: starved_def no_orders_def)
  qed (use assms Handler in \<open>auto simp: trade_side_def starved_def no_orders_def\<close>)
qed

text \<open>
  C32: While no market data comes in, the position timeout never strikes: with an empty queue the
  alpha thread sends nothing at all, neither a cancel nor a closing order, whatever the clock
  says and whatever the trade session brings.
\<close>

theorem silent_feed_disables_timeout:
  assumes "th_alpha h = AtPop" and "gw_queue (sy_gateway (th_sys h)) = Some queue" and "spsc_empty queue"
    and "\<forall>e \<in> set evs. trade_side e" and "thread_run q h evs = (h', outs)"
  shows "th_alpha h' = AtPop \<and> (\<forall>m sid. ToMarket m sid \<notin> set (oms_outs outs))"
proof -
  have "starved h" using assms(1-3) by (simp add: starved_def)
  moreover have "starved h \<longrightarrow> starved h' \<and> no_orders (oms_outs outs)"
    by (rule thr.run_relates [of "\<lambda>h outs h'. starved h \<longrightarrow> starved h' \<and> no_orders (oms_outs outs)", OF _ _ _ assms(5)])
      (use starved_step assms(4) in \<open>force simp: no_orders_def\<close>)+
  ultimately have "starved h'" "no_orders (oms_outs outs)" by blast+
  then show ?thesis by (simp add: starved_def no_orders_def)
qed

section \<open>Witnesses\<close>

theorem fuse_stops_entries_witness:
  "entries (snd (thread_run sample_quickfix \<lparr>th_sys = sample_system\<lparr>sy_oms := fused_oms\<rparr>, th_alpha = AtSend 6000\<rparr>
     [AlphaStep sample_turn, Handler (TradeLogon ''TRADE''), AlphaStep late_turn, AlphaStep late_turn])) \<le> 1"
proof -
  have "rk_fused (om_risk (sy_oms (th_sys \<lparr>th_sys = sample_system\<lparr>sy_oms := fused_oms\<rparr>, th_alpha = AtSend 6000\<rparr>)))"
    by (simp add: fused_oms_def)
  from fuse_stops_entries [OF this prod.collapse [symmetric]] show ?thesis
    by (simp add: at_send_def del: thread_run.simps)
qed

theorem one_entry_in_flight_witness:
  "\<exists>h outs0 h' m sid. thread_run sample_quickfix \<lparr>th_sys = sample_system, th_alpha = AtPop\<rparr>
       (replicate 4 (AlphaStep sample_turn)) = (h, outs0) \<and>
     alpha_step sample_quickfix sample_turn h = (h', [EntryOut (ToMarket m sid)]) \<and>
     msg_header m 35 = Some ''D'' \<and> rk_has_position (om_risk (sy_oms (th_sys h')))"
proof -
  obtain queue' where pop: "spsc_pop kMdQueueCapacity sample_queue = (queue', Some collapse)"
    by (rule sample_queue_pop)
  obtain e where e: "signal_on_event sample_engine collapse book_empty = (e, True)" using sample_fires by blast
  let ?h = "\<lparr>th_sys = sample_system\<lparr>sy_gateway := (sy_gateway sample_system)\<lparr>gw_queue := Some queue'\<rparr>,
      sy_signals := e\<rparr>, th_alpha = AtSend 9000000000\<rparr>"
  have run: "thread_run sample_quickfix \<lparr>th_sys = sample_system, th_alpha = AtPop\<rparr>
      (replicate 4 (AlphaStep sample_turn)) = (?h, [])"
    using pop e sample_system_parts
    by (simp add: eval_nat_numeral alpha_step_def pop_step_def signal_step_def sample_turn_def)
  obtain h' m sid where step: "alpha_step sample_quickfix sample_turn ?h = (h', [EntryOut (ToMarket m sid)])"
    using sample_system_parts(4)
    by (simp add: alpha_step_def send_step_def send_ioc_def next_clordid_def sample_turn_def Let_def)
  have "thread_step sample_quickfix ?h (AlphaStep sample_turn) = (h', [EntryOut (ToMarket m sid)])" using step by simp
  from one_entry_in_flight [OF run this, of m sid] show ?thesis using run step by (auto simp: Let_def)
qed

text \<open>An order partly filled, a loss of 50 dollars on the books, the gate open.\<close>

definition near_limit_oms :: oms where
  "near_limit_oms = sample_oms\<lparr>om_risk := (risk_init default_config)\<lparr>rk_daily_pnl := Fin (- 50)\<rparr>\<rparr>"

theorem fuse_trips_too_late_witness:
  "let (h', outs) = thread_run sample_quickfix \<lparr>th_sys = sample_system\<lparr>sy_oms := near_limit_oms\<rparr>, th_alpha = AtCheck 6000\<rparr>
       [AlphaStep sample_turn, Handler (TradeMessage (sample_report (clordid_of 1) ''1'') 5000), AlphaStep sample_turn]
   in rk_fused (om_risk (sy_oms (th_sys h'))) \<and> entries outs = 1"
proof -
  have rep: "report_for sample_quickfix (sample_report (clordid_of 1) ''1'') (clordid_of 1) (CHR ''1'') (Fin 2002)"
    using sample_report_for [of "''1''" "clordid_of 1"] by simp
  let ?o = "sent_order (clordid_of 1) Buy 1 200000 1000"
  have slip: "slippage_ticks (?o\<lparr>ord_fill_price := 200200, ord_fill_ts_ns := 5000, ord_status := Pending\<rparr>) = Fin 2"
    by (simp add: slippage_ticks_def sent_order_def order_default_def kPriceScale_def round64_literal)
  have "rk_fused (on_fill (om_risk near_limit_oms)
      (?o\<lparr>ord_fill_price := to_price (Fin 2002), ord_fill_ts_ns := 5000, ord_status := Pending\<rparr>) 5000)"
    using slip by (simp add: sample_fill_price on_fill_specs near_limit_oms_def risk_init_def default_config_def
        round64_literal)
  then show ?thesis
    using fuse_trips_too_late [OF _ _ _ _ rep, of "\<lparr>th_sys = sample_system\<lparr>sy_oms := near_limit_oms\<rparr>, th_alpha = AtCheck 6000\<rparr>"
        6000 ?o 5000 sample_turn True]
    by (simp add: near_limit_oms_def sample_oms_open check_signal_def in_cooldown_def risk_init_def sample_turn_def
        case_prod_unfold Let_def del: thread_run.simps)
qed

text \<open>An order sent at 1000 ns and unanswered ten seconds later, and a queue that stays empty.\<close>

theorem silent_feed_disables_timeout_witness:
  "on_timer (om_risk sample_oms) (tn_now_ns sample_turn) \<noteq> None \<and>
   (\<forall>m sid. ToMarket m sid \<notin> set (oms_outs (snd (thread_run sample_quickfix
     \<lparr>th_sys = (system_init None sample_cells)\<lparr>sy_oms := sample_oms\<rparr>, th_alpha = AtPop\<rparr>
     [AlphaStep sample_turn, Handler TradeLogout, Handler (TradeLogon ''TRADE''), AlphaStep sample_turn]))))"
proof -
  have "on_timer (om_risk sample_oms) (tn_now_ns sample_turn) \<noteq> None"
    by (simp add: on_timer_def sample_oms_open on_order_sent_def risk_init_def default_config_def sample_turn_def)
  then show ?thesis
    using silent_feed_disables_timeout [of "\<lparr>th_sys = (system_init None sample_cells)\<lparr>sy_oms := sample_oms\<rparr>, th_alpha = AtPop\<rparr>"
        "spsc_init sample_cells" "[AlphaStep sample_turn, Handler TradeLogout, Handler (TradeLogon ''TRADE''), AlphaStep sample_turn]",
        OF _ _ _ _ prod.collapse [symmetric]]
    by (simp add: system_init_def gateway_new_def trade_side_def spsc_empty_def spsc_init_def del: thread_run.simps)
qed

end
