(* ===== verification/App_Main.thy ===== *)
theory App_Main
  imports Decimal
begin

text \<open>
  What the \<open>main\<close> functions under \<open>apps/\<close> have in common: how a program ends, numbers on the
  command line (\<open>std::stoi\<close>), and the name of the log file.  An exception that no handler
  catches and the destruction of a thread that may still run both end in \<open>std::terminate\<close>.
\<close>

datatype exit_status = ExitSuccess | ExitFailure | Terminated

section \<open>Numbers on the command line\<close>

text \<open>
  \<open>std::stoi\<close>: white space, a sign, the longest run of digits.  No digit is the exception
  \<open>std::invalid_argument\<close>, a value outside \<open>int\<close> is \<open>std::out_of_range\<close>; both are \<open>None\<close>.
\<close>

definition stoi :: "string \<Rightarrow> int option" where
  "stoi s0 =
     (let s = dropWhile is_space s0;
          neg = (s \<noteq> [] \<and> hd s = CHR ''-'');
          body = (if s \<noteq> [] \<and> (hd s = CHR ''-'' \<or> hd s = CHR ''+'') then tl s else s);
          ds = takeWhile is_digit body;
          v = (if neg then - int (digits_value ds) else int (digits_value ds))
      in if ds = [] \<or> v < - (2 ^ 31) \<or> 2 ^ 31 \<le> v then None else Some v)"

lemma stoi_decimal: "n < 2 ^ 31 \<Longrightarrow> stoi (decimal n) = Some (int n)"
proof -
  assume n: "n < 2 ^ 31"
  obtain c cs where d: "decimal n = c # cs" by (cases "decimal n") auto
  then have c: "is_digit c" using decimal_digits [of n] by simp
  then have hd: "\<not> is_space c" "c \<noteq> CHR ''-''" "c \<noteq> CHR ''+''"
    by (auto simp: is_digit_def is_space_def)
  have "takeWhile is_digit (decimal n) = decimal n"
    using decimal_digits [of n] by (simp add: list_all_iff takeWhile_eq_all_conv)
  moreover have "int n < 2 ^ 31" using n by simp
  ultimately show ?thesis using hd by (simp add: stoi_def Let_def d) (metis d digits_value_decimal linorder_not_le)
qed

text \<open>Text whose first character is neither white space, sign nor digit is no number.\<close>

lemma stoi_not_number: "\<not> is_space c \<Longrightarrow> \<not> is_digit c \<Longrightarrow> c \<noteq> CHR ''-'' \<Longrightarrow> c \<noteq> CHR ''+'' \<Longrightarrow> stoi (c # s) = None"
  by (simp add: stoi_def Let_def)

section \<open>The name of the log\<close>

definition loblog_path :: "string \<Rightarrow> u64 \<Rightarrow> string" where
  "loblog_path dir now_ns = dir @ ''/xauusd_'' @ decimal (unat (now_ns div 1000000000)) @ ''.loblog''"

text \<open>Two programs started in one second in one directory write the same file.\<close>

lemma loblog_path_eq: "loblog_path dir m = loblog_path dir n \<longleftrightarrow> m div 1000000000 = n div 1000000000"
  by (auto simp: loblog_path_def word_unat_eq_iff)

end
