(* ===== verification/Engine_Main.thy ===== *)
theory Engine_Main
  imports Engine_Threads App_Main
begin

text \<open>
  The \<open>main\<close> function of \<open>apps/engine/main.cpp\<close>: its command line, its startup, the
  housekeeping loop, the signal handler, the shutdown and the ways it can fail, together with
  the alpha thread and the FIX threads it starts.  Opening a log, building a gateway and
  starting a session may throw: which of them do is a parameter.
\<close>

section \<open>Command line\<close>

record engine_config =
  ec_md_cfg :: string
  ec_trade_cfg :: string
  ec_log_dir :: string
  ec_alpha_core :: int

text \<open>The configuration, or how the program ends; numbers are read outside the \<open>try\<close> block.\<close>

definition engine_args :: "string list \<Rightarrow> exit_status + engine_config" where
  "engine_args argv =
     (if length argv < 3 then Inl ExitFailure
      else (case (if 5 \<le> length argv then stoi (argv ! 4) else Some 2) of
          None \<Rightarrow> Inl Terminated
        | Some alpha_core \<Rightarrow>
            (case (if 6 \<le> length argv then stoi (argv ! 5) else Some 3) of
               None \<Rightarrow> Inl Terminated
             | Some _ \<Rightarrow> Inr \<lparr> ec_md_cfg = argv ! 1, ec_trade_cfg = argv ! 2,
                  ec_log_dir = (if 4 \<le> length argv then argv ! 3 else ''./logs''), ec_alpha_core = alpha_core \<rparr>)))"

section \<open>State\<close>

text \<open>The steps of the \<open>try\<close> block that may throw, in order; then the loop and the shutdown.\<close>

datatype startup =
    CalibrateClock
  | CreateLogDir
  | OpenLog
  | BuildOrderManager
  | BuildGateway
  | StartOrderManager
  | SpawnAlpha
  | StartGateway

datatype main_pc =
    Starting startup
  | AtLoop
  | Sleeping
  | StoppingGateway
  | StoppingOrderManager
  | Joining
  | LastFlush
  | Exited exit_status

text \<open>The alpha thread: no thread, running (joinable), returned (joinable still), joined.\<close>

datatype alpha_life = NoThread | Spinning | Returned | Joined

record engine_process =
  ep_threads :: threads
  ep_main :: main_pc
  ep_running :: bool
  ep_alpha :: alpha_life
  ep_trade_up :: bool
  ep_feed_up :: bool

datatype process_output =
    Trading thread_output
  | LogFlushed
  | Housekeeping f64 u64 bool
  | SessionsStopped

definition process_init :: "lob_event list \<Rightarrow> dictionary option \<Rightarrow> string list \<Rightarrow> engine_process" where
  "process_init buf md_settings argv =
     \<lparr> ep_threads = \<lparr>th_sys = system_init md_settings buf, th_alpha = AtPop\<rparr>,
       ep_main = (case engine_args argv of Inl st \<Rightarrow> Exited st | Inr _ \<Rightarrow> Starting CalibrateClock),
       ep_running = True, ep_alpha = NoThread, ep_trade_up = False, ep_feed_up = False \<rparr>"

section \<open>Steps\<close>

fun after_startup :: "startup \<Rightarrow> main_pc" where
  "after_startup CalibrateClock = Starting CreateLogDir"
| "after_startup CreateLogDir = Starting OpenLog"
| "after_startup OpenLog = Starting BuildOrderManager"
| "after_startup BuildOrderManager = Starting BuildGateway"
| "after_startup BuildGateway = Starting StartOrderManager"
| "after_startup StartOrderManager = Starting SpawnAlpha"
| "after_startup SpawnAlpha = Starting StartGateway"
| "after_startup StartGateway = AtLoop"

text \<open>
  An exception leaves the \<open>try\<close> block: the objects are destroyed in reverse order, the thread
  object first, and only then the gateway and the order manager, whose destructors stop
  their sessions.
\<close>

definition unwind :: "engine_process \<Rightarrow> engine_process \<times> process_output list" where
  "unwind p =
     (if ep_alpha p = Spinning \<or> ep_alpha p = Returned then (p\<lparr>ep_main := Exited Terminated\<rparr>, [])
      else (p\<lparr>ep_main := Exited ExitFailure, ep_feed_up := False, ep_trade_up := False\<rparr>, [SessionsStopped]))"

definition startup_step :: "startup \<Rightarrow> engine_process \<Rightarrow> engine_process" where
  "startup_step st p =
     (let p = p\<lparr>ep_main := after_startup st\<rparr>
      in case st of
           StartOrderManager \<Rightarrow> p\<lparr>ep_trade_up := True\<rparr>
         | SpawnAlpha \<Rightarrow> p\<lparr>ep_alpha := Spinning\<rparr>
         | StartGateway \<Rightarrow> p\<lparr>ep_feed_up := True\<rparr>
         | _ \<Rightarrow> p)"

definition housekeeping :: "engine_process \<Rightarrow> process_output list" where
  "housekeeping p =
     (let r = om_risk (sy_oms (th_sys (ep_threads p)))
      in [LogFlushed, Housekeeping (rk_daily_pnl r) (rk_total_trades r) (rk_fused r)])"

definition main_step :: "(startup \<Rightarrow> bool) \<Rightarrow> engine_process \<Rightarrow> engine_process \<times> process_output list" where
  "main_step throws p =
     (case ep_main p of
        Starting st \<Rightarrow> if throws st then unwind p else (startup_step st p, [])
      | AtLoop \<Rightarrow> (p\<lparr>ep_main := (if ep_running p then Sleeping else StoppingGateway)\<rparr>, [])
      | Sleeping \<Rightarrow> (p\<lparr>ep_main := AtLoop\<rparr>, housekeeping p)
      | StoppingGateway \<Rightarrow> (p\<lparr>ep_main := StoppingOrderManager, ep_feed_up := False\<rparr>, [])
      | StoppingOrderManager \<Rightarrow> (p\<lparr>ep_main := Joining, ep_trade_up := False\<rparr>, [SessionsStopped])
      | Joining \<Rightarrow> if ep_alpha p = Returned then (p\<lparr>ep_main := LastFlush, ep_alpha := Joined\<rparr>, []) else (p, [])
      | LastFlush \<Rightarrow> (p\<lparr>ep_main := Exited ExitSuccess\<rparr>, [LogFlushed])
      | Exited _ \<Rightarrow> (p, []))"

text \<open>The loop test of the alpha thread stands before its \<open>pop\<close>.\<close>

definition alpha_thread_step :: "quickfix \<Rightarrow> turn \<Rightarrow> engine_process \<Rightarrow> engine_process \<times> process_output list" where
  "alpha_thread_step q t p =
     (if ep_alpha p \<noteq> Spinning then (p, [])
      else if th_alpha (ep_threads p) = AtPop \<and> \<not> ep_running p then (p\<lparr>ep_alpha := Returned\<rparr>, [])
      else (let (h, outs) = alpha_step q t (ep_threads p) in (p\<lparr>ep_threads := h\<rparr>, map Trading outs)))"

datatype process_event =
    MainStep
  | AlphaThread turn
  | Session system_event
  | Interrupt

text \<open>Which sessions call back: those that are started.\<close>

definition session_up :: "engine_process \<Rightarrow> system_event \<Rightarrow> bool" where
  "session_up p e \<longleftrightarrow> (case e of
     AlphaTurn _ \<Rightarrow> False
   | TradeLogon _ \<Rightarrow> ep_trade_up p | TradeLogout \<Rightarrow> ep_trade_up p | TradeMessage _ _ \<Rightarrow> ep_trade_up p
   | _ \<Rightarrow> ep_feed_up p)"

definition process_step ::
  "quickfix \<Rightarrow> (startup \<Rightarrow> bool) \<Rightarrow> engine_process \<Rightarrow> process_event \<Rightarrow> engine_process \<times> process_output list" where
  "process_step q throws p e =
     (case ep_main p of
        Exited _ \<Rightarrow> (p, [])
      | _ \<Rightarrow>
        (case e of
           MainStep \<Rightarrow> main_step throws p
         | AlphaThread t \<Rightarrow> alpha_thread_step q t p
         | Session x \<Rightarrow>
             (if session_up p x
              then (let (h, outs) = thread_step q (ep_threads p) (Handler x) in (p\<lparr>ep_threads := h\<rparr>, map Trading outs))
              else (p, []))
         | Interrupt \<Rightarrow> (p\<lparr>ep_running := False\<rparr>, [])))"

fun process_run ::
  "quickfix \<Rightarrow> (startup \<Rightarrow> bool) \<Rightarrow> engine_process \<Rightarrow> process_event list \<Rightarrow> engine_process \<times> process_output list" where
  "process_run q throws p [] = (p, [])"
| "process_run q throws p (e # evs) =
     (let (p1, outs1) = process_step q throws p e; (p2, outs2) = process_run q throws p1 evs in (p2, outs1 @ outs2))"

section \<open>The threads of the process\<close>

text \<open>What the alpha thread and the sessions put out.\<close>

definition tradings :: "process_output list \<Rightarrow> thread_output list" where
  "tradings outs = concat (map (\<lambda>x. case x of Trading y \<Rightarrow> [y] | _ \<Rightarrow> []) outs)"

lemma tradings_simps [simp]:
  "tradings [] = []" "tradings (xs @ ys) = tradings xs @ tradings ys" "tradings (map Trading ts) = ts"
  "tradings [LogFlushed] = []" "tradings [SessionsStopped] = []" "tradings (housekeeping p) = []"
  by (simp_all add: tradings_def comp_def housekeeping_def Let_def)

abbreviation threads_reach :: "quickfix \<Rightarrow> threads \<Rightarrow> thread_output list \<Rightarrow> threads \<Rightarrow> bool" where
  "threads_reach q \<equiv> machine.reaches (thread_run q)"

lemmas threads_reach_def = thr.reaches_def
lemmas threads_reach_refl [simp] = thr.reaches_refl
lemmas threads_reach_step = thr.reaches_step
lemmas threads_reach_trans = thr.reaches_trans

interpretation prc: machine "process_step q throws" "process_run q throws"
  by unfold_locales simp_all

lemma startup_step_fields [simp]:
  "ep_threads (startup_step st p) = ep_threads p" "ep_running (startup_step st p) = ep_running p"
  "ep_main (startup_step st p) = after_startup st"
  by (cases st; simp add: startup_step_def)+

lemma unwind_fields [simp]:
  "ep_threads (fst (unwind p)) = ep_threads p" "ep_running (fst (unwind p)) = ep_running p"
  "tradings (snd (unwind p)) = []"
  by (simp_all add: unwind_def)

text \<open>The main thread keeps off the threads' state, and only a signal changes the flag.\<close>

lemma main_step_fields [simp]:
  "ep_threads (fst (main_step throws p)) = ep_threads p" "ep_running (fst (main_step throws p)) = ep_running p"
  "tradings (snd (main_step throws p)) = []"
  by (auto simp: main_step_def split: main_pc.split)

lemma process_step_reaches:
  assumes "process_step q throws p e = (p', outs)"
  shows "threads_reach q (ep_threads p) (tradings outs) (ep_threads p')"
proof (cases "\<exists>st. ep_main p = Exited st")
  case True
  then show ?thesis using assms by (auto simp: process_step_def)
next
  case live: False
  show ?thesis
  proof (cases e)
    case MainStep
    then have "p' = fst (main_step throws p)" "outs = snd (main_step throws p)"
      using assms live by (auto simp: process_step_def split: main_pc.splits)
    then show ?thesis by simp
  next
    case (AlphaThread t)
    then have "alpha_thread_step q t p = (p', outs)" using assms live by (auto simp: process_step_def split: main_pc.splits)
    then show ?thesis using threads_reach_step [of q "ep_threads p" "AlphaStep t"]
      by (auto simp: alpha_thread_step_def case_prod_unfold Let_def split: if_splits)
  next
    case (Session x)
    then show ?thesis using assms live threads_reach_step [of q "ep_threads p" "Handler x"]
      by (auto simp: process_step_def case_prod_unfold Let_def split: main_pc.splits if_splits)
  next
    case Interrupt
    then show ?thesis using assms live by (auto simp: process_step_def split: main_pc.splits)
  qed
qed

lemma process_run_reaches:
  "process_run q throws p evs = (p', outs) \<Longrightarrow> threads_reach q (ep_threads p) (tradings outs) (ep_threads p')"
  by (rule prc.run_relates [of "\<lambda>p outs p'. threads_reach q (ep_threads p) (tradings outs) (ep_threads p')"])
    (auto intro: threads_reach_trans process_step_reaches)

section \<open>A failing startup\<close>

definition live :: "engine_process \<Rightarrow> bool" where
  "live p \<longleftrightarrow> (\<forall>st. ep_main p \<noteq> Exited st)"

text \<open>How many steps of the startup come before this one.\<close>

fun startup_index :: "startup \<Rightarrow> nat" where
  "startup_index CalibrateClock = 0"
| "startup_index CreateLogDir = 1"
| "startup_index OpenLog = 2"
| "startup_index BuildOrderManager = 3"
| "startup_index BuildGateway = 4"
| "startup_index StartOrderManager = 5"
| "startup_index SpawnAlpha = 6"
| "startup_index StartGateway = 7"

lemma startup_index_le: "startup_index st \<le> 7"
  by (cases st) simp_all

lemma startup_index_inj: "startup_index st = startup_index st' \<Longrightarrow> st = st'"
  by (cases st; cases st') simp_all

definition joinable :: "engine_process \<Rightarrow> bool" where
  "joinable p \<longleftrightarrow> ep_alpha p = Spinning \<or> ep_alpha p = Returned"

text \<open>Where the main thread is on its way to a step that throws, and what it has started.\<close>

definition heading_for :: "startup \<Rightarrow> engine_process \<Rightarrow> nat \<Rightarrow> bool" where
  "heading_for bad p n \<longleftrightarrow>
     (case ep_main p of
        Starting st \<Rightarrow> startup_index st = n \<and> n \<le> startup_index bad \<and>
          (joinable p \<longleftrightarrow> 6 < n) \<and> (ep_trade_up p \<longleftrightarrow> 5 < n) \<and> \<not> ep_feed_up p
      | Exited st \<Rightarrow> startup_index bad < n \<and>
          st = (if bad = StartGateway then Terminated else ExitFailure) \<and>
          (ep_trade_up p \<longleftrightarrow> bad = StartGateway) \<and> \<not> ep_feed_up p
      | _ \<Rightarrow> False)"

definition count_main :: "process_event list \<Rightarrow> nat" where
  "count_main evs = length (filter (\<lambda>e. e = MainStep) evs)"

lemma count_main_simps [simp]:
  "count_main [] = 0" "count_main (MainStep # evs) = Suc (count_main evs)"
  "e \<noteq> MainStep \<Longrightarrow> count_main (e # evs) = count_main evs"
  by (simp_all add: count_main_def)

lemma alpha_thread_step_fields:
  "alpha_thread_step q t p = (p', outs) \<Longrightarrow> ep_main p' = ep_main p \<and> ep_running p' = ep_running p \<and>
     ep_trade_up p' = ep_trade_up p \<and> ep_feed_up p' = ep_feed_up p \<and> (joinable p' \<longleftrightarrow> joinable p) \<and>
     (ep_alpha p' = Joined \<longleftrightarrow> ep_alpha p = Joined) \<and> (ep_alpha p' = NoThread \<longleftrightarrow> ep_alpha p = NoThread)"
  by (auto simp: alpha_thread_step_def joinable_def case_prod_unfold Let_def split: if_splits)

text \<open>A step of another thread, or a signal.\<close>

lemma other_step_fields:
  assumes "process_step q throws p e = (p', outs)" "e \<noteq> MainStep"
  shows "ep_main p' = ep_main p \<and> (\<not> ep_running p \<longrightarrow> \<not> ep_running p') \<and>
     ep_trade_up p' = ep_trade_up p \<and> ep_feed_up p' = ep_feed_up p \<and> (joinable p' \<longleftrightarrow> joinable p) \<and>
     (ep_alpha p' = Joined \<longleftrightarrow> ep_alpha p = Joined) \<and> (ep_alpha p' = NoThread \<longleftrightarrow> ep_alpha p = NoThread)"
proof (cases "\<exists>st. ep_main p = Exited st")
  case True
  then show ?thesis using assms(1) by (auto simp: process_step_def)
next
  case live: False
  show ?thesis
  proof (cases e)
    case (AlphaThread t)
    then have "alpha_thread_step q t p = (p', outs)" using assms live by (auto simp: process_step_def split: main_pc.splits)
    then show ?thesis using alpha_thread_step_fields by blast
  qed (use assms live in \<open>auto simp: process_step_def joinable_def case_prod_unfold Let_def split: main_pc.splits if_splits\<close>)
qed

lemma exited_step: "ep_main p = Exited st \<Longrightarrow> process_step q throws p e = (p, [])"
  by (simp add: process_step_def)

lemma exited_run: "ep_main p = Exited st \<Longrightarrow> process_run q throws p evs = (p, [])"
  by (induction evs) (simp_all add: exited_step)

lemma heading_for_step:
  assumes "process_step q throws p e = (p', outs)" "heading_for bad p n"
    and "throws bad" "\<forall>st. startup_index st < startup_index bad \<longrightarrow> \<not> throws st"
  shows "heading_for bad p' (if e = MainStep then Suc n else n)"
proof (cases "\<exists>st. ep_main p = Exited st")
  case True
  then show ?thesis using assms(1,2) by (auto simp: exited_step heading_for_def)
next
  case False
  then obtain st where st: "ep_main p = Starting st" using assms(2) by (cases "ep_main p") (auto simp: heading_for_def)
  show ?thesis
  proof (cases "e = MainStep")
    case main: True
    then have p': "(p', outs) = (if throws st then unwind p else (startup_step st p, []))"
      using assms(1) st by (simp add: process_step_def main_step_def)
    show ?thesis
    proof (cases "throws st")
      case True
      then have "\<not> startup_index st < startup_index bad" using assms(4) by blast
      then have "startup_index st = startup_index bad" using assms(2) st by (auto simp: heading_for_def)
      then have "st = bad" by (rule startup_index_inj)
      then show ?thesis using main p' True assms(2) st
        by (cases bad) (auto simp: unwind_def heading_for_def joinable_def)
    next
      case False
      then have "st \<noteq> bad" using assms(3) by auto
      then have "startup_index st \<noteq> startup_index bad" using startup_index_inj by blast
      then have "startup_index st < startup_index bad" using assms(2) st by (auto simp: heading_for_def)
      then show ?thesis using main p' False assms(2) st startup_index_le [of bad]
        by (cases st) (auto simp: startup_step_def heading_for_def joinable_def)
    qed
  next
    case False
    then show ?thesis using other_step_fields [OF assms(1)] assms(2) st by (simp add: heading_for_def)
  qed
qed

lemma heading_for_run:
  assumes "throws bad" "\<forall>st. startup_index st < startup_index bad \<longrightarrow> \<not> throws st"
  shows "process_run q throws p evs = (p', outs) \<Longrightarrow> heading_for bad p n \<Longrightarrow> heading_for bad p' (n + count_main evs)"
proof (induction evs arbitrary: p n outs)
  case (Cons e evs)
  from Cons.prems(1) obtain p1 outs1 outs2 where e: "process_step q throws p e = (p1, outs1)"
    and r: "process_run q throws p1 evs = (p', outs2)" by (rule prc.run_ConsE)
  show ?case using Cons.IH [OF r heading_for_step [OF e Cons.prems(2) assms]] by (cases "e = MainStep") simp_all
qed simp

text \<open>On its way to the step that throws the process reports nothing but the sessions stopped at the end.\<close>

lemma heading_for_outputs:
  assumes "process_step q throws p e = (p', outs)" "heading_for bad p n"
    and "throws bad" "\<forall>st. startup_index st < startup_index bad \<longrightarrow> \<not> throws st"
  shows "SessionsStopped \<in> set outs \<longleftrightarrow> bad \<noteq> StartGateway \<and> live p \<and> \<not> live p'"
proof (cases "live p")
  case False
  then show ?thesis using assms(1) by (auto simp: live_def exited_step)
next
  case True
  then obtain st where st: "ep_main p = Starting st" using assms(2) by (cases "ep_main p") (auto simp: heading_for_def live_def)
  show ?thesis
  proof (cases "e = MainStep")
    case main: True
    then have p': "(p', outs) = (if throws st then unwind p else (startup_step st p, []))"
      using assms(1) st by (simp add: process_step_def main_step_def)
    show ?thesis
    proof (cases "throws st")
      case True
      then have "\<not> startup_index st < startup_index bad" using assms(4) by blast
      then have "st = bad" using assms(2) st by (intro startup_index_inj) (auto simp: heading_for_def)
      then show ?thesis using p' True assms(2) st \<open>live p\<close>
        by (cases bad) (auto simp: unwind_def heading_for_def joinable_def live_def)
    next
      case False
      then show ?thesis using p' by (cases st) (auto simp: live_def startup_step_def)
    qed
  next
    case False
    then have "live p'" using True other_step_fields [OF assms(1)] by (simp add: live_def)
    moreover have "SessionsStopped \<notin> set outs"
      using assms(1) st False
      by (cases e) (auto simp: process_step_def alpha_thread_step_def case_prod_unfold Let_def split: if_splits)
    ultimately show ?thesis by simp
  qed
qed

lemma heading_for_reports:
  assumes "throws bad" "\<forall>st. startup_index st < startup_index bad \<longrightarrow> \<not> throws st"
  shows "process_run q throws p evs = (p', outs) \<Longrightarrow> heading_for bad p n \<Longrightarrow>
    SessionsStopped \<in> set outs \<longleftrightarrow> bad \<noteq> StartGateway \<and> live p \<and> \<not> live p'"
proof (induction evs arbitrary: p n outs)
  case (Cons e evs)
  from Cons.prems(1) obtain p1 outs1 outs2 where e: "process_step q throws p e = (p1, outs1)"
    and r: "process_run q throws p1 evs = (p', outs2)" and o: "outs = outs1 @ outs2" by (rule prc.run_ConsE)
  have "\<not> live p \<Longrightarrow> \<not> live p1" using e by (auto simp: live_def exited_step)
  moreover have "\<not> live p1 \<Longrightarrow> \<not> live p'" using r exited_run by (fastforce simp: live_def)
  ultimately show ?case
    using Cons.IH [OF r heading_for_step [OF e Cons.prems(2) assms]] heading_for_outputs [OF e Cons.prems(2) assms] o
    by auto
qed simp

text \<open>
  C34: When a step of the startup throws, the program ends with \<open>EXIT_FAILURE\<close> and neither session
  up, the sessions that were started stopped on the way, unless it is the last step, starting
  the market-data session: by then the alpha thread runs, and the destructor of its
  \<open>std::thread\<close> calls \<open>std::terminate\<close> with the trade session still up and no session
  stopped.  The market-data session is up in neither case.
\<close>

theorem startup_failure_exit:
  assumes "engine_args argv = Inr cfg" and "throws bad"
    and "\<forall>st. startup_index st < startup_index bad \<longrightarrow> \<not> throws st"
    and "process_run q throws (process_init buf md_settings argv) evs = (p', outs)" and "8 \<le> count_main evs"
  shows "ep_main p' = Exited (if bad = StartGateway then Terminated else ExitFailure) \<and>
    (ep_trade_up p' \<longleftrightarrow> bad = StartGateway) \<and> \<not> ep_feed_up p' \<and>
    (SessionsStopped \<in> set outs \<longleftrightarrow> bad \<noteq> StartGateway)"
proof -
  have h: "heading_for bad (process_init buf md_settings argv) 0" and l: "live (process_init buf md_settings argv)"
    using assms(1) by (simp_all add: heading_for_def process_init_def joinable_def live_def)
  have "ep_main p' = Exited (if bad = StartGateway then Terminated else ExitFailure) \<and>
      (ep_trade_up p' \<longleftrightarrow> bad = StartGateway) \<and> \<not> ep_feed_up p'"
    using heading_for_run [OF assms(2,3,4) h] assms(5) startup_index_le [of bad]
    by (auto simp: heading_for_def split: main_pc.splits)
  moreover from this have "\<not> live p'" by (simp add: live_def)
  ultimately show ?thesis using heading_for_reports [OF assms(2,3,4) h] l by simp
qed

text \<open>
  A core number that is no number ends the program in \<open>std::terminate\<close>, not in the usage
  message or the error line of the \<open>catch\<close> block: both are read before the \<open>try\<close>.
\<close>

theorem bad_core_number_terminates:
  assumes "5 \<le> length argv" and "stoi (argv ! 4) = None"
  shows "ep_main (fst (process_run q throws (process_init buf md_settings argv) evs)) = Exited Terminated"
proof -
  have "ep_main (process_init buf md_settings argv) = Exited Terminated"
    using assms by (simp add: process_init_def engine_args_def)
  then show ?thesis using exited_run by simp
qed

section \<open>Shutdown\<close>

text \<open>How far the main thread is from its end once the flag is down, and the alpha thread from its return.\<close>

definition main_left :: "engine_process \<Rightarrow> nat" where
  "main_left p = (case ep_main p of Starting st \<Rightarrow> 14 - startup_index st | Sleeping \<Rightarrow> 6 | AtLoop \<Rightarrow> 5
     | StoppingGateway \<Rightarrow> 4 | StoppingOrderManager \<Rightarrow> 3 | Joining \<Rightarrow> 2 | LastFlush \<Rightarrow> 1 | Exited _ \<Rightarrow> 0)"

definition turn_left :: "alpha_pc \<Rightarrow> nat" where
  "turn_left pc = (case pc of AtTimer _ _ \<Rightarrow> 6 | AtCancel _ _ \<Rightarrow> 5 | AtClose _ _ \<Rightarrow> 4 | AtSignal _ _ \<Rightarrow> 3
     | AtCheck _ \<Rightarrow> 2 | AtSend _ \<Rightarrow> 1 | AtPop \<Rightarrow> 0)"

definition alpha_left :: "engine_process \<Rightarrow> nat" where
  "alpha_left p = (if ep_alpha p = Spinning then Suc (turn_left (th_alpha (ep_threads p))) else 0)"

lemma alpha_left_le: "alpha_left p \<le> 7"
  by (simp add: alpha_left_def turn_left_def split: alpha_pc.split)

lemma turn_left_step:
  "alpha_step q t h = (h', outs) \<Longrightarrow> th_alpha h \<noteq> AtPop \<Longrightarrow> turn_left (th_alpha h') < turn_left (th_alpha h)"
  by (auto simp: alpha_step_def cancel_step_def close_step_def signal_step_def send_step_def turn_left_def
      case_prod_unfold Let_def split: alpha_pc.splits option.splits if_splits)

text \<open>What holds between the pieces of the state, from the start on, when nothing throws.\<close>

definition lifecycle_ok :: "engine_process \<Rightarrow> bool" where
  "lifecycle_ok p \<longleftrightarrow>
     (case ep_main p of
        Starting st \<Rightarrow> (if startup_index st \<le> 6 then ep_alpha p = NoThread else joinable p) \<and>
          (ep_trade_up p \<longleftrightarrow> 5 < startup_index st) \<and> \<not> ep_feed_up p
      | AtLoop \<Rightarrow> joinable p \<and> ep_trade_up p \<and> ep_feed_up p
      | Sleeping \<Rightarrow> joinable p \<and> ep_trade_up p \<and> ep_feed_up p
      | StoppingGateway \<Rightarrow> joinable p \<and> ep_trade_up p \<and> ep_feed_up p
      | StoppingOrderManager \<Rightarrow> joinable p \<and> ep_trade_up p \<and> \<not> ep_feed_up p
      | Joining \<Rightarrow> joinable p \<and> \<not> ep_trade_up p \<and> \<not> ep_feed_up p
      | LastFlush \<Rightarrow> ep_alpha p = Joined \<and> \<not> ep_trade_up p \<and> \<not> ep_feed_up p
      | Exited st \<Rightarrow> st = ExitSuccess \<and> ep_alpha p = Joined \<and> \<not> ep_trade_up p \<and> \<not> ep_feed_up p)"

lemma lifecycle_init: "engine_args argv = Inr cfg \<Longrightarrow> lifecycle_ok (process_init buf md_settings argv)"
  by (simp add: lifecycle_ok_def process_init_def)

lemma lifecycle_main:
  assumes "main_step (\<lambda>_. False) p = (p', outs)" "lifecycle_ok p"
  shows "lifecycle_ok p'"
proof (cases "ep_main p")
  case (Starting st)
  then show ?thesis using assms
    by (cases st) (auto simp: main_step_def startup_step_def lifecycle_ok_def joinable_def)
qed (use assms in \<open>auto simp: main_step_def lifecycle_ok_def joinable_def split: if_splits\<close>)

lemma process_main_step: "process_step q throws p MainStep = main_step throws p"
  by (auto simp: process_step_def main_step_def split: main_pc.split)

lemma lifecycle_step:
  assumes "process_step q (\<lambda>_. False) p e = (p', outs)" "lifecycle_ok p"
  shows "lifecycle_ok p'"
proof (cases "e = MainStep")
  case True
  then show ?thesis using lifecycle_main assms by (simp add: process_main_step)
next
  case False
  then show ?thesis using other_step_fields [OF assms(1)] assms(2)
    by (auto simp: lifecycle_ok_def split: main_pc.splits)
qed

text \<open>Progress, with the flag down.\<close>

lemma main_left_step:
  assumes "process_step q (\<lambda>_. False) p e = (p', outs)" "\<not> ep_running p"
  shows "main_left p' \<le> main_left p \<and> \<not> ep_running p' \<and>
    (e = MainStep \<longrightarrow> ep_main p \<noteq> Joining \<or> ep_alpha p = Returned \<longrightarrow> main_left p' \<le> main_left p - 1)"
proof (cases "e = MainStep")
  case True
  then have m: "main_step (\<lambda>_. False) p = (p', outs)" using assms(1) by (simp add: process_main_step)
  show ?thesis
  proof (cases "ep_main p")
    case (Starting st)
    then show ?thesis using m assms(2) by (cases st) (auto simp: main_step_def main_left_def)
  qed (use m assms(2) in \<open>auto simp: main_step_def main_left_def split: if_splits\<close>)
next
  case False
  then show ?thesis using other_step_fields [OF assms(1)] assms(2) by (simp add: main_left_def)
qed

lemma alpha_left_step:
  assumes "process_step q (\<lambda>_. False) p e = (p', outs)" "\<not> ep_running p" "lifecycle_ok p" "main_left p \<le> 7"
  shows "alpha_left p' \<le> alpha_left p \<and> (\<forall>t. e = AlphaThread t \<longrightarrow> alpha_left p' \<le> alpha_left p - 1)"
proof (cases "\<exists>st. ep_main p = Exited st")
  case True
  then show ?thesis using assms(1,3) by (auto simp: exited_step lifecycle_ok_def alpha_left_def)
next
  case live: False
  show ?thesis
  proof (cases e)
    case MainStep
    then have m: "main_step (\<lambda>_. False) p = (p', outs)" using assms(1) by (simp add: process_main_step)
    show ?thesis
    proof (cases "ep_main p")
      case (Starting st)
      then have "st = StartGateway" using assms(4) by (cases st) (simp_all add: main_left_def)
      then show ?thesis using m Starting MainStep by (auto simp: main_step_def startup_step_def alpha_left_def)
    qed (use m MainStep in \<open>auto simp: main_step_def alpha_left_def split: if_splits\<close>)
  next
    case (AlphaThread t)
    then have a: "alpha_thread_step q t p = (p', outs)" using assms(1) live by (auto simp: process_step_def split: main_pc.splits)
    show ?thesis
    proof (cases "ep_alpha p = Spinning \<and> th_alpha (ep_threads p) \<noteq> AtPop")
      case True
      obtain h os where h: "alpha_step q t (ep_threads p) = (h, os)" by fastforce
      then have "p' = p\<lparr>ep_threads := h\<rparr>" using a True by (simp add: alpha_thread_step_def)
      then show ?thesis using turn_left_step [OF h] True by (simp add: alpha_left_def)
    next
      case False
      then show ?thesis using a assms(2) by (auto simp: alpha_thread_step_def alpha_left_def split: if_splits)
    qed
  next
    case (Session x)
    then show ?thesis using assms(1) live
      by (cases x) (auto simp: process_step_def alpha_left_def case_prod_unfold Let_def split: main_pc.splits if_splits)
  next
    case Interrupt
    then show ?thesis using assms(1) live by (auto simp: process_step_def alpha_left_def split: main_pc.splits)
  qed
qed

definition down :: "engine_process \<Rightarrow> bool" where
  "down p \<longleftrightarrow> lifecycle_ok p \<and> \<not> ep_running p"

lemma down_step: "process_step q (\<lambda>_. False) p e = (p', outs) \<Longrightarrow> down p \<Longrightarrow> down p'"
  using lifecycle_step main_left_step by (fastforce simp: down_def)

lemma down_run: "process_run q (\<lambda>_. False) p evs = (p', outs) \<Longrightarrow> down p \<Longrightarrow> down p' \<and> main_left p' \<le> main_left p"
proof -
  assume r: "process_run q (\<lambda>_. False) p evs = (p', outs)" and "down p"
  have "down p \<longrightarrow> down p' \<and> main_left p' \<le> main_left p"
    by (rule prc.run_relates [of "\<lambda>p _ p'. down p \<longrightarrow> down p' \<and> main_left p' \<le> main_left p", OF _ _ _ r])
      (use down_step main_left_step in \<open>force simp: down_def\<close>)+
  then show ?thesis using \<open>down p\<close> by blast
qed

text \<open>Enough steps of the main thread bring it to the join.\<close>

lemma reaches_join:
  "process_run q (\<lambda>_. False) p evs = (p', outs) \<Longrightarrow> down p \<Longrightarrow> main_left p' \<le> max 2 (main_left p - count_main evs)"
proof (induction evs arbitrary: p outs)
  case (Cons e evs)
  from Cons.prems(1) obtain p1 outs1 outs2 where e: "process_step q (\<lambda>_. False) p e = (p1, outs1)"
    and r: "process_run q (\<lambda>_. False) p1 evs = (p', outs2)" by (rule prc.run_ConsE)
  note IH = Cons.IH [OF r down_step [OF e Cons.prems(2)]]
  have s: "main_left p1 \<le> main_left p" "e = MainStep \<Longrightarrow> ep_main p \<noteq> Joining \<Longrightarrow> main_left p1 \<le> main_left p - 1"
    "ep_main p = Joining \<Longrightarrow> main_left p = 2"
    using main_left_step [OF e] Cons.prems(2) by (simp_all add: down_def main_left_def)
  show ?case
  proof (cases "ep_main p = Joining")
    case True
    then show ?thesis using s IH by linarith
  next
    case False
    then show ?thesis using s IH by (cases "e = MainStep"; simp; linarith)
  qed
qed simp

definition count_alpha :: "process_event list \<Rightarrow> nat" where
  "count_alpha evs = length (filter (\<lambda>e. case e of AlphaThread _ \<Rightarrow> True | _ \<Rightarrow> False) evs)"

lemma alpha_returns:
  "process_run q (\<lambda>_. False) p evs = (p', outs) \<Longrightarrow> down p \<Longrightarrow> main_left p \<le> 7 \<Longrightarrow>
    alpha_left p' \<le> alpha_left p - count_alpha evs"
proof (induction evs arbitrary: p outs)
  case (Cons e evs)
  from Cons.prems(1) obtain p1 outs1 outs2 where e: "process_step q (\<lambda>_. False) p e = (p1, outs1)"
    and r: "process_run q (\<lambda>_. False) p1 evs = (p', outs2)" by (rule prc.run_ConsE)
  have "main_left p1 \<le> 7" using main_left_step [OF e] Cons.prems(2,3) by (simp add: down_def)
  note IH = Cons.IH [OF r down_step [OF e Cons.prems(2)] this]
  have s: "alpha_left p1 \<le> alpha_left p" "\<And>t. e = AlphaThread t \<Longrightarrow> alpha_left p1 \<le> alpha_left p - 1"
    using alpha_left_step [OF e] Cons.prems(2,3) by (simp_all add: down_def)
  show ?case using IH s by (cases e; simp add: count_alpha_def; linarith)
qed (simp add: count_alpha_def)

lemma exits:
  "process_run q (\<lambda>_. False) p evs = (p', outs) \<Longrightarrow> down p \<Longrightarrow> main_left p \<le> 7 \<Longrightarrow> alpha_left p = 0 \<Longrightarrow>
    main_left p' \<le> main_left p - count_main evs"
proof (induction evs arbitrary: p outs)
  case (Cons e evs)
  from Cons.prems(1) obtain p1 outs1 outs2 where e: "process_step q (\<lambda>_. False) p e = (p1, outs1)"
    and r: "process_run q (\<lambda>_. False) p1 evs = (p', outs2)" by (rule prc.run_ConsE)
  have "ep_main p \<noteq> Joining \<or> ep_alpha p = Returned"
    using Cons.prems(2,4) by (auto simp: down_def lifecycle_ok_def joinable_def alpha_left_def)
  then have s: "main_left p1 \<le> main_left p" "e = MainStep \<Longrightarrow> main_left p1 \<le> main_left p - 1"
    using main_left_step [OF e] Cons.prems(2) by (simp_all add: down_def)
  have "alpha_left p1 = 0" using alpha_left_step [OF e] Cons.prems(2-4) by (simp add: down_def)
  moreover have "main_left p1 \<le> 7" using s(1) Cons.prems(3) by linarith
  ultimately have "main_left p' \<le> main_left p1 - count_main evs"
    using Cons.IH [OF r down_step [OF e Cons.prems(2)]] by simp
  then show ?case using s by (cases "e = MainStep"; simp; linarith)
qed simp

lemma down_finished: "down p \<Longrightarrow> main_left p = 0 \<Longrightarrow>
    ep_main p = Exited ExitSuccess \<and> ep_alpha p = Joined \<and> \<not> ep_trade_up p \<and> \<not> ep_feed_up p"
proof (cases "ep_main p")
  case (Starting st)
  then show "main_left p = 0 \<Longrightarrow> ?thesis" using startup_index_le [of st] by (simp add: main_left_def)
qed (simp_all add: down_def main_left_def lifecycle_ok_def)

lemma main_left_le: "main_left p \<le> 14"
  by (simp add: main_left_def split: main_pc.split)

text \<open>When nothing throws.\<close>

lemma clean_shutdown:
  assumes "engine_args argv = Inr cfg"
    and "process_run q (\<lambda>_. False) (process_init buf md_settings argv) before = (p, outs)"
    and "process_run q (\<lambda>_. False) p (Interrupt # ws @ xs @ ys) = (p', outs')"
    and "7 \<le> count_main ws" and "7 \<le> count_alpha xs" and "7 \<le> count_main ys"
  shows "ep_main p' = Exited ExitSuccess \<and> ep_alpha p' = Joined \<and> \<not> ep_trade_up p' \<and> \<not> ep_feed_up p'"
proof -
  have ok: "lifecycle_ok p"
    by (rule prc.run_invariant [OF _ assms(2)]) (use lifecycle_step lifecycle_init [OF assms(1)] in blast)+
  from assms(3) obtain p0 os0 os1 where i: "process_step q (\<lambda>_. False) p Interrupt = (p0, os0)"
    and r: "process_run q (\<lambda>_. False) p0 (ws @ xs @ ys) = (p', os1)" by (rule prc.run_ConsE)
  show ?thesis
  proof (cases "\<exists>st. ep_main p = Exited st")
    case True
    obtain st where "ep_main p = Exited st" using True by blast
    then have "p' = p" using i r exited_run exited_step by auto
    then show ?thesis using ok True by (auto simp: lifecycle_ok_def)
  next
    case False
    then have "p0 = p\<lparr>ep_running := False\<rparr>" using i by (auto simp: process_step_def split: main_pc.splits)
    then have d0: "down p0" using lifecycle_step [OF i ok] by (simp add: down_def)
    obtain p1 o1 where w: "process_run q (\<lambda>_. False) p0 ws = (p1, o1)" by fastforce
    obtain p2 o2 where x: "process_run q (\<lambda>_. False) p1 xs = (p2, o2)" by fastforce
    obtain o3 where y: "process_run q (\<lambda>_. False) p2 ys = (p', o3)"
      using r w x by (simp add: prc.run_append case_prod_unfold Let_def) (metis prod.collapse)
    have d1: "down p1" using down_run [OF w d0] by simp
    have m1: "main_left p1 \<le> 7" using reaches_join [OF w d0] main_left_le [of p0] assms(4) by linarith
    have d2: "down p2" "main_left p2 \<le> 7" using down_run [OF x d1] m1 by simp_all
    have "alpha_left p2 = 0" using alpha_returns [OF x d1 m1] alpha_left_le [of p1] assms(5) by linarith
    then have "main_left p' = 0" using exits [OF y d2] d2(2) assms(6) by linarith
    then show ?thesis using down_finished down_run [OF y d2(1)] by blast
  qed
qed

text \<open>A run in which some step may throw is one in which none does, or it has ended in a failure.\<close>

definition failed :: "engine_process \<Rightarrow> bool" where
  "failed p \<longleftrightarrow> ep_main p = Exited ExitFailure \<or> ep_main p = Exited Terminated"

lemma throwing_step:
  assumes "process_step q throws p e = (p', outs)"
  shows "process_step q (\<lambda>_. False) p e = (p', outs) \<or> failed p' \<and> (\<exists>bad. throws bad)"
proof (cases "e = MainStep")
  case True
  show ?thesis
  proof (cases "ep_main p")
    case (Starting st)
    then show ?thesis using assms True
      by (cases "throws st") (auto simp: process_main_step main_step_def unwind_def failed_def split: if_splits)
  qed (use assms True in \<open>auto simp: process_main_step main_step_def\<close>)
next
  case False
  then have "process_step q throws p e = process_step q (\<lambda>_. False) p e"
    by (cases e) (simp_all add: process_step_def split: main_pc.split)
  then show ?thesis using assms by simp
qed

lemma throwing_run:
  "process_run q throws p evs = (p', outs) \<Longrightarrow>
    process_run q (\<lambda>_. False) p evs = (p', outs) \<or> failed p' \<and> (\<exists>bad. throws bad)"
proof (induction evs arbitrary: p outs)
  case (Cons e evs)
  from Cons.prems obtain p1 outs1 outs2 where e: "process_step q throws p e = (p1, outs1)"
    and r: "process_run q throws p1 evs = (p', outs2)" and o: "outs = outs1 @ outs2" by (rule prc.run_ConsE)
  show ?case
  proof (cases "failed p1 \<and> (\<exists>bad. throws bad)")
    case True
    then have "p' = p1" using r exited_run by (auto simp: failed_def)
    then show ?thesis using True by simp
  next
    case False
    then have "process_step q (\<lambda>_. False) p e = (p1, outs1)" using throwing_step [OF e] by blast
    then show ?thesis using Cons.IH [OF r] o by auto
  qed
qed simp

text \<open>
  C13: The engine can always be stopped.  From every state a signal is received in, whatever
  startup or turn it comes into, seven steps of the main thread, then seven of the alpha
  thread, then seven of the main thread, interleaved with anything, end the program: with
  \<open>EXIT_SUCCESS\<close>, the thread joined and both sessions stopped, or, but only if a step of
  the startup throws, in a failure (a signal does not cut the startup short).
\<close>

theorem shutdown_completes:
  assumes "engine_args argv = Inr cfg"
    and "process_run q throws (process_init buf md_settings argv) before = (p, outs)"
    and "process_run q throws p (Interrupt # ws @ xs @ ys) = (p', outs')"
    and "7 \<le> count_main ws" and "7 \<le> count_alpha xs" and "7 \<le> count_main ys"
  shows "ep_main p' = Exited ExitSuccess \<and> ep_alpha p' = Joined \<and> \<not> ep_trade_up p' \<and> \<not> ep_feed_up p' \<or>
    (ep_main p' = Exited ExitFailure \<or> ep_main p' = Exited Terminated) \<and> (\<exists>bad. throws bad)"
proof (cases "failed p' \<and> (\<exists>bad. throws bad)")
  case True
  then show ?thesis by (simp add: failed_def)
next
  case False
  then have "process_run q (\<lambda>_. False) p (Interrupt # ws @ xs @ ys) = (p', outs')" using throwing_run [OF assms(3)] by blast
  moreover have "process_run q (\<lambda>_. False) (process_init buf md_settings argv) before = (p, outs)"
  proof (rule ccontr)
    assume "\<not> ?thesis"
    then have f: "failed p" "\<exists>bad. throws bad" using throwing_run [OF assms(2)] by blast+
    then have "p' = p" using exited_run assms(3) by (auto simp: failed_def simp del: process_run.simps)
    then show False using f False by simp
  qed
  ultimately show ?thesis using clean_shutdown [OF assms(1) _ _ assms(4-6)] by blast
qed

section \<open>Witnesses\<close>

definition sample_argv :: "string list" where
  "sample_argv = [''sq_engine'', ''md.cfg'', ''trade.cfg'', ''logs'', ''2'']"

lemma sample_args: "\<exists>cfg. engine_args sample_argv = Inr cfg"
  by (simp add: engine_args_def sample_argv_def stoi_def is_space_def is_digit_def digits_value_def)

theorem startup_failure_exit_witness:
  "ep_main (fst (process_run sample_quickfix (\<lambda>st. st = StartGateway) (process_init sample_cells None sample_argv)
     (replicate 7 MainStep @ [AlphaThread sample_turn, MainStep]))) = Exited Terminated"
proof -
  obtain cfg where "engine_args sample_argv = Inr cfg" using sample_args by blast
  note fails = startup_failure_exit [OF this, of "\<lambda>st. st = StartGateway" StartGateway sample_quickfix sample_cells None,
      OF _ _ prod.collapse [symmetric]]
  have "\<forall>st. startup_index st < startup_index StartGateway \<longrightarrow> \<not> st = StartGateway" by auto
  then show ?thesis using fails [of "replicate 7 MainStep @ [AlphaThread sample_turn, MainStep]"]
    by (simp add: count_main_def del: process_run.simps)
qed

theorem bad_core_number_terminates_witness:
  "ep_main (fst (process_run sample_quickfix (\<lambda>st. False)
     (process_init sample_cells None [''sq_engine'', ''md.cfg'', ''trade.cfg'', ''logs'', ''two'']) [])) = Exited Terminated"
  by (rule bad_core_number_terminates) (simp_all add: stoi_not_number is_space_def is_digit_def)

theorem shutdown_completes_witness:
  "let (p, _) = process_run sample_quickfix (\<lambda>_. False) (process_init sample_cells None sample_argv) (replicate 3 MainStep);
       (p', _) = process_run sample_quickfix (\<lambda>_. False) p (Interrupt # replicate 7 MainStep
         @ replicate 7 (AlphaThread sample_turn) @ replicate 7 MainStep)
   in ep_main p' = Exited ExitSuccess"
proof -
  obtain cfg where "engine_args sample_argv = Inr cfg" using sample_args by blast
  from shutdown_completes [OF this prod.collapse [symmetric] prod.collapse [symmetric], of "replicate 7 MainStep"
      "replicate 7 (AlphaThread sample_turn)" "replicate 7 MainStep" sample_quickfix "\<lambda>_. False" sample_cells None "replicate 3 MainStep"]
  show ?thesis by (simp add: case_prod_unfold Let_def count_main_def count_alpha_def eval_nat_numeral del: process_run.simps)
qed

end
