(* ===== verification/System_Types.thy ===== *)
theory System_Types
  imports Engine_Main
begin

text \<open>
  The types of the program as predicates on the model's states, which keeps \<open>int64_t\<close> as
  \<open>int\<close>, \<open>double\<close> as rounded rationals, arrays as lists and indices as numbers: every
  operation keeps every stored value in its type, every index inside its array, and the parallel
  queues of the cancel factor equally long.
\<close>

named_theorems typed \<open>operations that keep their state typed\<close>

section \<open>Numbers\<close>

definition i64_ok :: "int \<Rightarrow> bool" where
  "i64_ok x \<longleftrightarrow> i64_min \<le> x \<and> x \<le> i64_max"

lemma i64_ok_i64 [simp]: "i64_ok (i64 x)"
  by (simp add: i64_ok_def i64_lower [simplified] i64_upper [simplified])

lemma i64_ok_0 [simp]: "i64_ok 0" and i64_ok_1 [simp]: "i64_ok 1"
  by (simp_all add: i64_ok_def)

lemma i64_ok_trunc [simp]: "i64_ok (f64_trunc x)"
  by (cases x) (auto simp: i64_ok_def Let_def)

lemma i64_ok_price [simp]: "i64_ok (to_price d)"
  by (simp add: to_price_def)

lemma f64_ok_uminus [simp]: "f64_ok x \<Longrightarrow> f64_ok (- x)"
  by (cases x) (simp_all add: is_f53_minus)

lemma f64_ok_plus [simp]: "f64_ok (x + y)"
  by (cases x; cases y) simp_all

lemma f64_ok_minus [simp]: "f64_ok (x - y)"
  by (simp add: minus_f64_def)

lemma f64_ok_times [simp]: "f64_ok (x * y)"
  by (cases x; cases y) simp_all

lemma f64_ok_div [simp]: "f64_ok (f64_div x y)"
  by (cases x; cases y) simp_all

section \<open>Events and the book\<close>

definition event_ok :: "lob_event \<Rightarrow> bool" where
  "event_ok ev \<longleftrightarrow> i64_ok (ev_price ev) \<and> i64_ok (ev_qty ev)"

definition levels_typed :: "(int, int) smap \<Rightarrow> bool" where
  "levels_typed m \<longleftrightarrow> smap_wf m \<and> (\<forall>kv \<in> set m. i64_ok (fst kv) \<and> i64_ok (snd kv) \<and> 0 < snd kv)"

definition entry_ok :: "entry_info \<Rightarrow> bool" where
  "entry_ok e \<longleftrightarrow> i64_ok (ei_price e) \<and> i64_ok (ei_qty e)"

definition book_typed :: "order_book \<Rightarrow> bool" where
  "book_typed b \<longleftrightarrow> levels_typed (ob_bids b) \<and> levels_typed (ob_asks b) \<and> (\<forall>e \<in> ran (ob_entries b). entry_ok e)"

lemma set_smap_put: "set (smap_put k v m) \<subseteq> insert (k, v) (set m)"
  by (induction m) auto

lemma levels_typed_add: "levels_typed m \<Longrightarrow> i64_ok px \<Longrightarrow> levels_typed (level_add m px d)"
proof -
  assume m: "levels_typed m" "i64_ok px"
  have "smap_wf (level_add m px d)" using m(1) by (simp add: levels_typed_def level_add_def Let_def smap_put_wf smap_erase_wf)
  moreover have "i64_ok (fst kv) \<and> i64_ok (snd kv) \<and> 0 < snd kv" if "kv \<in> set (level_add m px d)" for kv
  proof (cases "i64 (qty_at m px + d) \<le> 0")
    case True
    then show ?thesis using that m(1) by (simp add: level_add_def levels_typed_def smap_erase_def)
  next
    case False
    then have "kv = (px, i64 (qty_at m px + d)) \<or> kv \<in> set m"
      using that set_smap_put [of px "i64 (qty_at m px + d)" m] by (auto simp: level_add_def Let_def)
    then show ?thesis using False m by (auto simp: levels_typed_def)
  qed
  ultimately show ?thesis by (simp add: levels_typed_def)
qed

lemma book_typed_empty [simp]: "book_typed book_empty"
  by (simp add: book_typed_def book_empty_def levels_typed_def)

lemma book_typed_clear [typed]: "book_typed b \<Longrightarrow> book_typed (book_clear b)"
  by (simp add: book_typed_def book_clear_def levels_typed_def)

lemma side_add_typed: "book_typed b \<Longrightarrow> i64_ok px \<Longrightarrow> book_typed (side_add b s px d)"
  by (cases s) (simp_all add: side_add_def book_typed_def levels_typed_add)

lemma put_entry_typed: "book_typed b \<Longrightarrow> event_ok ev \<Longrightarrow> book_typed (put_entry b ev)"
  unfolding put_entry_def
  by (rule side_add_typed) (auto simp: book_typed_def event_ok_def entry_ok_def entry_of_def ran_def)

lemma remove_old_typed: "book_typed b \<Longrightarrow> entry_ok e \<Longrightarrow> book_typed (remove_old b e)"
  by (simp add: remove_old_def side_add_typed entry_ok_def)

lemma erase_entry_typed: "book_typed b \<Longrightarrow> book_typed (erase_entry b i)"
  by (auto simp: erase_entry_def book_typed_def ran_def)

lemma entry_typed: "book_typed b \<Longrightarrow> ob_entries b i = Some e \<Longrightarrow> entry_ok e"
  by (auto simp: book_typed_def ran_def)

lemma book_typed_after [typed]: "book_typed b \<Longrightarrow> event_ok ev \<Longrightarrow> book_typed (book_after b ev)"
  by (cases "ev_action ev")
    (auto simp: book_apply_def Let_def put_entry_typed remove_old_typed erase_entry_typed entry_typed split: option.splits)

lemma book_typed_run [typed]: "book_typed b \<Longrightarrow> list_all event_ok evs \<Longrightarrow> book_typed (book_run b evs)"
  unfolding book_run_def by (induction evs arbitrary: b) (simp_all add: typed)

lemma best_typed [typed]:
  assumes "book_typed b" shows "i64_ok (best_bid b)" "i64_ok (best_ask b)"
  using assms last_in_set [of "ob_bids b"]
  by (auto simp: best_bid_def best_ask_def smap_last_def smap_first_def book_typed_def levels_typed_def
      split: list.splits)

section \<open>The queue\<close>

definition queue_typed :: "lob_event spsc \<Rightarrow> bool" where
  "queue_typed q \<longleftrightarrow> spsc_inv kMdQueueCapacity q \<and> list_all event_ok (q_buf q)"

lemma queue_typed_push [typed]:
  "queue_typed q \<Longrightarrow> event_ok ev \<Longrightarrow> queue_typed (fst (spsc_push kMdQueueCapacity q ev))"
  using spsc.inv_push [of kMdQueueCapacity q ev]
  by (auto simp: queue_typed_def spsc_push_def Let_def list_all_update)

lemma queue_typed_pop:
  assumes "queue_typed q" "spsc_pop kMdQueueCapacity q = (q', res)"
  shows "queue_typed q' \<and> (\<forall>ev. res = Some ev \<longrightarrow> event_ok ev)"
  using assms spsc_inv_advance [of kMdQueueCapacity q]
  by (auto simp: queue_typed_def spsc_pop_def spsc_inv_def list_all_length Let_def split: if_splits)

section \<open>The signal engine\<close>

lemma i64_ok_half [simp]: "i64_ok x \<Longrightarrow> i64_ok (c_div x 2)"
proof -
  have "\<bar>c_div x 2\<bar> = \<bar>x\<bar> div 2" by (cases "x = 0") (simp_all add: c_div_def abs_mult)
  then show "i64_ok x \<Longrightarrow> ?thesis" by (auto simp: i64_ok_def)
qed

definition delta_bucket_ok :: "delta_bucket \<Rightarrow> bool" where
  "delta_bucket_ok b \<longleftrightarrow> f64_ok (db_buy_vol b) \<and> f64_ok (db_sell_vol b)"

definition delta_typed :: "delta_factor \<Rightarrow> bool" where
  "delta_typed d \<longleftrightarrow> delta_wf d \<and> list_all delta_bucket_ok (rg_buckets (df_ring d)) \<and> i64_ok (df_midprice d) \<and>
     df_bucket_ns d \<noteq> 0 \<and> df_num_buckets d \<le> kMaxDeltaBuckets \<and>
     f64_ok (df_net_delta d) \<and> f64_ok (df_prev_delta d) \<and> f64_ok (df_prev_prev_delta d) \<and> f64_ok (df_acceleration d)"

lemma delta_typed_new: "delta_new w b = Some d \<Longrightarrow> delta_typed d"
  by (auto simp: delta_new_def delta_typed_def delta_wf_def delta_ring_empty_def ring_wf_def kMaxDeltaBuckets_def
      delta_bucket_ok_def delta_blank_def list_all_iff split: if_splits)

lemma delta_typed_midprice [typed]: "delta_typed d \<Longrightarrow> i64_ok mid \<Longrightarrow> delta_typed (set_midprice mid d)"
  by (simp add: delta_typed_def delta_wf_def set_midprice_def)

lemma delta_advance_typed: "delta_typed d \<Longrightarrow> delta_typed (delta_advance_time t d)"
  by (auto simp: delta_typed_def delta_wf_def delta_advance_time_def delta_bucket_ok_def delta_blank_def intro!: wf_intros)

lemma delta_record_typed: "delta_typed d \<Longrightarrow> delta_typed (delta_record_trade ev d)"
proof -
  assume d: "delta_typed d"
  then have "delta_bucket_ok (ring_newest (df_ring d))"
    using ring_newest_in_buckets [of kMaxDeltaBuckets "df_ring d"] by (auto simp: delta_typed_def delta_wf_def list_all_iff)
  then show ?thesis using d record_trade_keeps(1) [of kMaxDeltaBuckets d ev]
    by (auto simp: delta_typed_def delta_wf_def delta_record_trade_def delta_bucket_ok_def Let_def intro!: ring_set_newest_all)
qed

lemma delta_recompute_typed: "delta_typed d \<Longrightarrow> delta_typed (delta_recompute d)"
  by (simp add: delta_typed_def delta_wf_def delta_recompute_def Let_def case_prod_unfold)

lemma delta_typed_event [typed]: "delta_typed d \<Longrightarrow> delta_typed (delta_on_event ev d)"
  by (simp add: delta_on_event_def delta_advance_typed delta_record_typed delta_recompute_typed)

text \<open>For the cancel factor its invariant already says more: every recorded score is finite.\<close>

definition cancel_typed :: "cancel_factor \<Rightarrow> bool" where
  "cancel_typed c \<longleftrightarrow> cancel_inv c \<and> f64_ok (cf_z_bid c) \<and> f64_ok (cf_z_ask c)"

lemma cancel_typed_new: "cancel_typed cancel_new"
  using cancel_feed_inv [of "[]"] by (simp add: cancel_typed_def cancel_feed_def) (simp add: cancel_new_def)

lemma recompute_z_ok: "f64_ok (cf_z_bid c) \<Longrightarrow> f64_ok (cf_z_ask c) \<Longrightarrow>
    f64_ok (cf_z_bid (recompute_zscores c)) \<and> f64_ok (cf_z_ask (recompute_zscores c))"
  by (simp add: recompute_zscores_def z_score_def Let_def case_prod_unfold)

lemma cancel_frame:
  "cf_z_bid (count_delete ev (cancel_advance_time t c)) = cf_z_bid c"
  "cf_z_ask (count_delete ev (cancel_advance_time t c)) = cf_z_ask c"
  by (simp_all add: count_delete_def cancel_advance_time_def Let_def split: md_entry_type.split)

lemma cancel_typed_event [typed]: "cancel_typed c \<Longrightarrow> cancel_typed (cancel_on_event ev c)"
  using recompute_z_ok [of "count_delete ev (cancel_advance_time (ev_timestamp_ns ev) c)"]
  by (simp add: cancel_typed_def cancel_on_event_def cancel_frame advance_inv count_delete_inv recompute_inv)

definition signal_ok :: "signal \<Rightarrow> bool" where
  "signal_ok s \<longleftrightarrow> i64_ok (sig_l1_price s) \<and> f64_ok (sig_delta_val s) \<and> f64_ok (sig_cancel_z s)"

definition engine_typed :: "signal_engine \<Rightarrow> bool" where
  "engine_typed e \<longleftrightarrow> delta_typed (se_delta e) \<and> cancel_typed (se_cancel e) \<and> f64_ok (se_thresh_delta e) \<and>
     f64_ok (se_min_cancel_z e) \<and> signal_ok (se_last_signal e)"

lemma engine_typed_new: "f64_ok a \<Longrightarrow> f64_ok b \<Longrightarrow> engine_typed (signal_engine_new a b)"
  using delta_typed_new [OF delta_default_timing(1)] cancel_typed_new
  by (simp add: engine_typed_def signal_engine_new_def signal_ok_def signal_default_def)

lemma feed_factors_typed: "engine_typed e \<Longrightarrow> book_typed b \<Longrightarrow> engine_typed (feed_factors e ev b)"
  by (simp add: engine_typed_def feed_factors_def Let_def typed)

lemma engine_typed_event [typed]:
  assumes "engine_typed e" "book_typed b"
  shows "engine_typed (fst (signal_on_event e ev b))"
  using feed_factors_typed [OF assms, of ev] best_typed [OF assms(2)]
  by (simp add: signal_on_event_def Let_def engine_typed_def signal_ok_def delta_typed_def cancel_typed_def)

section \<open>Orders and risk\<close>

definition order_ok :: "order \<Rightarrow> bool" where
  "order_ok ord1 \<longleftrightarrow> length (ord_clordid ord1) \<le> 31 \<and> i64_ok (ord_signal_l1 ord1) \<and> i64_ok (ord_fill_price ord1) \<and>
     i64_ok (ord_qty ord1)"

definition risk_typed :: "risk \<Rightarrow> bool" where
  "risk_typed r \<longleftrightarrow> order_ok (rk_open_order r) \<and> f64_ok (rk_daily_pnl r) \<and> 0 \<le> rk_consec_slip_count r \<and>
     (rk_consec_slip_count r = 0 \<or> rk_consec_slip_count r < cooldown_consec_slips (rk_cfg r))"

lemma order_ok_default [simp]: "order_ok order_default"
  by (simp add: order_ok_def order_default_def)

lemma order_ok_sent [simp]: "i64_ok qty \<Longrightarrow> i64_ok l1 \<Longrightarrow> order_ok (sent_order i sd qty l1 ts)"
  by (simp add: order_ok_def sent_order_def order_default_def)

lemma order_ok_filled [simp]: "order_ok ord1 \<Longrightarrow> order_ok (ord1\<lparr>ord_fill_price := to_price px, ord_fill_ts_ns := ts, ord_status := st\<rparr>)"
  by (simp add: order_ok_def)

lemma order_ok_status: "order_ok ord1 \<Longrightarrow> order_ok (ord1\<lparr>ord_status := st\<rparr>)"
  by (simp add: order_ok_def)

lemma risk_typed_init: "risk_typed (risk_init cfg)"
  by (simp add: risk_typed_def risk_init_def)

lemma risk_typed_sent [typed]: "risk_typed r \<Longrightarrow> order_ok ord1 \<Longrightarrow> risk_typed (on_order_sent r ord1 ts)"
  by (simp add: risk_typed_def on_order_sent_def)

lemma risk_typed_reject [typed]: "risk_typed r \<Longrightarrow> risk_typed (on_reject r ord1)"
  by (simp add: risk_typed_def on_reject_def)

lemma risk_typed_fill [typed]: "risk_typed r \<Longrightarrow> risk_typed (on_fill r ord1 ts)"
proof -
  have "rk_cfg (on_fill r ord1 ts) = rk_cfg r" using risk_step_cfg [of r "FillReport ord1 ts"] by simp
  then show "risk_typed r \<Longrightarrow> ?thesis" by (auto simp: risk_typed_def on_fill_fields on_fill_count)
qed

definition orders_typed :: "(string \<rightharpoonup> order) \<Rightarrow> bool" where
  "orders_typed m \<longleftrightarrow> (\<forall>ord1 \<in> ran m. order_ok ord1)"

lemma orders_typed_empty [simp]: "orders_typed Map.empty"
  by (simp add: orders_typed_def)

lemma orders_typed_put [simp]: "orders_typed m \<Longrightarrow> order_ok ord1 \<Longrightarrow> orders_typed (m(i \<mapsto> ord1))"
  by (auto simp: orders_typed_def ran_def)

lemma orders_typed_remove [simp]: "orders_typed m \<Longrightarrow> orders_typed (m(i := None))"
  by (auto simp: orders_typed_def ran_def)

definition oms_typed :: "oms \<Rightarrow> bool" where
  "oms_typed s \<longleftrightarrow> risk_typed (om_risk s) \<and> orders_typed (om_open_orders s)"

lemma oms_typed_init: "oms_typed (oms_init (risk_init cfg))"
  by (simp add: oms_typed_def oms_init_def risk_typed_init)

lemma open_order_typed: "oms_typed s \<Longrightarrow> om_open_orders s i = Some ord1 \<Longrightarrow> order_ok ord1"
  by (auto simp: oms_typed_def orders_typed_def ran_def)

lemma send_typed:
  "oms_typed s \<Longrightarrow> i64_ok qty \<Longrightarrow> i64_ok l1 \<Longrightarrow> send_ioc q net utc sd qty l1 ts s = (s', outs, i) \<Longrightarrow> oms_typed s'"
  by (auto simp: send_ioc_def next_clordid_def oms_typed_def Let_def typed
      split: if_splits send_result.splits)

lemma cancel_typed_oms: "oms_typed s \<Longrightarrow> cancel_order net utc i s = (s', outs) \<Longrightarrow> oms_typed s'"
  by (auto simp: cancel_order_def next_clordid_def oms_typed_def Let_def split: option.splits send_result.splits)

lemma apply_fill_typed: "oms_typed s \<Longrightarrow> order_ok ord1 \<Longrightarrow> apply_fill i et px ts ord1 s = (s', outs) \<Longrightarrow> oms_typed s'"
  by (auto simp: apply_fill_def oms_typed_def Let_def typed)

lemma apply_reject_typed: "oms_typed s \<Longrightarrow> apply_reject i et ord1 s = (s', outs) \<Longrightarrow> oms_typed s'"
  by (auto simp: apply_reject_def oms_typed_def Let_def typed)

lemma fromApp_typed:
  assumes "oms_typed s" "oms_fromApp q m ts s = (s', outs, err)"
  shows "oms_typed s'"
proof (rule fromApp_cases [of q m ts s])
  fix err1
  assume "oms_fromApp q m ts s = (s, [], err1)"
  then have "s' = s" using assms(2) by simp
  then show ?thesis using assms(1) by simp
next
  fix i et px ord1 s1 outs1
  assume ord: "om_open_orders s i = Some ord1" and f: "apply_fill i et px ts ord1 s = (s1, outs1)"
    and "oms_fromApp q m ts s = (s1, outs1, None)"
  then have "s' = s1" using assms(2) by simp
  then show ?thesis using apply_fill_typed [OF assms(1) open_order_typed [OF assms(1) ord] f] by simp
next
  fix i et ord1 s1 outs1
  assume f: "apply_reject i et ord1 s = (s1, outs1)" and "oms_fromApp q m ts s = (s1, outs1, None)"
  then have "s' = s1" using assms(2) by simp
  then show ?thesis using apply_reject_typed [OF assms(1) f] by simp
qed

section \<open>The gateway\<close>

definition gateway_typed :: "gateway \<Rightarrow> bool" where
  "gateway_typed g \<longleftrightarrow> book_typed (gw_book g) \<and> (\<forall>queue. gw_queue g = Some queue \<longrightarrow> queue_typed queue)"

lemma px_qty_typed: "read_px_qty q grp e = EntryEvent ev \<Longrightarrow> event_ok ev"
  by (auto simp: read_px_qty_def read_optional_def event_ok_def split: sum.splits option.splits)

lemma blank_event_ok [simp]: "event_ok (blank_event ts a)"
  by (simp add: event_ok_def blank_event_def)

lemma incremental_typed:
  "book_typed b \<Longrightarrow> incremental_entry q ts b grp = EntryEvent ev \<Longrightarrow> event_ok ev"
  using entry_typed [of b] px_qty_typed
  by (auto simp: incremental_entry_def lookup_entry_def Let_def event_ok_def entry_ok_def blank_event_def
      split: sum.splits option.splits if_splits)

lemma snapshot_typed: "snapshot_entry q ts grp = EntryEvent ev \<Longrightarrow> event_ok ev"
  using px_qty_typed by (auto simp: snapshot_entry_def Let_def split: sum.splits option.splits md_entry_type.splits)

lemma deliver_typed: "gateway_typed g \<Longrightarrow> event_ok ev \<Longrightarrow> deliver ev g = (g', outs) \<Longrightarrow> gateway_typed g'"
  by (auto simp: deliver_def gateway_typed_def book_update_def offer_event_def Let_def case_prod_unfold typed)

lemma entry_loop_typed:
  assumes "\<And>b x ev. book_typed b \<Longrightarrow> f b x = EntryEvent ev \<Longrightarrow> event_ok ev"
  shows "entry_loop f n grps g = (g', outs, err) \<Longrightarrow> gateway_typed g \<Longrightarrow> gateway_typed g'"
  using assms
proof (induction f n grps g arbitrary: g' outs err rule: entry_loop.induct)
  case (3 f n x grps g)
  show ?case
  proof (cases "f (gw_book g) x")
    case (EntryEvent ev)
    obtain g1 outs1 where d: "deliver ev g = (g1, outs1)" by fastforce
    obtain outs2 where l: "entry_loop f n grps g1 = (g', outs2, err)"
      using 3(3) EntryEvent d by (auto simp: case_prod_unfold Let_def prod_eq_iff)
    have "event_ok ev" using 3(5) [OF _ EntryEvent] 3(4) by (simp add: gateway_typed_def)
    from deliver_typed [OF 3(4) this d] have "gateway_typed g1" .
    then show ?thesis by (rule 3(2) [OF EntryEvent d [symmetric] refl l]) (rule 3(5))
  qed (use 3 in auto)
qed auto

lemma read_entries_typed:
  assumes "\<And>b x ev. book_typed b \<Longrightarrow> f b x = EntryEvent ev \<Longrightarrow> event_ok ev"
  shows "read_entries q f m g = (g', outs, err) \<Longrightarrow> gateway_typed g \<Longrightarrow> gateway_typed g'"
  using entry_loop_typed [of f] assms by (fastforce simp: read_entries_def split: sum.splits)

lemma surjective_tuple: "r = (fst r, fst (snd r), snd (snd r))"
  by simp

lemma gateway_typed_message:
  assumes "gateway_typed g" "md_fromApp q m ts g = (g', outs, err)"
  shows "gateway_typed g'"
proof -
  have X: "on_incremental_refresh q m ts g = (g1, os, e) \<Longrightarrow> gateway_typed g1" for g1 os e
    unfolding on_incremental_refresh_def
    by (rule read_entries_typed [OF _ _ assms(1)]) (auto intro: incremental_typed)
  have c: "gateway_typed (g\<lparr>gw_book := book_clear (gw_book g)\<rparr>)" using assms(1) by (simp add: gateway_typed_def typed)
  have W: "on_snapshot q m ts g = (g1, os, e) \<Longrightarrow> gateway_typed g1" for g1 os e
    unfolding on_snapshot_def by (rule read_entries_typed [OF _ _ c]) (auto intro: snapshot_typed)
  have Y: "on_md_reject q m g = (g1, os, e) \<Longrightarrow> gateway_typed g1" for g1 os e
    using assms(1) by (auto simp: on_md_reject_def gateway_typed_def Let_def split: option.splits sum.splits)
  show ?thesis using assms X [OF surjective_tuple] W [OF surjective_tuple] Y [OF surjective_tuple]
    by (auto simp: md_fromApp_def Let_def case_prod_unfold split: sum.splits if_splits)
qed

lemma gateway_typed_session [typed]:
  "gateway_typed g \<Longrightarrow> gateway_typed (fst (md_onLogon net sid now g))"
  "gateway_typed g \<Longrightarrow> gateway_typed (md_onLogout now g)"
  "gateway_typed g \<Longrightarrow> gateway_typed (fst (md_fromAdmin m g))"
  by (auto simp: gateway_typed_def md_onLogon_def subscribe_market_data_def md_onLogout_def md_fromAdmin_def
      split: send_result.splits sum.splits option.splits)

section \<open>The engine\<close>

definition system_typed :: "trading_system \<Rightarrow> bool" where
  "system_typed y \<longleftrightarrow> gateway_typed (sy_gateway y) \<and> engine_typed (sy_signals y) \<and> oms_typed (sy_oms y)"

lemma system_typedD:
  assumes "system_typed y"
  shows "gateway_typed (sy_gateway y)" "engine_typed (sy_signals y)" "oms_typed (sy_oms y)"
    "book_typed (gw_book (sy_gateway y))" "i64_ok (sig_l1_price (se_last_signal (sy_signals y)))"
    "order_ok (rk_open_order (om_risk (sy_oms y)))"
  using assms
  by (simp_all add: system_typed_def gateway_typed_def engine_typed_def signal_ok_def oms_typed_def risk_typed_def)

text \<open>The events a thread holds in its local variables count too.\<close>

definition threads_typed :: "threads \<Rightarrow> bool" where
  "threads_typed h \<longleftrightarrow> system_typed (th_sys h) \<and>
     (case th_alpha h of AtTimer ev _ \<Rightarrow> event_ok ev | AtCancel ev _ \<Rightarrow> event_ok ev | AtClose ev _ \<Rightarrow> event_ok ev
      | AtSignal ev _ \<Rightarrow> event_ok ev | _ \<Rightarrow> True)"

lemma handler_typed:
  assumes "system_typed y" "system_step q y e = (y', outs)" "\<And>t. e \<noteq> AlphaTurn t"
  shows "system_typed y'"
proof (cases e)
  case (MdMessage m ts)
  obtain g os err where r: "md_fromApp q m ts (sy_gateway y) = (g, os, err)" by (metis prod_cases3)
  then have "y' = y\<lparr>sy_gateway := g\<rparr>" using assms(2) MdMessage by simp
  then show ?thesis using gateway_typed_message [OF system_typedD(1) [OF assms(1)] r] assms(1)
    by (simp add: system_typed_def)
next
  case (TradeMessage m ts)
  obtain s os err where r: "oms_fromApp q m ts (sy_oms y) = (s, os, err)" by (metis prod_cases3)
  then have "y' = y\<lparr>sy_oms := s\<rparr>" using assms(2) TradeMessage by simp
  then show ?thesis using fromApp_typed [OF system_typedD(3) [OF assms(1)] r] assms(1)
    by (simp add: system_typed_def)
qed (use assms in \<open>auto simp: system_typed_def oms_typed_def oms_onLogon_def oms_onLogout_def typed
       case_prod_unfold Let_def\<close>)

lemma pop_typed:
  assumes "threads_typed h" "th_alpha h = AtPop"
  shows "threads_typed (pop_step t h)"
proof (cases "gw_queue (sy_gateway (th_sys h))")
  case None
  then show ?thesis using assms by (simp add: pop_step_def)
next
  case (Some queue)
  then have qt: "queue_typed queue"
    using assms(1) by (simp add: threads_typed_def system_typed_def gateway_typed_def)
  obtain queue' res where pop: "spsc_pop kMdQueueCapacity queue = (queue', res)" by fastforce
  then show ?thesis using assms Some queue_typed_pop [OF qt pop]
    by (cases res) (simp_all add: pop_step_def threads_typed_def system_typed_def gateway_typed_def)
qed

lemma cancel_typed_step:
  assumes "threads_typed h" "event_ok ev" "cancel_step t ev now h = (h', outs)"
  shows "threads_typed h'"
proof -
  obtain s os where r: "cancel_order (tn_cancel_net t) (tn_cancel_utc t)
      (ord_clordid (rk_open_order (om_risk (sy_oms (th_sys h))))) (sy_oms (th_sys h)) = (s, os)" by fastforce
  then have h': "h' = h\<lparr>th_sys := (th_sys h)\<lparr>sy_oms := s\<rparr>, th_alpha := AtClose ev now\<rparr>"
    using assms(3) by (simp add: cancel_step_def)
  have "oms_typed (sy_oms (th_sys h))" using assms(1) by (simp add: threads_typed_def system_typed_def)
  from cancel_typed_oms [OF this r] show ?thesis
    using assms(1,2) by (simp add: h' threads_typed_def system_typed_def)
qed

lemma close_typed_step:
  assumes "threads_typed h" "event_ok ev" "close_step q t ev now h = (h', outs)"
  shows "threads_typed h'"
proof -
  let ?y = "th_sys h"
  let ?o = "rk_open_order (om_risk (sy_oms ?y))" and ?b = "gw_book (sy_gateway ?y)"
  obtain s os i where r: "send_ioc q (tn_close_net t) (tn_close_utc t) (close_side ?o) (ord_qty ?o)
      (if ord_side ?o = Buy then best_bid ?b else best_ask ?b) now (sy_oms ?y) = (s, os, i)" by (metis prod_cases3)
  then have h': "h' = h\<lparr>th_sys := ?y\<lparr>sy_oms := s\<rparr>, th_alpha := AtSignal ev now\<rparr>"
    using assms(3) by (simp add: close_step_def Let_def)
  have y: "system_typed ?y" using assms(1) by (simp add: threads_typed_def)
  have "i64_ok (ord_qty ?o)" "i64_ok (if ord_side ?o = Buy then best_bid ?b else best_ask ?b)"
    using system_typedD [OF y] best_typed by (auto simp: order_ok_def)
  from send_typed [OF system_typedD(3) [OF y] this r] show ?thesis
    using y assms(2) by (simp add: h' threads_typed_def system_typed_def)
qed

lemma signal_typed_step:
  assumes "threads_typed h"
  shows "threads_typed (signal_step ev now h)"
proof -
  have y: "system_typed (th_sys h)" using assms by (simp add: threads_typed_def)
  from engine_typed_event [OF system_typedD(2,4) [OF y], of ev] show ?thesis
    using y by (simp add: signal_step_def threads_typed_def system_typed_def case_prod_unfold Let_def)
qed

lemma send_typed_step:
  assumes "threads_typed h" "send_step q t now h = (h', outs)"
  shows "threads_typed h'"
proof -
  let ?y = "th_sys h"
  let ?sig = "se_last_signal (sy_signals ?y)"
  obtain s os i where r: "send_ioc q (tn_entry_net t) (tn_entry_utc t)
      (if sig_direction ?sig = DirBuy then Buy else Sell) 1 (sig_l1_price ?sig) now (sy_oms ?y) = (s, os, i)"
    by (metis prod_cases3)
  then have h': "h' = h\<lparr>th_sys := ?y\<lparr>sy_oms := s\<rparr>, th_alpha := AtPop\<rparr>"
    using assms(2) by (simp add: send_step_def Let_def)
  have y: "system_typed ?y" using assms(1) by (simp add: threads_typed_def)
  from send_typed [OF system_typedD(3) [OF y] i64_ok_1 system_typedD(5) [OF y] r] show ?thesis
    using y by (simp add: h' threads_typed_def system_typed_def)
qed

lemma alpha_typed_step:
  assumes "threads_typed h" "alpha_step q t h = (h', outs)"
  shows "threads_typed h'"
proof (cases "th_alpha h")
  case AtPop
  then show ?thesis using assms pop_typed [of h t] by (simp add: alpha_step_def)
next
  case (AtTimer ev now)
  then show ?thesis using assms by (auto simp: alpha_step_def threads_typed_def split: option.splits)
next
  case (AtCancel ev now)
  then show ?thesis using assms cancel_typed_step [of h ev t now h' outs] by (simp add: alpha_step_def threads_typed_def)
next
  case (AtClose ev now)
  then show ?thesis using assms close_typed_step [of h ev q t now h' outs] by (simp add: alpha_step_def threads_typed_def)
next
  case (AtSignal ev now)
  then show ?thesis using assms signal_typed_step [of h ev now] by (auto simp: alpha_step_def)
next
  case (AtCheck now)
  then show ?thesis using assms by (auto simp: alpha_step_def threads_typed_def split: if_splits)
next
  case (AtSend now)
  then show ?thesis using assms send_typed_step [of h q t now h' outs] by (simp add: alpha_step_def)
qed

lemma thread_typed_step:
  assumes "threads_typed h" "thread_step q h e = (h', outs)"
  shows "threads_typed h'"
proof (cases e)
  case (AlphaStep t)
  then show ?thesis using alpha_typed_step assms by simp
next
  case (Handler x)
  from assms(2) [unfolded this] show ?thesis
  proof (cases rule: handler_step)
    case (handled y os)
    then show ?thesis using assms(1) handler_typed [OF _ handled(1,4)] by (simp add: threads_typed_def)
  qed (use assms(1) in simp)
qed

lemma system_init_typed:
  assumes "length buf = unat kMdQueueCapacity" "list_all event_ok buf"
  shows "system_typed (system_init settings buf)"
proof -
  have "queue_typed (spsc_init buf)"
    using spsc_init_inv [of kMdQueueCapacity buf] assms capacity_2_14 by (simp add: queue_typed_def spsc_init_def)
  moreover have "is_f53 (3 / 2)" using is_f53_dyadic [of 3 "- 1"] by (simp add: pow2_def)
  then have "f64_ok (Fin (3 / 2))" using le_f64_limit [of "3 / 2" 1] by simp
  moreover have "f64_ok (Fin 50)" by (rule f64_ok_literal) simp
  ultimately show ?thesis using engine_typed_new [of "Fin 50" "Fin (3 / 2)"]
    by (simp add: system_typed_def system_init_def gateway_typed_def gateway_new_def signal_engine_default_def
        set_reject_callback_def set_fill_callback_def oms_typed_def oms_init_def risk_typed_init Let_def)
qed

text \<open>
  C6: The engine never leaves its types: from its start, whatever arrives on either session, in
  whatever interleaving with the alpha thread, with startup and with shutdown, every price and
  quantity in the books, orders, signals and queued events is an \<open>int64_t\<close>, every level of the
  book positive and its sides sorted, every \<open>double\<close> a double, every ring and queue index inside its array,
  and the slippage counter below its limit.
\<close>

theorem process_stays_typed:
  assumes "length buf = unat kMdQueueCapacity" and "list_all event_ok buf"
    and "process_run q throws (process_init buf md_settings argv) evs = (p, outs)"
  shows "threads_typed (ep_threads p)"
proof -
  obtain tevs where r: "thread_run q (ep_threads (process_init buf md_settings argv)) tevs = (ep_threads p, tradings outs)"
    using process_run_reaches [OF assms(3)] by (auto simp: threads_reach_def)
  have init: "threads_typed (ep_threads (process_init buf md_settings argv))"
    using system_init_typed [OF assms(1,2)] by (simp add: process_init_def threads_typed_def)
  show ?thesis by (rule thr.run_invariant [of threads_typed, OF _ r init]) (rule thread_typed_step)
qed

theorem process_stays_typed_witness:
  "threads_typed (ep_threads (fst (process_run sample_quickfix (\<lambda>_. False) (process_init sample_cells None sample_argv)
     (replicate 8 MainStep @ [Session (MdMessage sample_snapshot 1000), AlphaThread sample_turn]))))"
  by (rule process_stays_typed [OF _ _ prod.collapse [symmetric]])
    (simp_all add: sample_cells_def list_all_iff)

end
