(* ===== verification/Number_Text.thy ===== *)
theory Number_Text
  imports Binary64 Decimal
begin

text \<open>
  The conversions between doubles and text the backtest uses: \<open>std::stod\<close> on the command line,
  the format \<open>{:.1f}\<close> of the report and the default format of \<open>std::ostream\<close> (six significant
  digits) in the CSV file.  All are exact: a decimal text denotes a rational that is rounded
  once, and a double is a rational whose decimal expansion is rounded half to even.
\<close>

section \<open>Reading: std::stod\<close>

definition lower :: "char \<Rightarrow> char" where
  "lower c = (if 65 \<le> (of_char c :: nat) \<and> (of_char c :: nat) \<le> 90 then char_of ((of_char c :: nat) + 32) else c)"

definition is_hex :: "char \<Rightarrow> bool" where
  "is_hex c \<longleftrightarrow> is_digit c \<or> (97 \<le> (of_char (lower c) :: nat) \<and> (of_char (lower c) :: nat) \<le> 102)"

definition hex_value :: "char \<Rightarrow> nat" where
  "hex_value c = (if is_digit c then of_char c - 48 else of_char (lower c) - 87)"

definition number_value :: "nat \<Rightarrow> string \<Rightarrow> nat" where
  "number_value base s = foldl (\<lambda>a c. base * a + hex_value c) 0 s"

text \<open>Digits, a point, digits; at least one digit in all.  The rest of the text is returned.\<close>

definition read_mantissa :: "(char \<Rightarrow> bool) \<Rightarrow> nat \<Rightarrow> string \<Rightarrow> (rat \<times> string) option" where
  "read_mantissa digit base s =
     (let whole = takeWhile digit s; rest = dropWhile digit s;
          frac = (if rest \<noteq> [] \<and> hd rest = CHR ''.'' then takeWhile digit (tl rest) else []);
          rest = (if rest \<noteq> [] \<and> hd rest = CHR ''.'' then dropWhile digit (tl rest) else rest)
      in if whole = [] \<and> frac = [] then None
         else Some (of_nat (number_value base (whole @ frac)) / of_nat base ^ length frac, rest))"

text \<open>An exponent (\<open>mark\<close> is \<open>e\<close> or \<open>p\<close>); without a digit after the mark there is none.\<close>

definition read_exponent :: "char \<Rightarrow> string \<Rightarrow> int" where
  "read_exponent mark s =
     (if s = [] \<or> lower (hd s) \<noteq> mark then 0
      else (let body = tl s;
                neg = (body \<noteq> [] \<and> hd body = CHR ''-'');
                ds = takeWhile is_digit
                  (if body \<noteq> [] \<and> (hd body = CHR ''-'' \<or> hd body = CHR ''+'') then tl body else body)
            in if neg then - int (digits_value ds) else int (digits_value ds)))"

definition starts_with :: "string \<Rightarrow> string \<Rightarrow> bool" where
  "starts_with p s \<longleftrightarrow> take (length p) (map lower s) = p"

text \<open>The exact value of a finite number, decimal or hexadecimal.\<close>

definition read_finite :: "string \<Rightarrow> rat option" where
  "read_finite s =
     (case (if starts_with ''0x'' s then read_mantissa is_hex 16 (drop 2 s) else None) of
        Some (m, rest) \<Rightarrow> Some (m * 2 powi read_exponent (CHR ''p'') rest)
      | None \<Rightarrow>
          (case read_mantissa is_digit 10 s of
             None \<Rightarrow> None
           | Some (m, rest) \<Rightarrow> Some (m * 10 powi read_exponent (CHR ''e'') rest)))"

text \<open>
  What \<open>strtod\<close> reports as \<open>ERANGE\<close>: overflow, and a result below the normal numbers that is
  not exact.  \<open>None\<close> stands for \<open>std::invalid_argument\<close> and \<open>std::out_of_range\<close>.
\<close>

definition out_of_range :: "rat \<Rightarrow> bool" where
  "out_of_range x \<longleftrightarrow> f64_limit \<le> \<bar>rnd x\<bar> \<or> (\<bar>x\<bar> < pow2 (- 1022) \<and> rnd x \<noteq> x)"

definition stod :: "string \<Rightarrow> f64 option" where
  "stod s0 =
     (let s = dropWhile is_space s0;
          neg = (s \<noteq> [] \<and> hd s = CHR ''-'');
          body = (if s \<noteq> [] \<and> (hd s = CHR ''-'' \<or> hd s = CHR ''+'') then tl s else s)
      in if starts_with ''inf'' body then Some (if neg then NegInf else PosInf)
         else if starts_with ''nan'' body then Some NaN
         else (case read_finite body of
                 None \<Rightarrow> None
               | Some x \<Rightarrow> if out_of_range x then None
                           else Some (round64 (if neg then - x else x))))"

section \<open>Writing\<close>

definition pad_zeros :: "nat \<Rightarrow> string \<Rightarrow> string" where
  "pad_zeros n s = replicate (n - length s) (CHR ''0'') @ s"

text \<open>\<open>m\<close> units of the \<open>k\<close>-th decimal place.\<close>

definition point_text :: "nat \<Rightarrow> nat \<Rightarrow> string" where
  "point_text k m =
     (if k = 0 then decimal m else decimal (m div 10 ^ k) @ ''.'' @ pad_zeros k (decimal (m mod 10 ^ k)))"

definition special_text :: "f64 \<Rightarrow> string" where
  "special_text x = (case x of NaN \<Rightarrow> ''nan'' | PosInf \<Rightarrow> ''inf'' | _ \<Rightarrow> ''-inf'')"

definition sign_text :: "rat \<Rightarrow> string" where
  "sign_text r = (if r < 0 then ''-'' else [])"

text \<open>The format \<open>{:.kf}\<close>.\<close>

definition fixed_text :: "nat \<Rightarrow> f64 \<Rightarrow> string" where
  "fixed_text k x = (case x of Fin r \<Rightarrow> sign_text r @ point_text k (nat (rne (\<bar>r\<bar> * 10 ^ k))) | _ \<Rightarrow> special_text x)"

text \<open>The decimal exponent of a positive number: \<open>10 ^ e \<le> x < 10 ^ (e + 1)\<close>.\<close>

definition expo10 :: "rat \<Rightarrow> int" where
  "expo10 x =
     (if 1 \<le> x then int (length (decimal (nat \<lfloor>x\<rfloor>))) - 1
      else (let k = int (length (decimal (nat \<lfloor>1 / x\<rfloor>))) - 1 in if x * 10 ^ nat k = 1 then - k else - k - 1))"

definition strip_zeros :: "string \<Rightarrow> string" where
  "strip_zeros s =
     (if CHR ''.'' \<in> set s
      then (let t = rev (dropWhile (\<lambda>c. c = CHR ''0'') (rev s))
            in if t \<noteq> [] \<and> last t = CHR ''.'' then butlast t else t)
      else s)"

text \<open>The default format of a stream, \<open>%g\<close> with six significant digits.\<close>

definition general_text :: "f64 \<Rightarrow> string" where
  "general_text x =
     (case x of
        Fin r \<Rightarrow>
          if r = 0 then ''0''
          else (let e0 = expo10 \<bar>r\<bar>; m0 = nat (rne (\<bar>r\<bar> * 10 powi (5 - e0)));
                    e = (if m0 = 1000000 then e0 + 1 else e0); m = (if m0 = 1000000 then 100000 else m0)
                in sign_text r @
                   (if e < - 4 \<or> 6 \<le> e
                    then strip_zeros (point_text 5 m) @ (if e < 0 then ''e-'' else ''e+'') @ pad_zeros 2 (decimal (nat \<bar>e\<bar>))
                    else strip_zeros (point_text (nat (5 - e)) m)))
      | _ \<Rightarrow> special_text x)"

section \<open>Reading back what was written\<close>

lemma digit_values: "list_all is_digit s \<Longrightarrow> number_value 10 s = digits_value s"
proof (induction s rule: rev_induct)
  case (snoc c s)
  then show ?case by (simp add: number_value_def digits_value_def hex_value_def list_all_iff)
qed (simp add: number_value_def digits_value_def)

lemma digits_value_append: "digits_value (s @ t) = digits_value s * 10 ^ length t + digits_value t"
proof (induction t rule: rev_induct)
  case (snoc c t)
  then show ?case by (simp add: digits_value_snoc flip: append_assoc)
qed (simp add: digits_value_def)

lemma digits_value_pad [simp]: "digits_value (pad_zeros k s) = digits_value s"
proof -
  have "digits_value (replicate n (CHR ''0'')) = 0" for n
    by (induction n) (simp_all add: digits_value_def)
  then show ?thesis by (simp add: pad_zeros_def digits_value_append)
qed

lemma pad_digits: "list_all is_digit s \<Longrightarrow> list_all is_digit (pad_zeros k s)"
  by (auto simp: pad_zeros_def list_all_iff is_digit_def)

lemma length_pad: "length s \<le> k \<Longrightarrow> length (pad_zeros k s) = k"
  by (simp add: pad_zeros_def)

lemma length_decimal_le: "0 < k \<Longrightarrow> n < 10 ^ k \<Longrightarrow> length (decimal n) \<le> k"
  using length_decimal [of n "k - 1"] by simp

lemma takeWhile_digits: "list_all is_digit s \<Longrightarrow> \<not> is_digit c \<Longrightarrow>
    takeWhile is_digit (s @ c # t) = s \<and> dropWhile is_digit (s @ c # t) = c # t"
  by (simp add: list_all_iff takeWhile_append dropWhile_append)

lemma all_digits: "list_all is_digit s \<Longrightarrow> takeWhile is_digit s = s \<and> dropWhile is_digit s = []"
  by (simp add: list_all_iff takeWhile_eq_all_conv)

lemma point_not_digit [simp]: "\<not> is_digit (CHR ''.'')"
  by (simp add: is_digit_def)

lemma read_decimal: "read_mantissa is_digit 10 (decimal n) = Some (of_nat n, [])"
  using all_digits [OF decimal_digits [of n]] digit_values [OF decimal_digits [of n]]
  by (simp add: read_mantissa_def Let_def del: takeWhile_eq_all_conv dropWhile_eq_Nil_conv)

lemma read_point: "0 < k \<Longrightarrow> read_mantissa is_digit 10 (point_text k m) = Some (of_nat m / 10 ^ k, [])"
proof -
  assume k: "0 < k"
  let ?w = "decimal (m div 10 ^ k)" and ?f = "pad_zeros k (decimal (m mod 10 ^ k))"
  have f: "list_all is_digit ?f" "length ?f = k"
    using pad_digits decimal_digits length_pad length_decimal_le [OF k, of "m mod 10 ^ k"] by simp_all
  have "number_value 10 (?w @ ?f) = m"
    using digit_values [of "?w @ ?f"] decimal_digits f by (simp add: digits_value_append div_mult_mod_eq)
  then show ?thesis
    using k f takeWhile_digits [OF decimal_digits point_not_digit, of "m div 10 ^ k" ?f] all_digits [OF f(1)]
    by (simp add: read_mantissa_def point_text_def Let_def del: takeWhile_eq_all_conv dropWhile_eq_Nil_conv)
qed

lemma hex_prefix_has_x: "starts_with ''0x'' s \<Longrightarrow> \<exists>c \<in> set s. lower c = CHR ''x''"
  by (cases s rule: list.exhaust; cases "tl s") (auto simp: starts_with_def)

lemma lower_digit: "is_digit c \<Longrightarrow> lower c = c"
  by (simp add: is_digit_def lower_def)

lemma decimal_text_not_hex:
  assumes "\<And>c. c \<in> set s \<Longrightarrow> is_digit c \<or> c = CHR ''.''"
  shows "\<not> starts_with ''0x'' s"
proof
  assume "starts_with ''0x'' s"
  then obtain c where c: "c \<in> set s" "lower c = CHR ''x''" using hex_prefix_has_x by blast
  have "lower (CHR ''.'') = CHR ''.''" by (simp add: lower_def)
  then have "lower c = c" using assms [OF c(1)] lower_digit by blast
  then show False using assms [OF c(1)] c(2) by (auto simp: is_digit_def)
qed

lemma point_text_chars: "c \<in> set (point_text k m) \<Longrightarrow> is_digit c \<or> c = CHR ''.''"
  using decimal_digits pad_digits [OF decimal_digits, of k "m mod 10 ^ k"]
  by (auto simp: point_text_def list_all_iff split: if_splits)

text \<open>
  A nonnegative figure printed with \<open>k\<close> decimals reads back as a number at most half a unit
  of the last printed place away.
\<close>

lemma fixed_text_error:
  assumes "0 < k" and "0 \<le> r"
  shows "\<exists>y. read_finite (fixed_text k (Fin r)) = Some y \<and> \<bar>y - r\<bar> \<le> 1 / (2 * 10 ^ k)"
proof -
  let ?m = "rne (r * 10 ^ k)"
  have m: "0 \<le> ?m" using rne_mono [of 0 "r * 10 ^ k"] assms(2) rne_of_int [of 0] by simp
  have "\<bar>of_int ?m - r * 10 ^ k\<bar> \<le> 1 / 2" by (rule rne_error)
  then have "\<bar>of_int ?m / 10 ^ k - r\<bar> \<le> 1 / (2 * 10 ^ k)"
    by (simp add: field_simps abs_le_iff)
  moreover have "read_finite (fixed_text k (Fin r)) = Some (of_int ?m / 10 ^ k)"
    using assms m read_point [OF assms(1), of "nat ?m"] decimal_text_not_hex [of "point_text k (nat ?m)"] point_text_chars
    by (simp add: read_finite_def fixed_text_def sign_text_def read_exponent_def)
  ultimately show ?thesis by blast
qed

text \<open>A whole number on the command line is taken exactly.\<close>

lemma stod_decimal: "n \<le> 2 ^ 53 \<Longrightarrow> stod (decimal n) = Some (Fin (of_nat n))"
proof -
  assume n: "n \<le> 2 ^ 53"
  then have i: "\<bar>int n\<bar> \<le> 2 ^ 53" by simp
  obtain c cs where d: "decimal n = c # cs" by (cases "decimal n") auto
  then have c: "is_digit c" using decimal_digits [of n] by simp
  then have hd: "\<not> is_space c" "c \<noteq> CHR ''-''" "c \<noteq> CHR ''+''" "lower c \<noteq> CHR ''i''" "lower c \<noteq> CHR ''n''"
    by (auto simp: is_digit_def is_space_def lower_def)
  have "\<not> starts_with ''0x'' (decimal n)"
    using decimal_text_not_hex [of "decimal n"] decimal_digits by (auto simp: list_all_iff)
  then have "read_finite (decimal n) = Some (of_nat n)"
    by (simp add: read_finite_def read_decimal read_exponent_def)
  moreover have "is_f53 (of_nat n)" using is_f53_int [OF i] by simp
  moreover have "\<bar>of_nat n :: rat\<bar> < f64_limit" using abs_lt_1024 [OF i] by simp
  ultimately show ?thesis
    using hd by (simp add: stod_def d starts_with_def Let_def out_of_range_def linorder_not_le)
qed

text \<open>No text these functions write contains a separator.\<close>

definition plain :: "char \<Rightarrow> bool" where
  "plain c \<longleftrightarrow> c \<noteq> CHR '','' \<and> (of_char c :: nat) \<noteq> 10"

lemma plain_digit: "is_digit c \<Longrightarrow> plain c"
  by (auto simp: is_digit_def plain_def)

lemma plain_decimal: "list_all plain (decimal n)"
  using decimal_digits [of n] plain_digit by (auto simp: list_all_iff)

lemma strip_zeros_subset: "set (strip_zeros s) \<subseteq> set s"
proof -
  let ?t = "rev (dropWhile (\<lambda>c. c = CHR ''0'') (rev s))"
  have "set ?t \<subseteq> set s" using set_dropWhileD [of _ "\<lambda>c. c = CHR ''0''" "rev s"] unfolding set_rev by blast
  moreover from this have "set (butlast ?t) \<subseteq> set s" using in_set_butlastD [of _ ?t] by blast
  moreover have "strip_zeros s \<in> {s, ?t, butlast ?t}" unfolding strip_zeros_def Let_def by (simp only: insert_iff split: if_split) blast
  ultimately show ?thesis by (metis insertE singletonD order_refl)
qed

lemma plain_strip: "list_all plain s \<Longrightarrow> list_all plain (strip_zeros s)"
  using strip_zeros_subset unfolding list_all_iff by blast

lemma plain_point: "list_all plain (point_text k m)"
proof -
  have "plain (CHR ''.'')" by (simp add: plain_def)
  then show ?thesis using point_text_chars [of _ k m] plain_digit unfolding list_all_iff by blast
qed

lemma plain_pad: "list_all plain s \<Longrightarrow> list_all plain (pad_zeros k s)"
proof -
  have "list_all plain (replicate n (CHR ''0''))" for n by (induction n) (simp_all add: plain_def)
  then show "list_all plain s \<Longrightarrow> ?thesis" by (simp add: pad_zeros_def)
qed

lemma plain_general: "list_all plain (general_text x)"
proof (cases x)
  case (Fin r)
  have "list_all plain (sign_text r)" by (simp add: sign_text_def plain_def)
  then show ?thesis using Fin plain_strip [OF plain_point] plain_pad [OF plain_decimal]
    by (simp add: general_text_def Let_def) (simp add: plain_def)
qed (simp_all add: general_text_def special_text_def plain_def)

end
