(* ===== verification/Backtest_Main.thy ===== *)
theory Backtest_Main
  imports Backtest Number_Text App_Main
begin

text \<open>
  The \<open>main\<close> function of \<open>apps/backtest/main.cpp\<close> around the replay of theory \<open>Backtest\<close>: its
  command line, the progress lines, the report and the CSV file.  The log reader is not among
  the sources: what it finds under a path (the number of records it announces and the events
  it returns, or nothing when its constructor throws) is a parameter, and so is which files
  can be written.  Log lines are given without the time stamp of the logging library.
\<close>

section \<open>Command line\<close>

record backtest_config =
  bc_log_path :: string
  bc_thresh_delta :: f64
  bc_csv_path :: string

text \<open>There is no \<open>try\<close> block: an exception ends the program in \<open>std::terminate\<close>.\<close>

definition backtest_args :: "string list \<Rightarrow> exit_status + backtest_config" where
  "backtest_args argv =
     (if length argv < 2 then Inl ExitFailure
      else (case (if 3 \<le> length argv then stod (argv ! 2) else Some (Fin 50)) of
          None \<Rightarrow> Inl Terminated
        | Some thresh \<Rightarrow> Inr \<lparr> bc_log_path = argv ! 1, bc_thresh_delta = thresh,
            bc_csv_path = (if 4 \<le> length argv then argv ! 3 else []) \<rparr>))"

section \<open>Report\<close>

definition u64_text :: "u64 \<Rightarrow> string" where
  "u64_text n = decimal (unat n)"

definition progress_lines :: "nat \<Rightarrow> string list" where
  "progress_lines n = map (\<lambda>i. ''Processed '' @ decimal (500000 * (i + 1)) @ '' records ...'') [0..<n div 500000]"

definition report_lines :: "u64 \<Rightarrow> bt_result \<Rightarrow> string list" where
  "report_lines rec r =
     [''=== Backtest Complete ==='',
      ''Records processed : '' @ u64_text rec,
      ''Total signals      : '' @ u64_text (br_total_signals r) @ '' (BUY='' @ u64_text (br_buy_signals r)
        @ '' SELL='' @ u64_text (br_sell_signals r) @ '')'',
      ''Dual-factor win rate: '' @ fixed_text 1 (win_rate r) @ ''%  ('' @ u64_text (br_wins r) @ ''/''
        @ u64_text (br_wins r + br_losses r) @ '' evaluated)'',
      ''Single-factor winrate:'' @ fixed_text 1 (sf_win_rate r) @ ''%  ('' @ u64_text (br_sf_wins r) @ ''/''
        @ u64_text (br_sf_total r) @ '' evaluated)'',
      ''Avg price move     : '' @ fixed_text 3 (avg_move r) @ '' ticks'',
      ''Dual vs single improvement: '' @ fixed_text 1 (win_rate r - sf_win_rate r) @ ''pp'']"

definition newline :: string where
  "newline = [CHR 0x0A]"

definition csv_row :: "string \<Rightarrow> string \<Rightarrow> string" where
  "csv_row name val = name @ '','' @ val @ newline"

definition csv_text :: "u64 \<Rightarrow> bt_result \<Rightarrow> string" where
  "csv_text rec r =
     csv_row ''metric'' ''value'' @
     csv_row ''records'' (u64_text rec) @
     csv_row ''total_signals'' (u64_text (br_total_signals r)) @
     csv_row ''buy_signals'' (u64_text (br_buy_signals r)) @
     csv_row ''sell_signals'' (u64_text (br_sell_signals r)) @
     csv_row ''wins'' (u64_text (br_wins r)) @
     csv_row ''losses'' (u64_text (br_losses r)) @
     csv_row ''win_rate_pct'' (general_text (win_rate r)) @
     csv_row ''sf_wins'' (u64_text (br_sf_wins r)) @
     csv_row ''sf_total'' (u64_text (br_sf_total r)) @
     csv_row ''sf_win_rate_pct'' (general_text (sf_win_rate r)) @
     csv_row ''avg_move_ticks'' (general_text (avg_move r))"

section \<open>The program\<close>

text \<open>How it ends, the lines it logs, and the file it writes.\<close>

type_synonym backtest_outcome = "exit_status \<times> string list \<times> (string \<times> string) option"

definition backtest_main ::
  "(string \<Rightarrow> (u64 \<times> lob_event list) option) \<Rightarrow> (string \<Rightarrow> bool) \<Rightarrow> string list \<Rightarrow> backtest_outcome" where
  "backtest_main reader writable argv =
     (case backtest_args argv of
        Inl st \<Rightarrow> (st, [], None)
      | Inr cfg \<Rightarrow>
          (let loading = ''Loading LOB log: '' @ bc_log_path cfg
           in case reader (bc_log_path cfg) of
                None \<Rightarrow> (Terminated, [loading], None)
              | Some (available, evs) \<Rightarrow>
                  (let r = bt_result (bt_run (backtest_init (bc_thresh_delta cfg)) evs);
                       rec = of_nat (length evs);
                       csv = bc_csv_path cfg;
                       lines = [loading, ''Records available: '' @ u64_text available]
                         @ progress_lines (length evs) @ report_lines rec r
                   in if csv = [] then (ExitSuccess, lines, None)
                      else (ExitSuccess, lines @ [''CSV written to: '' @ csv],
                            if writable csv then Some (csv, csv_text rec r) else None))))"

section \<open>The CSV file reads back\<close>

text \<open>A reader: the rows, each split at its first comma, as a map from names to values.\<close>

fun csv_rows :: "string \<Rightarrow> string \<Rightarrow> string list" where
  "csv_rows acc [] = (if acc = [] then [] else [rev acc])"
| "csv_rows acc (c # s) = (if [c] = newline then rev acc # csv_rows [] s else csv_rows (c # acc) s)"

definition split_row :: "string \<Rightarrow> string \<times> string" where
  "split_row row = (takeWhile (\<lambda>c. c \<noteq> CHR '','') row, tl (dropWhile (\<lambda>c. c \<noteq> CHR '','') row))"

definition csv_value :: "string \<Rightarrow> string \<Rightarrow> string option" where
  "csv_value text key = map_of (map split_row (csv_rows [] text)) key"

definition csv_counter :: "string \<Rightarrow> string \<Rightarrow> u64 option" where
  "csv_counter text key = Option.bind (csv_value text key) stoull"

lemma csv_rows_line: "list_all (\<lambda>c. [c] \<noteq> newline) s \<Longrightarrow> csv_rows acc (s @ newline @ t) = rev (rev s @ acc) # csv_rows [] t"
  by (induction s arbitrary: acc) (simp_all add: newline_def)

lemma plain_line: "list_all plain s \<Longrightarrow> list_all (\<lambda>c. [c] \<noteq> newline) s"
proof -
  have "(of_char (CHR 0x0A) :: nat) = 10" by simp
  then show "list_all plain s \<Longrightarrow> ?thesis" unfolding list_all_iff plain_def newline_def by (metis list.inject)
qed

lemma rows_of_row:
  assumes "list_all plain name" "list_all plain val"
  shows "csv_rows [] (csv_row name val @ t) = (name @ '','' @ val) # csv_rows [] t"
proof -
  have "list_all (\<lambda>c. [c] \<noteq> newline) (name @ '','' @ val)"
    using plain_line assms by (simp add: newline_def)
  from csv_rows_line [OF this, of "[]" t] show ?thesis by (simp add: csv_row_def)
qed

lemma split_row_row: "list_all plain name \<Longrightarrow> split_row (name @ CHR '','' # val) = (name, val)"
  by (induction name) (auto simp: split_row_def plain_def)

text \<open>What the rows are, as a table.\<close>

definition csv_table :: "u64 \<Rightarrow> bt_result \<Rightarrow> (string \<times> string) list" where
  "csv_table rec r =
     [(''metric'', ''value''), (''records'', u64_text rec), (''total_signals'', u64_text (br_total_signals r)),
      (''buy_signals'', u64_text (br_buy_signals r)), (''sell_signals'', u64_text (br_sell_signals r)),
      (''wins'', u64_text (br_wins r)), (''losses'', u64_text (br_losses r)),
      (''win_rate_pct'', general_text (win_rate r)), (''sf_wins'', u64_text (br_sf_wins r)),
      (''sf_total'', u64_text (br_sf_total r)), (''sf_win_rate_pct'', general_text (sf_win_rate r)),
      (''avg_move_ticks'', general_text (avg_move r))]"

lemma csv_text_table: "csv_text rec r = concat (map (\<lambda>kv. csv_row (fst kv) (snd kv)) (csv_table rec r))"
  by (simp add: csv_text_def csv_table_def)

lemma csv_rows_table:
  "list_all (\<lambda>kv. list_all plain (fst kv) \<and> list_all plain (snd kv)) kvs \<Longrightarrow>
    map split_row (csv_rows [] (concat (map (\<lambda>kv. csv_row (fst kv) (snd kv)) kvs))) = kvs"
  by (induction kvs) (simp_all add: rows_of_row split_row_row)

lemma csv_table_plain: "list_all (\<lambda>kv. list_all plain (fst kv) \<and> list_all plain (snd kv)) (csv_table rec r)"
  by (simp add: csv_table_def u64_text_def plain_decimal plain_general) (simp add: plain_def)

lemma csv_value_text: "csv_value (csv_text rec r) key = map_of (csv_table rec r) key"
  by (simp only: csv_value_def csv_text_table csv_rows_table [OF csv_table_plain])

lemma stoull_u64_text [simp]: "stoull (u64_text n) = Some n"
  using stoull_decimal [of "unat n"] unsigned_less [of n, where 'a = nat] by (simp add: u64_text_def)

text \<open>
  C29: Every counter the backtest writes to its CSV file is recovered exactly, by name, from the text
  of the file, whatever the figures between them.
\<close>

theorem csv_round_trip:
  "let text = csv_text rec r
   in csv_counter text ''records'' = Some rec \<and> csv_counter text ''total_signals'' = Some (br_total_signals r) \<and>
      csv_counter text ''buy_signals'' = Some (br_buy_signals r) \<and> csv_counter text ''sell_signals'' = Some (br_sell_signals r) \<and>
      csv_counter text ''wins'' = Some (br_wins r) \<and> csv_counter text ''losses'' = Some (br_losses r) \<and>
      csv_counter text ''sf_wins'' = Some (br_sf_wins r) \<and> csv_counter text ''sf_total'' = Some (br_sf_total r)"
  by (simp add: csv_counter_def csv_value_text) (simp add: csv_table_def)

section \<open>The figures are percentages\<close>

lemma percent_rounded:
  assumes "0 \<le> p" "p \<le> w" "0 < w"
  shows "\<exists>x. round64 (of_int (100 * p) / of_int w) = Fin x \<and> 0 \<le> x \<and> x \<le> 100"
proof -
  let ?a = "of_int (100 * p) / of_int w :: rat"
  have "(of_int p :: rat) \<le> of_int w" "0 < (of_int w :: rat)" "0 \<le> (of_int p :: rat)"
    using assms by simp_all
  then have a: "0 \<le> ?a" "?a \<le> 100" by (simp_all add: field_simps)
  have "?a \<le> pow2 200" using a(2) by (rule order_trans) (simp add: pow2_def)
  then have "round64 ?a = Fin (rnd ?a)" using round64_moderate [OF a(1)] by simp
  moreover have "0 \<le> rnd ?a \<and> rnd ?a \<le> 100"
    using rnd_between [OF is_f53_0 _ a] is_f53_int [of 100] by simp
  ultimately show ?thesis by blast
qed

lemma percentage_range:
  assumes "unat part \<le> unat whole" "unat whole < 2 ^ 46"
  shows "\<exists>x. percentage part whole = Fin x \<and> 0 \<le> x \<and> x \<le> 100"
proof (cases "0 < whole")
  case False
  then show ?thesis by (simp add: percentage_def zero_f64_def)
next
  case True
  obtain p w where pw: "uint part = p" "uint whole = w" by blast
  have u: "uint v = int (unat v)" for v :: u64 by simp
  have "int (unat whole) < int (2 ^ 46)" using assms(2) by (simp only: of_nat_less_iff)
  then have nat: "p \<le> w" "w < 2 ^ 46" "0 \<le> p"
    unfolding u pw [symmetric] using assms(1) by (simp_all only: of_nat_le_iff of_nat_power of_nat_numeral of_nat_0_le_iff)
  have w: "0 < w" using True pw by (simp add: word_less_def)
  have "Fin 100 * f64_of_int p = Fin (of_int (100 * p))" using nat f64_mult_int [of 100 p] by simp
  moreover have "f64_of_int w = Fin (of_int w)" using nat by simp
  ultimately have "percentage part whole = round64 (of_int (100 * p) / of_int w)"
    using True w by (simp only: percentage_def pw) simp
  then show ?thesis using percent_rounded [OF nat(3,1) w] by simp
qed

text \<open>
  After any log of less than \<open>2 ^ 46\<close> events both win rates lie between 0 and 100, and each is
  printed in the report with an error of at most a twentieth of a point.
\<close>

theorem report_shows_percentages:
  assumes "length evs < 2 ^ 46"
  shows "let r = bt_result (bt_run (backtest_init th) evs)
    in (\<exists>x y. win_rate r = Fin x \<and> 0 \<le> x \<and> x \<le> 100 \<and>
          read_finite (fixed_text 1 (win_rate r)) = Some y \<and> \<bar>y - x\<bar> \<le> 1 / 20) \<and>
       (\<exists>x y. sf_win_rate r = Fin x \<and> 0 \<le> x \<and> x \<le> 100 \<and>
          read_finite (fixed_text 1 (sf_win_rate r)) = Some y \<and> \<bar>y - x\<bar> \<le> 1 / 20)"
proof -
  let ?r = "bt_result (bt_run (backtest_init th) evs)"
  have "accounts (bt_result (backtest_init th)) (length (bt_pending (backtest_init th))) 0"
    by (simp add: accounts_def backtest_init_def result_init_def)
  from bt_run_accounts [OF this, of evs] assms
  have acc: "unat (br_wins ?r) \<le> unat (br_total_signals ?r)" "unat (br_total_signals ?r) < 2 ^ 46"
    "unat (br_sf_wins ?r) \<le> unat (br_sf_total ?r)" "unat (br_sf_total ?r) < 2 ^ 46"
    by (simp_all add: accounts_def)
  have printed: "\<exists>y. read_finite (fixed_text 1 (Fin x)) = Some y \<and> \<bar>y - x\<bar> \<le> 1 / 20" if "0 \<le> x" for x :: rat
    using fixed_text_error [of 1 x] that by simp
  obtain x where "win_rate ?r = Fin x" "0 \<le> x" "x \<le> 100"
    using percentage_range [OF acc(1,2)] by (auto simp: win_rate_def)
  moreover obtain z where "sf_win_rate ?r = Fin z" "0 \<le> z" "z \<le> 100"
    using percentage_range [OF acc(3,4)] by (auto simp: sf_win_rate_def)
  ultimately show ?thesis using printed by (simp add: Let_def)
qed

theorem report_shows_percentages_witness:
  "\<exists>x. win_rate (bt_result (bt_run (backtest_init (Fin 50)) sample_log)) = Fin x \<and> 0 \<le> x \<and> x \<le> 100"
proof -
  have "length sample_log < 2 ^ 46" by (simp add: sample_log_def)
  from report_shows_percentages [OF this, of "Fin 50"] show ?thesis by (auto simp: Let_def)
qed

section \<open>Failures\<close>

text \<open>
  A threshold that is no number and a log that cannot be read both end the program in
  \<open>std::terminate\<close>: no report, no file, and not the failure status.
\<close>

theorem bad_backtest_input_terminates:
  assumes "2 \<le> length argv" and "3 \<le> length argv \<and> stod (argv ! 2) = None \<or> reader (argv ! 1) = None"
  shows "let (st, lines, file) = backtest_main reader writable argv
    in st = Terminated \<and> file = None \<and> set lines \<subseteq> {''Loading LOB log: '' @ argv ! 1}"
  using assms by (auto simp: backtest_main_def backtest_args_def Let_def split: option.splits)

theorem bad_backtest_input_terminates_witness:
  "fst (backtest_main (\<lambda>_. Some (0, [])) (\<lambda>_. True) [''sq_backtest'', ''a.loblog'', ''x'']) = Terminated"
proof -
  have "stod ''x'' = None"
    by (simp add: stod_def is_space_def starts_with_def lower_def read_finite_def read_mantissa_def is_digit_def Let_def)
  then show ?thesis
    using bad_backtest_input_terminates [of "[''sq_backtest'', ''a.loblog'', ''x'']" "\<lambda>_. Some (0, [])" "\<lambda>_. True"]
    by (simp add: Let_def case_prod_unfold)
qed

text \<open>
  When the CSV file cannot be written, the program says that it was, and ends with
  \<open>EXIT_SUCCESS\<close>: the state of the stream is never looked at.
\<close>

theorem lost_csv_goes_unnoticed:
  assumes "backtest_args argv = Inr cfg" and "reader (bc_log_path cfg) = Some (available, evs)"
    and "bc_csv_path cfg \<noteq> []" and "\<not> writable (bc_csv_path cfg)"
  shows "\<exists>lines. backtest_main reader writable argv
    = (ExitSuccess, lines @ [''CSV written to: '' @ bc_csv_path cfg], None)"
  using assms by (simp add: backtest_main_def Let_def)

theorem lost_csv_goes_unnoticed_witness:
  "\<exists>lines. backtest_main (\<lambda>_. Some (0, [])) (\<lambda>_. False) [''sq_backtest'', ''a.loblog'', decimal 50, ''out.csv'']
    = (ExitSuccess, lines @ [''CSV written to: out.csv''], None)"
proof -
  have "backtest_args [''sq_backtest'', ''a.loblog'', decimal 50, ''out.csv'']
      = Inr \<lparr> bc_log_path = ''a.loblog'', bc_thresh_delta = Fin 50, bc_csv_path = ''out.csv'' \<rparr>"
    using stod_decimal [of 50] by (simp add: backtest_args_def)
  from lost_csv_goes_unnoticed [OF this, of "\<lambda>_. Some (0, [])" 0 "[]" "\<lambda>_. False"] show ?thesis by simp
qed

end
