(* ===== verification/Logger_Main.thy ===== *)
theory Logger_Main
  imports Logger_App App_Main
begin

text \<open>
  The \<open>main\<close> function of \<open>apps/logger/main.cpp\<close> around the loop of theory \<open>Logger_App\<close>: the
  command line, the startup with the exceptions it may meet, the name of the log, and the
  status the program ends with.
\<close>

record logger_config =
  lc_fix_cfg :: string
  lc_output_dir :: string

definition logger_args :: "string list \<Rightarrow> logger_config option" where
  "logger_args argv =
     (if length argv < 2 then None
      else Some \<lparr> lc_fix_cfg = argv ! 1, lc_output_dir = (if 3 \<le> length argv then argv ! 2 else ''.'') \<rparr>)"

text \<open>The steps of the startup, all inside the \<open>try\<close> block.\<close>

datatype logger_startup = LgCalibrate | LgCreateDir | LgOpenLog | LgBuildGateway | LgStartGateway

definition logger_startup_order :: "logger_startup list" where
  "logger_startup_order = [LgCalibrate, LgCreateDir, LgOpenLog, LgBuildGateway, LgStartGateway]"

definition logger_log_path :: "logger_config \<Rightarrow> u64 \<Rightarrow> string" where
  "logger_log_path cfg now_ns = loblog_path (lc_output_dir cfg) now_ns"

text \<open>
  How the program ends (\<open>None\<close>: it still runs) and what it puts out over these events.  A
  gateway that fails to start is stopped by its destructor; the log is named once it is opened.
\<close>

definition logger_main ::
  "quickfix \<Rightarrow> (logger_startup \<Rightarrow> bool) \<Rightarrow> dictionary option \<Rightarrow> string list \<Rightarrow> u64 \<Rightarrow> logger_event list
     \<Rightarrow> exit_status option \<times> string option \<times> logger_output list" where
  "logger_main q throws settings argv now_ns evs =
     (case logger_args argv of
        None \<Rightarrow> (Some ExitFailure, None, [])
      | Some cfg \<Rightarrow>
          (case find throws logger_startup_order of
             Some st \<Rightarrow> (Some ExitFailure,
               if st \<in> {LgBuildGateway, LgStartGateway} then Some (logger_log_path cfg now_ns) else None,
               if st = LgStartGateway then [GatewayStopped] else [])
           | None \<Rightarrow>
               (let (a, outs) = logger_run q (logger_init settings) evs
                in (if la_ended a then Some ExitSuccess else None, Some (logger_log_path cfg now_ns), outs))))"

text \<open>
  However the logger ends, no event stays unflushed: it fails (usage, or any exception of
  the startup) before it has logged anything, or it succeeds, and then the last thing it did
  was to flush the log after stopping the gateway, whatever comes later.
\<close>

theorem logger_exit_is_clean:
  assumes "logger_main q throws settings argv now_ns evs = (Some st, path, outs)"
  shows "unflushed outs = [] \<and> logger_main q throws settings argv now_ns (evs @ later) = (Some st, path, outs) \<and>
    (if st = ExitSuccess then \<exists>os. outs = os @ [GatewayStopped, LogFlush]
     else st = ExitFailure \<and> set outs \<subseteq> {GatewayStopped})"
proof -
  consider (usage) "logger_args argv = None"
    | (failed) cfg bad where "logger_args argv = Some cfg" "find throws logger_startup_order = Some bad"
    | (up) cfg where "logger_args argv = Some cfg" "find throws logger_startup_order = None" by fastforce
  then show ?thesis
  proof cases
    case (up cfg)
    obtain a os where r: "logger_run q (logger_init settings) evs = (a, os)" by fastforce
    have e: "la_ended a" "st = ExitSuccess" "outs = os" "path = Some (logger_log_path cfg now_ns)"
      using assms up r by (auto simp: logger_main_def split: if_splits)
    obtain os' where "os = os' @ [GatewayStopped, LogFlush]"
      using logger_run_ends [OF _ r e(1)] by (auto simp: logger_init_def)
    moreover have "logger_run q (logger_init settings) (evs @ later) = (a, os)"
      using r ended_run [OF e(1)] by (simp add: lgr.run_append)
    ultimately show ?thesis using up e unflushed_flush [of "os' @ [GatewayStopped]"] by (simp add: logger_main_def)
  qed (use assms in \<open>auto simp: logger_main_def unflushed_def split: if_splits\<close>)
qed

text \<open>
  An authentication failure ends the logger with \<open>EXIT_SUCCESS\<close>, like a signal does: the
  status does not say that nothing could be recorded.  A session lost within three seconds of its
  logon counts as one, whatever it had brought.
\<close>

theorem auth_failure_exits_success:
  assumes "logger_args argv = Some cfg" and "\<forall>st. \<not> throws st"
    and "no_logon (before @ after)" and "t1 \<noteq> 0" and "t1 \<le> t2" and "t2 - t1 < 3000000000"
  shows "fst (logger_main q throws settings argv now_ns
    (LoggerLogon net sid t1 # before @ LoggerLogout t2 # after @ [LoggerTick])) = Some ExitSuccess"
proof -
  let ?evs = "LoggerLogon net sid t1 # before @ LoggerLogout t2 # after @ [LoggerTick]"
  have "find throws logger_startup_order = None" using assms(2) by (simp add: find_None_iff)
  moreover have "la_ended (fst (logger_run q (logger_init settings) ?evs))"
    using assms(3-6) by (rule early_logout_ends)
  ultimately show ?thesis using assms(1) by (simp add: logger_main_def case_prod_unfold Let_def)
qed

section \<open>Witnesses\<close>

theorem logger_exit_is_clean_witness:
  "unflushed (snd (snd (logger_main sample_quickfix (\<lambda>st. st = LgStartGateway) sample_settings
     [''sq_logger'', ''md.cfg''] 5000000000 [LoggerTick]))) = []"
proof -
  obtain path outs where "logger_main sample_quickfix (\<lambda>st. st = LgStartGateway) sample_settings
      [''sq_logger'', ''md.cfg''] 5000000000 [LoggerTick] = (Some ExitFailure, path, outs)"
    by (simp add: logger_main_def logger_args_def logger_startup_order_def)
  from logger_exit_is_clean [OF this, of "[]"] this show ?thesis by simp
qed

theorem auth_failure_exits_success_witness:
  "fst (logger_main sample_quickfix (\<lambda>_. False) sample_settings [''sq_logger'', ''md.cfg''] 5000000000
     [LoggerLogon (SendQueued True) ''S'' 1, LoggerMessage sample_snapshot 5, LoggerLogout 2000000001, LoggerTick])
   = Some ExitSuccess"
proof -
  have "logger_args [''sq_logger'', ''md.cfg''] = Some \<lparr> lc_fix_cfg = ''md.cfg'', lc_output_dir = ''.'' \<rparr>"
    by (simp add: logger_args_def)
  from auth_failure_exits_success [OF this, of "\<lambda>_. False" "[LoggerMessage sample_snapshot 5]" "[]" 1 2000000001]
  show ?thesis by (simp add: no_logon_def)
qed

end
