(* ===== verification/Spsc_Weak.thy ===== *)
theory Spsc_Weak
  imports Spsc_Queue
begin

unbundle bit_operations_syntax

text \<open>
  \<open>SpscQueue\<close> under release/acquire memory (\<open>include/smartquant/common/spsc_queue.hpp\<close>).
  \<open>Spsc_Queue\<close> interleaves the two threads as if each store were seen by the other thread at
  once.  C++ promises less: a load may return an older store, and a thread knows what the
  other did only where an acquiring load read a releasing store.  Here the stores to each index
  are kept as a history, a load picks any entry not older than the last one picked (coherence),
  and vector clocks decide whether two accesses to a cell are ordered.  Two unordered accesses, one of
  them a write, are a data race, which is undefined behaviour.
\<close>

section \<open>The orders of the code\<close>

text \<open>
  The loads and stores of \<open>push\<close> and \<open>pop\<close> on the index of the other thread and on the own
  one.  The relaxed load of the own index needs no parameter: its only writer is the thread itself, so
  it returns the thread's last store.
\<close>

datatype mem_order = Relaxed | Acquire | Release

record spsc_orders =
  so_tail_load :: mem_order
  so_head_store :: mem_order
  so_head_load :: mem_order
  so_tail_store :: mem_order

definition kSpscOrders :: spsc_orders where
  "kSpscOrders = \<lparr> so_tail_load = Acquire, so_head_store = Release,
     so_head_load = Acquire, so_tail_store = Release \<rparr>"

text \<open>
  A clock counts the writes of the producer and the reads of the consumer that a thread knows of.
  A releasing store passes the thread's clock on with the value, an acquiring load takes it over.
\<close>

type_synonym clock = "nat \<times> nat"

definition release_view :: "mem_order \<Rightarrow> clock \<Rightarrow> clock" where
  "release_view mo mine = (if mo = Release then mine else (0, 0))"

definition acquire_view :: "mem_order \<Rightarrow> clock \<Rightarrow> clock \<Rightarrow> clock" where
  "acquire_view mo seen mine =
     (if mo = Acquire then (max (fst seen) (fst mine), max (snd seen) (snd mine)) else mine)"

section \<open>Two threads over histories of stores\<close>

text \<open>
  \<open>w_wrote\<close> and \<open>w_read\<close> date the last write and the last read of each cell in the clock of the
  thread that made it; \<open>w_in\<close> and \<open>w_out\<close> are what was pushed and popped.
\<close>

record 'a weak =
  w_heads :: "(u64 \<times> clock) list"
  w_tails :: "(u64 \<times> clock) list"
  w_buf :: "'a list"
  w_wrote :: "nat \<Rightarrow> nat"
  w_read :: "nat \<Rightarrow> nat"
  w_race :: bool
  w_prod :: "'a producer"
  w_pclock :: clock
  w_seen_tail :: nat
  w_cons :: "'a consumer"
  w_cclock :: clock
  w_seen_head :: nat
  w_in :: "'a list"
  w_out :: "'a list"

definition weak_init :: "'a list \<Rightarrow> 'a weak" where
  "weak_init buf =
     \<lparr> w_heads = [(0, 0, 0)], w_tails = [(0, 0, 0)], w_buf = buf, w_wrote = (\<lambda>_. 0), w_read = (\<lambda>_. 0),
       w_race = False, w_prod = PIdle, w_pclock = (0, 0), w_seen_tail = 0,
       w_cons = CIdle, w_cclock = (0, 0), w_seen_head = 0, w_in = [], w_out = [] \<rparr>"

text \<open>A load of the other thread's index picks the \<open>k\<close>-th store to it.\<close>

definition see_tail :: "spsc_orders \<Rightarrow> nat \<Rightarrow> 'a weak \<Rightarrow> 'a weak" where
  "see_tail mo k s = s\<lparr>w_seen_tail := k,
     w_pclock := acquire_view (so_tail_load mo) (snd (w_tails s ! k)) (w_pclock s)\<rparr>"

definition see_head :: "spsc_orders \<Rightarrow> nat \<Rightarrow> 'a weak \<Rightarrow> 'a weak" where
  "see_head mo k s = s\<lparr>w_seen_head := k,
     w_cclock := acquire_view (so_head_load mo) (snd (w_heads s ! k)) (w_cclock s)\<rparr>"

text \<open>An access to a cell races unless the thread knows of the last access of the other.\<close>

definition write_cell :: "nat \<Rightarrow> 'a \<Rightarrow> 'a weak \<Rightarrow> 'a weak" where
  "write_cell i x s =
     (let t = Suc (fst (w_pclock s))
      in s\<lparr>w_buf := (w_buf s)[i := x], w_wrote := (w_wrote s)(i := t), w_pclock := (t, snd (w_pclock s)),
           w_race := w_race s \<or> snd (w_pclock s) < w_read s i\<rparr>)"

definition read_cell :: "nat \<Rightarrow> 'a weak \<Rightarrow> 'a weak" where
  "read_cell i s =
     (let t = Suc (snd (w_cclock s))
      in s\<lparr>w_read := (w_read s)(i := t), w_cclock := (fst (w_cclock s), t),
           w_race := w_race s \<or> fst (w_cclock s) < w_wrote s i\<rparr>)"

text \<open>The same steps as those of \<open>duo_step\<close>, with the choice of the store a load reads.\<close>

inductive weak_step :: "u64 \<Rightarrow> spsc_orders \<Rightarrow> 'a weak \<Rightarrow> 'a weak \<Rightarrow> bool" for c :: u64 and mo :: spsc_orders where
  wp_load: "w_prod s = PIdle \<Longrightarrow>
     weak_step c mo s (s\<lparr>w_prod := PLoaded x (fst (last (w_heads s))) ((fst (last (w_heads s)) + 1) AND kMask c)\<rparr>)"
| wp_full: "w_prod s = PLoaded x head next \<Longrightarrow> w_seen_tail s \<le> k \<Longrightarrow> k < length (w_tails s) \<Longrightarrow>
     next = fst (w_tails s ! k) \<Longrightarrow> weak_step c mo s (see_tail mo k (s\<lparr>w_prod := PIdle\<rparr>))"
| wp_free: "w_prod s = PLoaded x head next \<Longrightarrow> w_seen_tail s \<le> k \<Longrightarrow> k < length (w_tails s) \<Longrightarrow>
     next \<noteq> fst (w_tails s ! k) \<Longrightarrow> weak_step c mo s (see_tail mo k (s\<lparr>w_prod := PFree x head next\<rparr>))"
| wp_write: "w_prod s = PFree x head next \<Longrightarrow>
     weak_step c mo s (write_cell (unat head) x (s\<lparr>w_prod := PWritten x next\<rparr>))"
| wp_publish: "w_prod s = PWritten x next \<Longrightarrow>
     weak_step c mo s (s\<lparr>w_heads := w_heads s @ [(next, release_view (so_head_store mo) (w_pclock s))],
                         w_prod := PIdle, w_in := w_in s @ [x]\<rparr>)"
| wc_load: "w_cons s = CIdle \<Longrightarrow> weak_step c mo s (s\<lparr>w_cons := CLoaded (fst (last (w_tails s)))\<rparr>)"
| wc_none: "w_cons s = CLoaded tail \<Longrightarrow> w_seen_head s \<le> k \<Longrightarrow> k < length (w_heads s) \<Longrightarrow>
     tail = fst (w_heads s ! k) \<Longrightarrow> weak_step c mo s (see_head mo k (s\<lparr>w_cons := CIdle\<rparr>))"
| wc_avail: "w_cons s = CLoaded tail \<Longrightarrow> w_seen_head s \<le> k \<Longrightarrow> k < length (w_heads s) \<Longrightarrow>
     tail \<noteq> fst (w_heads s ! k) \<Longrightarrow> weak_step c mo s (see_head mo k (s\<lparr>w_cons := CAvail tail\<rparr>))"
| wc_read: "w_cons s = CAvail tail \<Longrightarrow>
     weak_step c mo s (read_cell (unat tail) (s\<lparr>w_cons := CRead tail (w_buf s ! unat tail)\<rparr>))"
| wc_publish: "w_cons s = CRead tail x \<Longrightarrow>
     weak_step c mo s (s\<lparr>w_tails := w_tails s @ [((tail + 1) AND kMask c, release_view (so_tail_store mo) (w_cclock s))],
                         w_cons := CIdle, w_out := w_out s @ [x]\<rparr>)"

inductive weak_reach :: "u64 \<Rightarrow> spsc_orders \<Rightarrow> 'a list \<Rightarrow> 'a weak \<Rightarrow> bool"
  for c :: u64 and mo :: spsc_orders and buf :: "'a list" where
  start: "weak_reach c mo buf (weak_init buf)"
| step: "weak_reach c mo buf s \<Longrightarrow> weak_step c mo s s' \<Longrightarrow> weak_reach c mo buf s'"

section \<open>The invariant\<close>

text \<open>
  The \<open>i\<close>-th store to an index is \<open>i\<close> modulo the capacity and carries a clock that knows of \<open>i\<close>
  accesses; what the threads have seen lags behind what was done, by less than the capacity; the cells
  between the indices hold what was pushed.
\<close>

definition heads_ok :: "nat \<Rightarrow> (u64 \<times> clock) list \<Rightarrow> nat \<Rightarrow> nat \<Rightarrow> bool" where
  "heads_ok n hs p k \<longleftrightarrow> length hs = Suc p \<and>
     (\<forall>i \<le> p. unat (fst (hs ! i)) = i mod n \<and> fst (snd (hs ! i)) = i \<and> snd (snd (hs ! i)) \<le> k)"

definition tails_ok :: "nat \<Rightarrow> (u64 \<times> clock) list \<Rightarrow> nat \<Rightarrow> nat \<Rightarrow> bool" where
  "tails_ok n ts p k \<longleftrightarrow> length ts = Suc k \<and>
     (\<forall>i \<le> k. unat (fst (ts ! i)) = i mod n \<and> snd (snd (ts ! i)) = i \<and> fst (snd (ts ! i)) \<le> p)"

definition seen_ok :: "nat \<Rightarrow> nat \<Rightarrow> nat \<Rightarrow> nat \<Rightarrow> nat \<Rightarrow> bool" where
  "seen_ok n p k st sh \<longleftrightarrow> st \<le> k \<and> k \<le> sh \<and> sh \<le> p \<and> p < st + n"

definition cells_ok :: "nat \<Rightarrow> 'a list \<Rightarrow> (nat \<Rightarrow> nat) \<Rightarrow> 'a list \<Rightarrow> nat \<Rightarrow> bool" where
  "cells_ok n buf wrote xs k \<longleftrightarrow> length buf = n \<and>
     (\<forall>j. k \<le> j \<and> j < length xs \<longrightarrow> buf ! (j mod n) = xs ! j \<and> wrote (j mod n) = Suc j)"

definition reads_ok :: "nat \<Rightarrow> (nat \<Rightarrow> nat) \<Rightarrow> nat \<Rightarrow> bool" where
  "reads_ok n rd m \<longleftrightarrow> (\<forall>i. rd i = 0 \<or> (\<exists>j < m. rd i = Suc j \<and> j mod n = i))"

fun wprod_ok :: "nat \<Rightarrow> nat \<Rightarrow> nat \<Rightarrow> nat \<Rightarrow> 'a list \<Rightarrow> (nat \<Rightarrow> nat) \<Rightarrow> 'a producer \<Rightarrow> bool" where
  "wprod_ok n p st t buf wrote PIdle \<longleftrightarrow> t = p"
| "wprod_ok n p st t buf wrote (PLoaded x head next) \<longleftrightarrow>
     t = p \<and> unat head = p mod n \<and> unat next = Suc p mod n"
| "wprod_ok n p st t buf wrote (PFree x head next) \<longleftrightarrow>
     t = p \<and> unat head = p mod n \<and> unat next = Suc p mod n \<and> Suc p < st + n"
| "wprod_ok n p st t buf wrote (PWritten x next) \<longleftrightarrow>
     t = Suc p \<and> unat next = Suc p mod n \<and> Suc p < st + n \<and> buf ! (p mod n) = x \<and> wrote (p mod n) = Suc p"

fun wcons_ok :: "nat \<Rightarrow> 'a list \<Rightarrow> nat \<Rightarrow> nat \<Rightarrow> nat \<Rightarrow> 'a consumer \<Rightarrow> bool" where
  "wcons_ok n xs k sh t CIdle \<longleftrightarrow> t = k"
| "wcons_ok n xs k sh t (CLoaded tail) \<longleftrightarrow> t = k \<and> unat tail = k mod n"
| "wcons_ok n xs k sh t (CAvail tail) \<longleftrightarrow> t = k \<and> unat tail = k mod n \<and> k < sh"
| "wcons_ok n xs k sh t (CRead tail x) \<longleftrightarrow> t = Suc k \<and> unat tail = k mod n \<and> k < sh \<and> x = xs ! k"

definition weak_inv :: "u64 \<Rightarrow> 'a weak \<Rightarrow> bool" where
  "weak_inv c s \<longleftrightarrow> (let n = unat c; p = length (w_in s); k = length (w_out s) in
     capacity_ok c \<and> \<not> w_race s \<and> heads_ok n (w_heads s) p k \<and> tails_ok n (w_tails s) p k \<and>
     seen_ok n p k (w_seen_tail s) (w_seen_head s) \<and>
     snd (w_pclock s) = w_seen_tail s \<and> fst (w_cclock s) = w_seen_head s \<and>
     cells_ok n (w_buf s) (w_wrote s) (w_in s) k \<and> reads_ok n (w_read s) (snd (w_cclock s)) \<and>
     w_out s = take k (w_in s) \<and>
     wprod_ok n p (w_seen_tail s) (fst (w_pclock s)) (w_buf s) (w_wrote s) (w_prod s) \<and>
     wcons_ok n (w_in s) k (w_seen_head s) (snd (w_cclock s)) (w_cons s))"

lemma weak_invD:
  assumes "weak_inv c s"
  shows "capacity_ok c" "\<not> w_race s" "heads_ok (unat c) (w_heads s) (length (w_in s)) (length (w_out s))"
    "tails_ok (unat c) (w_tails s) (length (w_in s)) (length (w_out s))"
    "seen_ok (unat c) (length (w_in s)) (length (w_out s)) (w_seen_tail s) (w_seen_head s)"
    "snd (w_pclock s) = w_seen_tail s" "fst (w_cclock s) = w_seen_head s"
    "cells_ok (unat c) (w_buf s) (w_wrote s) (w_in s) (length (w_out s))"
    "reads_ok (unat c) (w_read s) (snd (w_cclock s))" "w_out s = take (length (w_out s)) (w_in s)"
    "wprod_ok (unat c) (length (w_in s)) (w_seen_tail s) (fst (w_pclock s)) (w_buf s) (w_wrote s) (w_prod s)"
    "wcons_ok (unat c) (w_in s) (length (w_out s)) (w_seen_head s) (snd (w_cclock s)) (w_cons s)"
  using assms by (simp_all only: weak_inv_def Let_def simp_thms)

lemma mod_apart: "j < p \<Longrightarrow> p < j + n \<Longrightarrow> j mod n \<noteq> p mod (n :: nat)"
proof
  assume "j < p" "p < j + n" "j mod n = p mod n"
  then have "n dvd p - j" by (metis mod_eq_dvd_iff_nat less_imp_le)
  then show False using \<open>j < p\<close> \<open>p < j + n\<close> by (auto dest: dvd_imp_le)
qed

lemma weak_inv_init: "capacity_ok c \<Longrightarrow> length buf = unat c \<Longrightarrow> weak_inv c (weak_init buf)"
  by (simp add: weak_inv_def weak_init_def capacity_pos heads_ok_def tails_ok_def seen_ok_def cells_ok_def reads_ok_def)

lemma own_indices:
  assumes "weak_inv c s"
  shows "unat (fst (last (w_heads s))) = length (w_in s) mod unat c"
    "unat (fst (last (w_tails s))) = length (w_out s) mod unat c"
proof -
  have "w_heads s \<noteq> []" "w_tails s \<noteq> []" "length (w_heads s) - 1 = length (w_in s)" "length (w_tails s) - 1 = length (w_out s)"
    using weak_invD(3,4) [OF assms] by (auto simp: heads_ok_def tails_ok_def)
  then show "unat (fst (last (w_heads s))) = length (w_in s) mod unat c"
    "unat (fst (last (w_tails s))) = length (w_out s) mod unat c"
    using weak_invD(3,4) [OF assms] by (simp_all add: last_conv_nth heads_ok_def tails_ok_def)
qed

lemma next_index: "capacity_ok c \<Longrightarrow> unat x = p mod unat c \<Longrightarrow> unat ((x + 1) AND kMask c) = Suc p mod unat c"
  by (simp add: unat_step capacity_pos mod_Suc_eq)

lemma inv_p_load:
  assumes "weak_inv c s" "w_prod s = PIdle"
  shows "weak_inv c (s\<lparr>w_prod := PLoaded x (fst (last (w_heads s))) ((fst (last (w_heads s)) + 1) AND kMask c)\<rparr>)"
  using assms own_indices(1) [OF assms(1)] next_index [OF weak_invD(1) [OF assms(1)] own_indices(1) [OF assms(1)]]
  by (simp add: weak_inv_def Let_def)

lemma inv_c_load:
  assumes "weak_inv c s" "w_cons s = CIdle"
  shows "weak_inv c (s\<lparr>w_cons := CLoaded (fst (last (w_tails s)))\<rparr>)"
proof -
  have "snd (w_cclock s) = length (w_out s)" using weak_invD(12) [OF assms(1)] assms(2) by simp
  then show ?thesis
    using assms weak_invD(9) [OF assms(1)] own_indices(2) [OF assms(1)] by (simp add: weak_inv_def Let_def)
qed

text \<open>Loading the other's index: any store not older than the last one seen.\<close>

lemma seen_tail_clock:
  assumes "weak_inv c s" "w_seen_tail s \<le> k" "k < length (w_tails s)"
  shows "acquire_view Acquire (snd (w_tails s ! k)) (w_pclock s) = (fst (w_pclock s), k)" "k \<le> length (w_out s)"
    "unat (fst (w_tails s ! k)) = k mod unat c"
proof -
  have k: "k \<le> length (w_out s)" and m: "fst (snd (w_tails s ! k)) \<le> length (w_in s)" "snd (snd (w_tails s ! k)) = k"
    "unat (fst (w_tails s ! k)) = k mod unat c"
    using weak_invD(4) [OF assms(1)] assms(3) by (auto simp: tails_ok_def)
  moreover have "length (w_in s) \<le> fst (w_pclock s)"
    using weak_invD(11) [OF assms(1)] by (cases "w_prod s") auto
  ultimately show "acquire_view Acquire (snd (w_tails s ! k)) (w_pclock s) = (fst (w_pclock s), k)"
    using weak_invD(6) [OF assms(1)] assms(2) by (simp add: acquire_view_def)
  show "k \<le> length (w_out s)" "unat (fst (w_tails s ! k)) = k mod unat c" by (fact k, fact m(3))
qed

lemma seen_head_clock:
  assumes "weak_inv c s" "w_seen_head s \<le> k" "k < length (w_heads s)"
  shows "acquire_view Acquire (snd (w_heads s ! k)) (w_cclock s) = (k, snd (w_cclock s))" "k \<le> length (w_in s)"
    "unat (fst (w_heads s ! k)) = k mod unat c"
proof -
  have k: "k \<le> length (w_in s)" and m: "snd (snd (w_heads s ! k)) \<le> length (w_out s)" "fst (snd (w_heads s ! k)) = k"
    "unat (fst (w_heads s ! k)) = k mod unat c"
    using weak_invD(3) [OF assms(1)] assms(3) by (auto simp: heads_ok_def)
  moreover have "length (w_out s) \<le> snd (w_cclock s)"
    using weak_invD(12) [OF assms(1)] by (cases "w_cons s") auto
  ultimately show "acquire_view Acquire (snd (w_heads s ! k)) (w_cclock s) = (k, snd (w_cclock s))"
    using weak_invD(7) [OF assms(1)] assms(2) by (simp add: acquire_view_def)
  show "k \<le> length (w_in s)" "unat (fst (w_heads s ! k)) = k mod unat c" by (fact k, fact m(3))
qed

lemma inv_p_seen:
  assumes "weak_inv c s" "w_prod s = PLoaded x head next" "w_seen_tail s \<le> k" "k < length (w_tails s)"
    and "p = PIdle \<or> next \<noteq> fst (w_tails s ! k) \<and> p = PFree x head next"
  shows "weak_inv c (see_tail kSpscOrders k (s\<lparr>w_prod := p\<rparr>))"
proof -
  note d = weak_invD [OF assms(1)] and k = seen_tail_clock [OF assms(1,3,4)]
  let ?n = "unat c" and ?p = "length (w_in s)"
  have pl: "fst (w_pclock s) = ?p" "unat head = ?p mod ?n" "unat next = Suc ?p mod ?n" using d(11) assms(2) by simp_all
  have seen: "seen_ok ?n ?p (length (w_out s)) k (w_seen_head s)" and "?p < k + ?n"
    using d(5) k(2) assms(3) by (auto simp: seen_ok_def)
  then have "Suc ?p < k + ?n" if "next \<noteq> fst (w_tails s ! k)"
    using that k(3) pl(3) by (cases "Suc ?p = k + ?n") (auto simp: word_unat_eq_iff)
  then have "wprod_ok ?n ?p k ?p (w_buf s) (w_wrote s) p" using assms(5) pl by auto
  then show ?thesis
    using assms(1) seen k(1) pl(1) by (simp add: weak_inv_def see_tail_def kSpscOrders_def Let_def)
qed

lemma inv_c_seen:
  assumes "weak_inv c s" "w_cons s = CLoaded tail" "w_seen_head s \<le> k" "k < length (w_heads s)"
    and "q = CIdle \<or> tail \<noteq> fst (w_heads s ! k) \<and> q = CAvail tail"
  shows "weak_inv c (see_head kSpscOrders k (s\<lparr>w_cons := q\<rparr>))"
proof -
  note d = weak_invD [OF assms(1)] and k = seen_head_clock [OF assms(1,3,4)]
  let ?n = "unat c" and ?k = "length (w_out s)"
  have cl: "snd (w_cclock s) = ?k" "unat tail = ?k mod ?n" using d(12) assms(2) by simp_all
  have seen: "seen_ok ?n (length (w_in s)) ?k (w_seen_tail s) k" and "?k \<le> k"
    using d(5) k(2) assms(3) by (auto simp: seen_ok_def)
  then have "?k < k" if "tail \<noteq> fst (w_heads s ! k)"
    using that k(3) cl(2) by (cases "k = ?k") (auto simp: word_unat_eq_iff)
  then have "wcons_ok ?n (w_in s) ?k k ?k q" using assms(5) cl by auto
  then show ?thesis
    using assms(1) seen k(1) cl(1) by (simp add: weak_inv_def see_head_def kSpscOrders_def Let_def)
qed

lemma inv_p_write:
  assumes "weak_inv c s" "w_prod s = PFree x head next"
  shows "weak_inv c (write_cell (unat head) x (s\<lparr>w_prod := PWritten x next\<rparr>))"
proof -
  note d = weak_invD [OF assms(1)]
  let ?n = "unat c" and ?p = "length (w_in s)" and ?k = "length (w_out s)"
  have pf: "fst (w_pclock s) = ?p" "unat head = ?p mod ?n" "unat next = Suc ?p mod ?n" "Suc ?p < w_seen_tail s + ?n"
    using d(11) assms(2) by simp_all
  have s: "w_seen_tail s \<le> ?k" "?k \<le> w_seen_head s" "w_seen_head s \<le> ?p" "?p < w_seen_tail s + ?n"
    using d(5) by (simp_all add: seen_ok_def)
  have n: "0 < ?n" using d(1) by (rule capacity_pos)
  have apart: "j mod ?n \<noteq> ?p mod ?n" if "?k \<le> j" "j < ?p" for j
    using that s by (intro mod_apart) simp_all
  have cells: "cells_ok ?n ((w_buf s)[?p mod ?n := x]) ((w_wrote s)(?p mod ?n := Suc ?p)) (w_in s) ?k"
    using d(8) apart not_sym [OF apart] by (simp add: cells_ok_def)
  have len: "length (w_buf s) = ?n" using d(8) by (simp add: cells_ok_def)
  have "\<not> w_seen_tail s < w_read s (?p mod ?n)"
  proof
    assume "w_seen_tail s < w_read s (?p mod ?n)"
    then obtain j where j: "j < snd (w_cclock s)" "w_read s (?p mod ?n) = Suc j" "j mod ?n = ?p mod ?n"
      using d(9) by (metis reads_ok_def not_less0)
    have "snd (w_cclock s) \<le> Suc ?k" "snd (w_cclock s) = Suc ?k \<longrightarrow> ?k < w_seen_head s"
      using d(12) by (cases "w_cons s"; auto)+
    then have "j < ?p" using j(1) s by auto
    then have "j + ?n \<le> ?p" using mod_apart [of j ?p ?n] j(3) by (metis not_le)
    then show False using \<open>w_seen_tail s < w_read s (?p mod ?n)\<close> j(2) pf(4) by simp
  qed
  then show ?thesis
    using assms(1) pf cells len n by (simp add: weak_inv_def write_cell_def Let_def)
qed

lemma inv_p_publish:
  assumes "weak_inv c s" "w_prod s = PWritten x next"
  shows "weak_inv c (s\<lparr>w_heads := w_heads s @ [(next, release_view Release (w_pclock s))],
    w_prod := PIdle, w_in := w_in s @ [x]\<rparr>)"
proof -
  note d = weak_invD [OF assms(1)]
  let ?n = "unat c" and ?p = "length (w_in s)" and ?k = "length (w_out s)"
  have pw: "fst (w_pclock s) = Suc ?p" "unat next = Suc ?p mod ?n" "Suc ?p < w_seen_tail s + ?n"
      "w_buf s ! (?p mod ?n) = x" "w_wrote s (?p mod ?n) = Suc ?p"
    using d(11) assms(2) by simp_all
  have s: "w_seen_tail s \<le> ?k" "?k \<le> w_seen_head s" "w_seen_head s \<le> ?p"
    using d(5) by (simp_all add: seen_ok_def)
  have "heads_ok ?n (w_heads s @ [(next, w_pclock s)]) (Suc ?p) ?k"
    using d(3,6) pw(1,2) s(1) by (auto simp: heads_ok_def nth_append le_Suc_eq)
  moreover have "tails_ok ?n (w_tails s) (Suc ?p) ?k" using d(4) by (auto simp: tails_ok_def)
  moreover have "seen_ok ?n (Suc ?p) ?k (w_seen_tail s) (w_seen_head s)" using s pw(3) by (simp add: seen_ok_def)
  moreover have "cells_ok ?n (w_buf s) (w_wrote s) (w_in s @ [x]) ?k"
    using d(8) pw(4,5) by (auto simp: cells_ok_def nth_append less_Suc_eq)
  moreover have "wcons_ok ?n (w_in s @ [x]) ?k (w_seen_head s) (snd (w_cclock s)) (w_cons s)"
    using d(12) s by (cases "w_cons s") (auto simp: nth_append)
  moreover have "w_out s = take ?k (w_in s @ [x])" using d(10) s by simp
  ultimately show ?thesis
    using assms(1) pw(1) by (simp add: weak_inv_def release_view_def Let_def)
qed

lemma inv_c_read:
  assumes "weak_inv c s" "w_cons s = CAvail tail"
  shows "weak_inv c (read_cell (unat tail) (s\<lparr>w_cons := CRead tail (w_buf s ! unat tail)\<rparr>))"
proof -
  note d = weak_invD [OF assms(1)]
  let ?n = "unat c" and ?k = "length (w_out s)"
  have ca: "snd (w_cclock s) = ?k" "unat tail = ?k mod ?n" "?k < w_seen_head s" using d(12) assms(2) by simp_all
  then have "?k < length (w_in s)" using d(5) by (simp add: seen_ok_def)
  then have cell: "w_buf s ! (?k mod ?n) = w_in s ! ?k" "w_wrote s (?k mod ?n) = Suc ?k"
    using d(8) by (simp_all add: cells_ok_def)
  have "reads_ok ?n ((w_read s)(?k mod ?n := Suc ?k)) (Suc ?k)"
    using d(9) ca(1) by (auto simp: reads_ok_def intro: less_SucI)
  then show ?thesis using assms(1) ca cell by (simp add: weak_inv_def read_cell_def Let_def)
qed

lemma inv_c_publish:
  assumes "weak_inv c s" "w_cons s = CRead tail x"
  shows "weak_inv c (s\<lparr>w_tails := w_tails s @ [((tail + 1) AND kMask c, release_view Release (w_cclock s))],
    w_cons := CIdle, w_out := w_out s @ [x]\<rparr>)"
proof -
  note d = weak_invD [OF assms(1)]
  let ?n = "unat c" and ?p = "length (w_in s)" and ?k = "length (w_out s)"
  have cr: "snd (w_cclock s) = Suc ?k" "unat tail = ?k mod ?n" "?k < w_seen_head s" "x = w_in s ! ?k"
    using d(12) assms(2) by simp_all
  have s: "w_seen_tail s \<le> ?k" "w_seen_head s \<le> ?p" "?p < w_seen_tail s + ?n"
    using d(5) by (simp_all add: seen_ok_def)
  have "tails_ok ?n (w_tails s @ [((tail + 1) AND kMask c, w_cclock s)]) ?p (Suc ?k)"
    using d(4,7) cr(1) next_index [OF d(1) cr(2)] s(2) by (auto simp: tails_ok_def nth_append le_Suc_eq)
  moreover have "heads_ok ?n (w_heads s) ?p (Suc ?k)" using d(3) by (auto simp: heads_ok_def)
  moreover have "seen_ok ?n ?p (Suc ?k) (w_seen_tail s) (w_seen_head s)" using s cr(3) by (simp add: seen_ok_def)
  moreover have "cells_ok ?n (w_buf s) (w_wrote s) (w_in s) (Suc ?k)" using d(8) by (simp add: cells_ok_def)
  moreover have "w_out s @ [x] = take (Suc ?k) (w_in s)"
    using d(10) cr(3,4) s(2) by (metis take_Suc_conv_app_nth less_le_trans)
  moreover have "Suc ?k \<le> ?p" using s cr(3) by simp
  ultimately show ?thesis
    using assms(1) cr(1) by (simp add: weak_inv_def release_view_def min_absorb2 Let_def)
qed

lemma weak_step_inv: "weak_step c kSpscOrders s s' \<Longrightarrow> weak_inv c s \<Longrightarrow> weak_inv c s'"
proof (induction rule: weak_step.induct)
  case (wp_publish s x "next")
  then show ?case using inv_p_publish [of c s x "next"] by (simp add: kSpscOrders_def)
next
  case (wc_publish s tail x)
  then show ?case using inv_c_publish [of c s tail x] by (simp add: kSpscOrders_def)
qed (blast intro: inv_p_load inv_c_load inv_p_seen inv_c_seen inv_p_write inv_c_read)+

lemma weak_reach_inv:
  "weak_reach c kSpscOrders buf s \<Longrightarrow> capacity_ok c \<Longrightarrow> length buf = unat c \<Longrightarrow> weak_inv c s"
  by (induction rule: weak_reach.induct) (blast intro: weak_inv_init weak_step_inv)+

text \<open>
  C4: The memory orders the code names suffice.  In every execution with acquiring loads
  of the other thread's index and releasing stores of the own one, whatever stale indices the loads
  return, no two accesses to a cell race, what was popped is a prefix of what was
  pushed in order, and never more than the capacity less one are in flight.
\<close>

theorem spsc_release_acquire_suffices:
  assumes "weak_reach c kSpscOrders buf s" and "capacity_ok c" and "length buf = unat c"
  shows "\<not> w_race s \<and> w_out s = take (length (w_out s)) (w_in s) \<and> length (w_in s) < length (w_out s) + unat c"
proof -
  note d = weak_invD [OF weak_reach_inv [OF assms]]
  show ?thesis using d(2,5,10) by (simp add: seen_ok_def)
qed


section \<open>The interleavings are among the executions\<close>

text \<open>
  Loads that always pick the newest store give back \<open>duo_step\<close>: what the interleaved threads can do
  the weak ones can, so \<open>Spsc_Queue\<close> speaks of some of these executions.
\<close>

definition newest :: "'a weak \<Rightarrow> 'a duo" where
  "newest s = \<lparr> d_q = \<lparr> q_head = fst (last (w_heads s)), q_tail = fst (last (w_tails s)), q_buf = w_buf s \<rparr>,
     d_prod = w_prod s, d_cons = w_cons s, d_in = w_in s, d_out = w_out s \<rparr>"

definition seen_exists :: "'a weak \<Rightarrow> bool" where
  "seen_exists s \<longleftrightarrow> w_seen_tail s < length (w_tails s) \<and> w_seen_head s < length (w_heads s)"

lemmas newest_simps = newest_def seen_exists_def see_tail_def see_head_def write_cell_def read_cell_def Let_def

lemma weak_matched:
  "weak_step c mo s s' \<Longrightarrow> newest s' = d \<Longrightarrow> seen_exists s' \<Longrightarrow>
     \<exists>s'. weak_step c mo s s' \<and> newest s' = d \<and> seen_exists s'"
  by blast

lemma duo_step_weak:
  assumes "duo_step c (newest s) d" "seen_exists s"
  shows "\<exists>s'. weak_step c mo s s' \<and> newest s' = d \<and> seen_exists s'"
proof -
  let ?kt = "length (w_tails s) - 1" and ?kh = "length (w_heads s) - 1"
  have "w_tails s \<noteq> []" "w_heads s \<noteq> []" using assms(2) by (auto simp: seen_exists_def)
  then have t: "w_seen_tail s \<le> ?kt" "?kt < length (w_tails s)" "w_tails s ! ?kt = last (w_tails s)"
    and h: "w_seen_head s \<le> ?kh" "?kh < length (w_heads s)" "w_heads s ! ?kh = last (w_heads s)"
    using assms(2) by (auto simp: seen_exists_def last_conv_nth)
  from assms(1) show ?thesis
  proof cases
    case (p_load x)
    then show ?thesis using assms(2) t h by (intro weak_matched [OF wp_load [of s c mo x]]) (auto simp: newest_simps)
  next
    case (p_full x head "next")
    then show ?thesis using assms(2) t h by (intro weak_matched [OF wp_full [of s x head "next" ?kt c mo]]) (auto simp: newest_simps)
  next
    case (p_free x head "next")
    then show ?thesis using assms(2) t h by (intro weak_matched [OF wp_free [of s x head "next" ?kt c mo]]) (auto simp: newest_simps)
  next
    case (p_write x head "next")
    then show ?thesis using assms(2) t h by (intro weak_matched [OF wp_write [of s x head "next" c mo]]) (auto simp: newest_simps)
  next
    case (p_publish x "next")
    then show ?thesis using assms(2) t h by (intro weak_matched [OF wp_publish [of s x "next" c mo]]) (auto simp: newest_simps)
  next
    case c_load
    then show ?thesis using assms(2) t h by (intro weak_matched [OF wc_load [of s c mo]]) (auto simp: newest_simps)
  next
    case (c_none tail)
    then show ?thesis using assms(2) t h by (intro weak_matched [OF wc_none [of s tail ?kh c mo]]) (auto simp: newest_simps)
  next
    case (c_avail tail)
    then show ?thesis using assms(2) t h by (intro weak_matched [OF wc_avail [of s tail ?kh c mo]]) (auto simp: newest_simps)
  next
    case (c_read tail)
    then show ?thesis using assms(2) t h by (intro weak_matched [OF wc_read [of s tail c mo]]) (auto simp: newest_simps)
  next
    case (c_publish tail x)
    then show ?thesis using assms(2) t h by (intro weak_matched [OF wc_publish [of s tail x c mo]]) (auto simp: newest_simps)
  qed
qed

lemma duo_reach_weak: "duo_reach c buf d \<Longrightarrow> \<exists>s. weak_reach c mo buf s \<and> newest s = d \<and> seen_exists s"
proof (induction rule: duo_reach.induct)
  case start
  then show ?case
    using weak_reach.start [of c mo buf]
    by (intro exI [of _ "weak_init buf"]) (simp add: newest_simps weak_init_def duo_init_def spsc_init_def)
next
  case (step d d')
  then show ?case by (metis duo_step_weak weak_reach.step)
qed

section \<open>Why the stores release\<close>

text \<open>With a relaxed store of the head the first pop already reads a cell it may not read.\<close>

lemma weak_path7:
  "weak_step c mo (weak_init buf) s1 \<Longrightarrow> weak_step c mo s1 s2 \<Longrightarrow> weak_step c mo s2 s3 \<Longrightarrow> weak_step c mo s3 s4 \<Longrightarrow>
   weak_step c mo s4 s5 \<Longrightarrow> weak_step c mo s5 s6 \<Longrightarrow> weak_step c mo s6 s7 \<Longrightarrow> weak_reach c mo buf s7"
  by (meson weak_reach.intros)

lemma relaxed_publication_races:
  assumes "so_head_store mo = Relaxed"
  shows "\<exists>s. weak_reach 4 mo [0, 0, 0, 0 :: nat] s \<and> w_race s"
proof -
  let ?s0 = "weak_init [0, 0, 0, 0 :: nat]"
  let ?s1 = "?s0\<lparr>w_prod := PLoaded 7 0 1\<rparr>"
  let ?s2 = "see_tail mo 0 (?s1\<lparr>w_prod := PFree 7 0 1\<rparr>)"
  let ?s3 = "write_cell (unat (0 :: u64)) 7 (?s2\<lparr>w_prod := PWritten 7 1\<rparr>)"
  let ?s4 = "?s3\<lparr>w_heads := w_heads ?s3 @ [(1, release_view (so_head_store mo) (w_pclock ?s3))],
     w_prod := PIdle, w_in := w_in ?s3 @ [7]\<rparr>"
  let ?s5 = "?s4\<lparr>w_cons := CLoaded 0\<rparr>"
  let ?s6 = "see_head mo 1 (?s5\<lparr>w_cons := CAvail 0\<rparr>)"
  let ?s7 = "read_cell (unat (0 :: u64)) (?s6\<lparr>w_cons := CRead 0 (w_buf ?s6 ! unat (0 :: u64))\<rparr>)"
  note ev = weak_init_def see_tail_def see_head_def write_cell_def read_cell_def Let_def
  have "weak_step 4 mo ?s0 ?s1" using wp_load [of ?s0 4 mo 7] by (simp add: weak_init_def kMask_def)
  moreover have "weak_step 4 mo ?s1 ?s2" using wp_free [of ?s1 7 0 1 0 4 mo] by (simp add: weak_init_def)
  moreover have "weak_step 4 mo ?s2 ?s3" using wp_write [of ?s2 7 0 1 4 mo] by (simp add: see_tail_def)
  moreover have "weak_step 4 mo ?s3 ?s4" using wp_publish [of ?s3 7 1 4 mo] by (simp add: write_cell_def Let_def)
  moreover have "weak_step 4 mo ?s4 ?s5" using wc_load [of ?s4 4 mo] by (simp add: ev)
  moreover have "weak_step 4 mo ?s5 ?s6" using wc_avail [of ?s5 0 1 4 mo] by (simp add: ev)
  moreover have "weak_step 4 mo ?s6 ?s7" using wc_read [of ?s6 0 4 mo] by (simp add: see_head_def)
  ultimately have "weak_reach 4 mo [0, 0, 0, 0] ?s7" by (rule weak_path7)
  moreover have "w_race ?s7" using assms by (simp add: ev release_view_def acquire_view_def)
  ultimately show ?thesis by blast
qed

section \<open>Witness\<close>

theorem spsc_release_acquire_suffices_witness:
  "\<exists>s. weak_reach 4 kSpscOrders [0, 0, 0, 0 :: nat] s \<and> w_in s = [7] \<and> \<not> w_race s \<and>
     w_out s = take (length (w_out s)) [7]"
proof -
  let ?i = "duo_init [0, 0, 0, 0 :: nat]"
  let ?d = "?i\<lparr>d_q := fst (spsc_push 4 (d_q ?i) 7), d_in := d_in ?i @ [7]\<rparr>"
  have "snd (spsc_push 4 (d_q ?i) 7)"
    by (simp add: duo_init_def spsc_init_def spsc_push_def kMask_def Let_def)
  then have "(duo_step 4)\<^sup>*\<^sup>* ?i ?d" by (intro push_steps) (simp_all add: duo_init_def)
  then have "duo_reach 4 [0, 0, 0, 0] ?d" by (rule duo_reach_steps) (rule duo_reach.start)
  then obtain s where s: "weak_reach 4 kSpscOrders [0, 0, 0, 0] s" "newest s = ?d"
    using duo_reach_weak by blast
  have "w_in s = [7]" using arg_cong [OF s(2), of d_in] by (simp add: newest_def duo_init_def)
  with s(1) spsc_release_acquire_suffices [OF s(1) capacity_4] show ?thesis by auto
qed

end
