(* ===== verification/Signal_Reference.thy ===== *)
theory Signal_Reference
  imports Backtest "HOL-Library.Sublist"
begin

text \<open>
  A reference for \<open>SignalEngine\<close> (\<open>alpha/\<close>): the signal after a history of events, computed from
  the history alone.  The engine keeps rings of buckets, running sums, three queues of recent scores and
  two previous values; the reference has no state.  It counts deletions and sums volumes over the
  windows of the history, takes the scores of all its prefixes, and differences the imbalance at
  its last three prefixes.  The two agree, bit for bit, on every steady feed, and so the
  backtest counts the signals of the reference.
\<close>

section \<open>The thirty seconds of scores\<close>

text \<open>When the bucket of the last event starts, and the scores after each prefix that has two buckets.\<close>

definition bucket_time :: "lob_event list \<Rightarrow> nat" where
  "bucket_time evs = unat (ev_timestamp_ns (hd evs)) + last_bucket evs * unat kBucketNs"

definition score_log :: "lob_event list \<Rightarrow> (nat \<times> f64 \<times> f64) list" where
  "score_log evs = map (\<lambda>p. (bucket_time p, z_of_counts (window_counts Bid p), z_of_counts (window_counts Offer p)))
     (filter (\<lambda>p. p \<noteq> [] \<and> 1 \<le> last_bucket p) (prefixes evs))"

text \<open>The scores of the last thirty seconds, and those the engine has queued.\<close>

definition recent_scores :: "lob_event list \<Rightarrow> (nat \<times> f64 \<times> f64) list" where
  "recent_scores evs = filter (\<lambda>x. bucket_time evs \<le> fst x + unat kQuantileNs) (score_log evs)"

definition recent_of :: "cancel_factor \<Rightarrow> (nat \<times> f64 \<times> f64) list" where
  "recent_of c = zip (map unat (cf_recent_ts c)) (zip (cf_recent_z_bid c) (cf_recent_z_ask c))"

lemma score_log_snoc:
  "score_log (evs @ [ev]) = score_log evs @ (if 1 \<le> last_bucket (evs @ [ev])
     then [(bucket_time (evs @ [ev]), z_of_counts (window_counts Bid (evs @ [ev])),
            z_of_counts (window_counts Offer (evs @ [ev])))] else [])"
  by (simp add: score_log_def)

lemma paced_feed_snoc:
  assumes "paced_feed (evs @ [ev])" "evs \<noteq> []"
  shows "paced_feed evs" "last_bucket evs \<le> last_bucket (evs @ [ev])" "bucket_time evs \<le> bucket_time (evs @ [ev])"
proof -
  have "ev_timestamp_ns (last evs) \<le> ev_timestamp_ns ev"
    using assms by (simp add: paced_feed_def paced_snoc last_map)
  then have b: "last_bucket evs \<le> last_bucket (evs @ [ev])"
    using assms(2) by (simp add: last_bucket_def grid_index_mono)
  then show "last_bucket evs \<le> last_bucket (evs @ [ev])" "bucket_time evs \<le> bucket_time (evs @ [ev])"
    using assms(2) by (simp_all add: bucket_time_def)
  show "paced_feed evs" using assms by (simp add: paced_feed_def paced_snoc)
qed

lemma paced_prefix: "paced_feed evs \<Longrightarrow> p \<in> set (prefixes evs) \<Longrightarrow> p \<noteq> [] \<Longrightarrow>
    paced_feed p \<and> last_bucket p \<le> last_bucket evs \<and> bucket_time p \<le> bucket_time evs"
proof (induction evs rule: rev_induct)
  case (snoc ev evs)
  show ?case
  proof (cases "p = evs @ [ev]")
    case False
    then have p: "p \<in> set (prefixes evs)" "evs \<noteq> []" using snoc.prems by auto
    then show ?thesis using snoc.IH [OF paced_feed_snoc(1) p(1) snoc.prems(3)] paced_feed_snoc snoc.prems(1)
      by (meson order.trans)
  qed (use snoc.prems in simp)
qed simp

lemma no_scores_yet: "paced_feed evs \<Longrightarrow> last_bucket evs = 0 \<Longrightarrow> score_log evs = []"
  using paced_prefix [of evs] by (fastforce simp: score_log_def filter_empty_conv)

text \<open>Popping expired entries off the fronts of ascending queues keeps the entries that are not expired.\<close>

lemma expire_filter:
  "sorted ts \<Longrightarrow> length zb = length ts \<Longrightarrow> length za = length ts \<Longrightarrow>
     (case expire_recent q (ts, zb, za) of (ts', zb', za') \<Rightarrow> zip (map unat ts') (zip zb' za'))
     = filter (\<lambda>x. unat q \<le> fst x) (zip (map unat ts) (zip zb za))"
proof (induction ts arbitrary: zb za)
  case (Cons t ts)
  obtain b bs a as where z: "zb = b # bs" "za = a # as" using Cons.prems by (cases zb; cases za) auto
  have "filter (\<lambda>x. unat q \<le> fst x) (zip (map unat ts) (zip bs as)) = zip (map unat ts) (zip bs as)" if "\<not> t < q"
    using that Cons.prems(1)
    by (fastforce simp: filter_id_conv word_le_nat_alt word_less_nat_alt dest!: set_zip_leftD intro: order.trans)
  then show ?case using Cons z by (auto simp: word_less_nat_alt)
qed simp

lemma cutoff_unat: "unat (window_cutoff now w) \<le> t \<longleftrightarrow> unat now \<le> t + unat w"
  by (auto simp: window_cutoff_def word_le_nat_alt unat_sub_if')

text \<open>One event, seen by the thirty seconds of scores.\<close>

lemma event_recent:
  assumes "paced_feed (evs @ [ev])" "int (length (evs @ [ev])) \<le> 2 ^ 26"
  shows "recent_of (cancel_feed cancel_new (evs @ [ev])) =
    (if 1 \<le> last_bucket (evs @ [ev])
     then filter (\<lambda>x. bucket_time (evs @ [ev]) \<le> fst x + unat kQuantileNs)
       (recent_of (cancel_feed cancel_new evs) @ [(bucket_time (evs @ [ev]),
          z_of_counts (window_counts Bid (evs @ [ev])), z_of_counts (window_counts Offer (evs @ [ev])))])
     else recent_of (cancel_feed cancel_new evs)) \<and>
    (last_bucket (evs @ [ev]) = 0 \<longrightarrow>
       cf_z_bid (cancel_feed cancel_new (evs @ [ev])) = cf_z_bid (cancel_feed cancel_new evs) \<and>
       cf_z_ask (cancel_feed cancel_new (evs @ [ev])) = cf_z_ask (cancel_feed cancel_new evs))"
proof -
  let ?evs = "evs @ [ev]" and ?prev = "cancel_feed cancel_new evs"
  let ?c = "count_delete ev (cancel_advance_time (ev_timestamp_ns ev) ?prev)"
  have ne: "?evs \<noteq> []" by simp
  have c: "cancel_feed cancel_new ?evs = recompute_zscores ?c" by (simp add: cancel_feed_snoc cancel_on_event_def)
  have grid: "on_grid kMaxCancelBuckets (cancel_hist_bucket (ev_timestamp_ns (hd ?evs)) ?evs) (last_bucket ?evs) (cf_ring ?c)"
    using cancel_feed_grid [OF ne refl assms(1)] assms(2) c by simp
  have cnt: "rg_count (cf_ring ?c) = min (Suc (last_bucket ?evs)) kMaxCancelBuckets"
    using grid length_ring_list [of kMaxCancelBuckets "cf_ring ?c"] by (simp add: on_grid_def)
  have keep: "recent_of ?c = recent_of ?prev" "cf_z_bid ?c = cf_z_bid ?prev" "cf_z_ask ?c = cf_z_ask ?prev"
    by (simp_all add: recent_of_def count_delete_keeps cancel_advance_time_def)
       (simp_all add: count_delete_def Let_def split: md_entry_type.splits)
  show ?thesis
  proof (cases "1 \<le> last_bucket ?evs")
    case False
    then have "rg_count (cf_ring ?c) < 2" using cnt by simp
    then have "recompute_zscores ?c = ?c" unfolding recompute_cases by simp
    then show ?thesis using False keep c by simp
  next
    case True
    have run: "\<not> (rg_count (cf_ring ?c) < 2 \<or> length (window_of ?c) < 2)"
      using True cnt feed_sums [OF ne assms grid] by (simp add: kMaxCancelBuckets_def)
    have tm: "ev_timestamp_ns (hd ?evs) \<le> ev_timestamp_ns ev" "unat (ev_timestamp_ns ev) + unat kBucketNs < 2 ^ 64"
      using assms(1) by (simp_all add: paced_feed_def paced_snoc)
    have "unat (ev_timestamp_ns (hd ?evs)) + last_bucket ?evs * unat kBucketNs < 2 ^ 64"
      using grid_index_bounds [OF _ tm(1), of kBucketNs] tm(2) by (simp add: last_bucket_def kBucketNs_def)
    then have now: "unat (cb_ts_ns (ring_newest (cf_ring ?c))) = bucket_time ?evs"
      using on_grid_newest(1) [OF kMaxCancelBuckets_pos grid]
      by (simp add: cancel_hist_bucket_def unat_grid_time bucket_time_def)
    have "list_all (\<lambda>ev. unat (ev_timestamp_ns ev) + unat kBucketNs < 2 ^ 64) evs"
      using assms(1) by (auto simp: paced_feed_def paced_def list_all_iff)
    then have ri: "recent_inv ?c"
      using count_delete_recent advance_recent cancel_feed_recent tm(2) by blast
    let ?now = "cb_ts_ns (ring_newest (cf_ring ?c))" and ?r = "recompute_zscores ?c"
    have "recent_of ?r = (case expire_recent (window_cutoff ?now kQuantileNs)
        (cf_recent_ts ?c @ [?now], cf_recent_z_bid ?c @ [cf_z_bid ?r], cf_recent_z_ask ?c @ [cf_z_ask ?r])
      of (ts', zb', za') \<Rightarrow> zip (map unat ts') (zip zb' za'))"
      unfolding recent_of_def recompute_cases if_not_P [OF run] Let_def by (simp add: case_prod_unfold)
    also have "\<dots> = filter (\<lambda>x. unat (window_cutoff ?now kQuantileNs) \<le> fst x)
        (recent_of ?c @ [(bucket_time ?evs, cf_z_bid ?r, cf_z_ask ?r)])"
      using ri by (subst expire_filter)
        (auto simp: recent_inv_def cancel_inv_def sorted_append list_all_iff recent_of_def now)
    also have "\<dots> = filter (\<lambda>x. bucket_time ?evs \<le> fst x + unat kQuantileNs)
        (recent_of ?prev @ [(bucket_time ?evs, z_of_counts (window_counts Bid ?evs), z_of_counts (window_counts Offer ?evs))])"
      using window_scores_exact [OF ne assms True] by (simp only: keep cutoff_unat now c)
    finally show ?thesis using True c by simp
  qed
qed

lemma recent_exact:
  "paced_feed evs \<Longrightarrow> int (length evs) \<le> 2 ^ 26 \<Longrightarrow> recent_of (cancel_feed cancel_new evs) = recent_scores evs"
proof (induction evs rule: rev_induct)
  case Nil
  then show ?case by (simp add: recent_of_def recent_scores_def score_log_def cancel_feed_def cancel_new_def)
next
  case (snoc ev evs)
  let ?evs = "evs @ [ev]" and ?new = "\<lambda>x. bucket_time (evs @ [ev]) \<le> fst x + unat kQuantileNs"
  show ?case
  proof (cases "evs = []")
    case True
    have "last_bucket [ev] = 0" by (simp add: last_bucket_def grid_index_def)
    then show ?thesis using event_recent [OF snoc.prems] no_scores_yet [OF snoc.prems(1)] True
      by (simp add: recent_scores_def recent_of_def cancel_feed_def cancel_new_def)
  next
    case False
    note p = paced_feed_snoc [OF snoc.prems(1) False]
    have IH: "recent_of (cancel_feed cancel_new evs) = recent_scores evs"
      using snoc.IH p(1) snoc.prems(2) by simp
    have "filter ?new (recent_scores evs) = filter ?new (score_log evs)"
      using p(3) by (auto simp: recent_scores_def intro!: filter_cong)
    moreover have "score_log evs = []" if "last_bucket ?evs = 0"
      using no_scores_yet [OF p(1)] p(2) that by simp
    ultimately show ?thesis
      using event_recent [OF snoc.prems] IH
      by (cases "last_bucket ?evs") (simp_all add: recent_scores_def score_log_snoc)
  qed
qed

lemma combined_recent:
  "cancel_inv c \<Longrightarrow> combined_scores c = map (\<lambda>x. std_max (fst (snd x)) (snd (snd x))) (recent_of c)"
  by (intro nth_equalityI) (simp_all add: combined_scores_def recent_of_def cancel_inv_def)

text \<open>The threshold is a quantile of the recent scores; a score is that of the last window.\<close>

definition reference_threshold :: "lob_event list \<Rightarrow> f64" where
  "reference_threshold evs =
     (let scores = map (\<lambda>x. std_max (fst (snd x)) (snd (snd x))) (recent_scores evs)
      in if scores = [] then Fin 2 else f64_sort scores ! quantile_index (length scores))"

definition reference_score :: "md_entry_type \<Rightarrow> lob_event list \<Rightarrow> f64" where
  "reference_score sd evs = (if 1 \<le> last_bucket evs then z_of_counts (window_counts sd evs) else 0)"

lemma threshold_exact:
  assumes "paced_feed evs" "int (length evs) \<le> 2 ^ 26"
  shows "dynamic_threshold (cancel_feed cancel_new evs) = reference_threshold evs"
proof -
  let ?c = "cancel_feed cancel_new evs"
  have "cf_recent_z_bid ?c = [] \<longleftrightarrow> combined_scores ?c = []" by (simp flip: length_0_conv)
  then show ?thesis
    using combined_recent [OF cancel_feed_inv, of evs] recent_exact [OF assms]
    by (simp add: dynamic_threshold_def reference_threshold_def Let_def)
qed

lemma scores_exact:
  "evs \<noteq> [] \<Longrightarrow> paced_feed evs \<Longrightarrow> int (length evs) \<le> 2 ^ 26 \<Longrightarrow>
    cf_z_bid (cancel_feed cancel_new evs) = reference_score Bid evs \<and>
    cf_z_ask (cancel_feed cancel_new evs) = reference_score Offer evs"
proof (induction evs rule: rev_induct)
  case (snoc ev evs)
  show ?case
  proof (cases "1 \<le> last_bucket (evs @ [ev])")
    case True
    then show ?thesis using window_scores_exact [OF snoc.prems] by (simp add: reference_score_def)
  next
    case False
    then have "cf_z_bid (cancel_feed cancel_new (evs @ [ev])) = cf_z_bid (cancel_feed cancel_new evs)"
      "cf_z_ask (cancel_feed cancel_new (evs @ [ev])) = cf_z_ask (cancel_feed cancel_new evs)"
      using event_recent [OF snoc.prems(2,3)] by simp_all
    moreover have "cf_z_bid (cancel_feed cancel_new evs) = 0 \<and> cf_z_ask (cancel_feed cancel_new evs) = 0"
    proof (cases "evs = []")
      case False
      note p = paced_feed_snoc [OF snoc.prems(2) False]
      show ?thesis using snoc.IH [OF False p(1)] snoc.prems(3) p(2) \<open>\<not> 1 \<le> last_bucket (evs @ [ev])\<close>
        by (simp add: reference_score_def)
    qed (simp add: cancel_feed_def cancel_new_def)
    ultimately show ?thesis using False by (simp add: reference_score_def)
  qed
qed simp

section \<open>The second difference of the imbalance\<close>

text \<open>
  The feed with the midprice known at each event, the imbalance of the window that ends it, and its
  second difference.
\<close>

fun priced :: "int \<Rightarrow> (lob_event \<times> order_book) list \<Rightarrow> (int \<times> lob_event) list" where
  "priced m [] = []"
| "priced m (x # xs) =
     (let bid = best_bid (snd x); ask = best_ask (snd x);
          m' = (if 0 < bid \<and> 0 < ask then c_div (i64 (bid + ask)) 2 else m)
      in (m', fst x) # priced m' xs)"

lemma priced_events [simp]: "map snd (priced m xs) = map fst xs" "length (priced m xs) = length xs"
  "priced m xs = [] \<longleftrightarrow> xs = []"
  by (induction xs arbitrary: m) (simp_all add: Let_def)

lemma priced_butlast: "priced m (butlast xs) = butlast (priced m xs)"
  by (induction xs arbitrary: m) (auto simp: Let_def)

lemma priced_times: "map time_of (priced m xs) = map ev_timestamp_ns (map fst xs)"
  by (induction xs arbitrary: m) (simp_all add: time_of_def Let_def)

lemma signal_feed_priced:
  "se_delta (signal_feed e xs) = delta_feed (se_delta e) (priced (df_midprice (se_delta e)) xs)"
proof (induction xs arbitrary: e)
  case (Cons x xs)
  then show ?case
    by (simp add: signal_on_event_factors feed_factors_def delta_feed_def set_midprice_def Let_def)
qed (simp add: delta_feed_def)

definition reference_imbalance :: "(lob_event \<times> order_book) list \<Rightarrow> int" where
  "reference_imbalance xs =
     (if xs = [] then 0 else window_imbalance kDefaultWindowNs kDefaultBucketNs (priced 0 xs))"

definition reference_acceleration :: "(lob_event \<times> order_book) list \<Rightarrow> int" where
  "reference_acceleration xs = reference_imbalance xs - 2 * reference_imbalance (butlast xs) +
     reference_imbalance (butlast (butlast xs))"

text \<open>A feed both factors can follow exactly: no gap over eleven buckets, no wrap, bounded volume.\<close>

definition steady_feed :: "(lob_event \<times> order_book) list \<Rightarrow> bool" where
  "steady_feed xs \<longleftrightarrow> int (length xs) \<le> 2 ^ 26 \<and>
     paced (ev_timestamp_ns (fst (hd xs))) kBucketNs 11 (map (ev_timestamp_ns \<circ> fst) xs) \<and>
     sum_list (map (\<lambda>x. max 0 (ev_qty (fst x))) xs) \<le> 2 ^ 50"

lemma steady_butlast: "steady_feed xs \<Longrightarrow> steady_feed (butlast xs)"
proof (cases xs rule: rev_cases)
  case (snoc ys y)
  assume s: "steady_feed xs"
  show ?thesis
  proof (cases "ys = []")
    case True
    then show ?thesis using snoc by (simp add: steady_feed_def paced_def)
  next
    case False
    have "(\<Sum>x\<leftarrow>ys. max 0 (ev_qty (fst x))) \<le> (\<Sum>x\<leftarrow>xs. max 0 (ev_qty (fst x)))" by (simp add: snoc)
    then show ?thesis using s snoc False by (auto simp: steady_feed_def paced_snoc)
  qed
qed simp

lemma paced_mono: "paced t0 b m ts \<Longrightarrow> m \<le> n \<Longrightarrow> paced t0 b n ts"
  by (auto simp: paced_def elim: successively_mono)

lemma steady_paced: "steady_feed xs \<Longrightarrow> paced_feed (map fst xs)"
  using paced_mono [of "ev_timestamp_ns (fst (hd xs))" kBucketNs 11 _ kMaxCancelBuckets]
  by (cases xs) (auto simp: steady_feed_def paced_feed_def kMaxCancelBuckets_def comp_def paced_def)

lemma volumes_le: "buy_of x + sell_of x \<le> max 0 (ev_qty (snd x))"
  by (auto simp: buy_of_def sell_of_def)

lemma priced_volumes:
  "sum_list (map buy_of (priced m xs)) + sum_list (map sell_of (priced m xs)) \<le> sum_list (map (\<lambda>x. max 0 (ev_qty (fst x))) xs)"
proof (induction xs arbitrary: m)
  case (Cons x xs)
  let ?m = "if 0 < best_bid (snd x) \<and> 0 < best_ask (snd x) then c_div (i64 (best_bid (snd x) + best_ask (snd x))) 2 else m"
  show ?case using Cons.IH [of ?m] volumes_le [of "(?m, fst x)"] by (simp add: Let_def)
qed simp

lemma sum_filtered_le:
  "sum_list (map (\<lambda>x. f x - g x) (filter P xs)) \<le> sum_list (map f xs)"
  "- sum_list (map g xs) \<le> sum_list (map (\<lambda>x. f x - g x) (filter P xs))"
  if "\<And>x. 0 \<le> f x" "\<And>x. 0 \<le> g x" for f g :: "'a \<Rightarrow> int"
proof (induction xs)
  case (Cons x xs)
  { case 1 show ?case using Cons.IH(1) that [of x] by auto }
  { case 2 show ?case using Cons.IH(2) that [of x] by auto }
qed simp_all

lemma imbalance_bounded:
  assumes "steady_feed xs"
  shows "\<bar>reference_imbalance xs\<bar> \<le> 2 ^ 50"
proof -
  let ?h = "priced 0 xs"
  have nn: "0 \<le> sum_list (map buy_of ?h)" "0 \<le> sum_list (map sell_of ?h)"
    by (rule sum_list_nonneg; auto)+
  have "sum_list (map buy_of ?h) + sum_list (map sell_of ?h) \<le> 2 ^ 50"
    using priced_volumes [of 0 xs] assms by (simp add: steady_feed_def)
  moreover have "reference_imbalance xs \<le> sum_list (map buy_of ?h)" "- sum_list (map sell_of ?h) \<le> reference_imbalance xs"
    using nn sum_filtered_le [where f = buy_of and g = sell_of and xs = ?h]
    by (simp_all add: reference_imbalance_def window_imbalance_def Let_def)
  ultimately show ?thesis using nn by linarith
qed

lemma imbalance_exact:
  assumes "steady_feed xs" "xs \<noteq> []"
  shows "df_net_delta (delta_feed delta_default (priced 0 xs)) = Fin (of_int (reference_imbalance xs))"
proof -
  let ?h = "priced 0 xs"
  have nn: "0 \<le> sum_list (map buy_of ?h)" "0 \<le> sum_list (map sell_of ?h)"
    by (rule sum_list_nonneg; auto)+
  have v: "sum_list (map buy_of ?h) + sum_list (map sell_of ?h) \<le> 2 ^ 50"
    using priced_volumes [of 0 xs] assms(1) by (simp add: steady_feed_def)
  have "time_of (hd ?h) = ev_timestamp_ns (fst (hd xs))" using assms(2) by (cases xs) (simp_all add: Let_def time_of_def)
  then have "paced (time_of (hd ?h)) kDefaultBucketNs (df_num_buckets delta_default) (map time_of ?h)"
    using assms(1) delta_default_timing(2)
    by (simp add: steady_feed_def default_timing_def priced_times kBucketNs_def kDefaultBucketNs_def comp_def)
  then show ?thesis
    using window_imbalance_exact [OF delta_default_timing(1), of ?h] assms(2) nn v
    by (simp add: reference_imbalance_def kDefaultWindowNs_def kDefaultBucketNs_def kMaxDeltaBuckets_def)
qed

lemma net_exact:
  "steady_feed xs \<Longrightarrow> df_net_delta (delta_feed delta_default (priced 0 xs)) = Fin (of_int (reference_imbalance xs))"
  using imbalance_exact [of xs] delta_new_params [OF delta_default_timing(1)]
  by (cases "xs = []") (simp_all add: delta_feed_def reference_imbalance_def delta_default_def delta_new_def
      kDefaultWindowNs_def kDefaultBucketNs_def kMaxDeltaBuckets_def zero_f64_def)

lemma priced_snoc: "\<exists>m. priced 0 (xs @ [x]) = priced 0 xs @ [(m, fst x)]"
proof -
  let ?h = "priced 0 (xs @ [x])"
  have "?h = butlast ?h @ [last ?h]" by simp
  moreover have "butlast ?h = priced 0 xs" using priced_butlast [of 0 "xs @ [x]"] by simp
  moreover have "snd (last ?h) = fst x" using priced_events(1) [of 0 "xs @ [x]"] by (metis last_map last_snoc map_append list.map snoc_eq_iff_butlast)
  ultimately show ?thesis by (metis prod.collapse)
qed

lemma feed_shift:
  "\<exists>d ev. df_net_delta d = df_net_delta (delta_feed delta_default (priced 0 xs)) \<and>
     df_prev_delta d = df_prev_delta (delta_feed delta_default (priced 0 xs)) \<and>
     delta_feed delta_default (priced 0 (xs @ [x])) = delta_on_event ev d"
proof -
  obtain m where m: "priced 0 (xs @ [x]) = priced 0 xs @ [(m, fst x)]" using priced_snoc by blast
  show ?thesis
    by (rule exI [of _ "set_midprice m (delta_feed delta_default (priced 0 xs))"], rule exI [of _ "fst x"])
       (simp add: m delta_feed_snoc set_midprice_def)
qed

lemma prev_exact:
  assumes "steady_feed xs"
  shows "df_prev_delta (delta_feed delta_default (priced 0 xs)) = Fin (of_int (reference_imbalance (butlast xs)))"
proof (cases xs rule: rev_cases)
  case Nil
  then show ?thesis
    by (simp add: delta_feed_def reference_imbalance_def delta_default_def delta_new_def
        kDefaultWindowNs_def kDefaultBucketNs_def kMaxDeltaBuckets_def zero_f64_def)
next
  case (snoc ys y)
  have "steady_feed ys" using steady_butlast [OF assms] snoc by simp
  then show ?thesis using net_exact [of ys] feed_shift [of ys y] snoc by (auto simp: delta_on_event_shift)
qed

lemma acceleration_exact:
  assumes "steady_feed (xs @ [x])"
  shows "df_acceleration (delta_feed delta_default (priced 0 (xs @ [x]))) = Fin (of_int (reference_acceleration (xs @ [x])))"
proof -
  have s: "steady_feed xs" using steady_butlast [OF assms] by simp
  let ?a = "reference_imbalance (xs @ [x])" and ?b = "reference_imbalance xs" and ?c = "reference_imbalance (butlast xs)"
  have bnd: "\<bar>?a\<bar> \<le> 2 ^ 50" "\<bar>?b\<bar> \<le> 2 ^ 50" "\<bar>?c\<bar> \<le> 2 ^ 50"
    using imbalance_bounded assms s steady_butlast [OF s] by blast+
  obtain d ev where d: "df_net_delta d = Fin (of_int ?b)" "df_prev_delta d = Fin (of_int ?c)"
      "delta_feed delta_default (priced 0 (xs @ [x])) = delta_on_event ev d"
    using feed_shift [of xs x] net_exact [OF s] prev_exact [OF s] by auto
  have "df_acceleration (delta_on_event ev d) = Fin (of_int ?a) - Fin (of_int 2) * Fin (of_int ?b) + Fin (of_int ?c)"
    using net_exact [OF assms] d delta_on_event_shift(3) [of ev d] by simp
  also have "\<dots> = Fin (of_int (?a - 2 * ?b + ?c))"
    using bnd by (subst f64_mult_int, simp, subst f64_sub_int, simp, subst f64_add_int) simp_all
  finally show ?thesis using d(3) by (simp add: reference_acceleration_def)
qed

section \<open>The engine against direct computation from the history\<close>

text \<open>Buy on a positive acceleration with many deleted offers, sell on a negative one with many deleted bids.\<close>

definition reference_direction :: "f64 \<Rightarrow> f64 \<Rightarrow> (lob_event \<times> order_book) list \<Rightarrow> direction" where
  "reference_direction thresh min_z xs =
     (let a = Fin (of_int (reference_acceleration xs)); evs = map fst xs;
          z = std_max min_z (reference_threshold evs)
      in if thresh < a \<and> z < reference_score Offer evs then DirBuy
         else if a < - thresh \<and> z < reference_score Bid evs then DirSell else DirNone)"

definition reference_signal :: "f64 \<Rightarrow> f64 \<Rightarrow> (lob_event \<times> order_book) list \<Rightarrow> signal option" where
  "reference_signal thresh min_z xs =
     (let (ev, book) = last xs; evs = map fst xs
      in case reference_direction thresh min_z xs of
           DirNone \<Rightarrow> None
         | DirBuy \<Rightarrow> Some \<lparr> sig_trigger_time_ns = ev_timestamp_ns ev, sig_l1_price = best_ask book,
             sig_delta_val = Fin (of_int (reference_acceleration xs)),
             sig_cancel_z = reference_score Offer evs, sig_direction = DirBuy \<rparr>
         | DirSell \<Rightarrow> Some \<lparr> sig_trigger_time_ns = ev_timestamp_ns ev, sig_l1_price = best_bid book,
             sig_delta_val = Fin (of_int (reference_acceleration xs)),
             sig_cancel_z = reference_score Bid evs, sig_direction = DirSell \<rparr>)"

lemma signal_feed_snoc: "signal_feed e (xs @ [x]) = fst (signal_on_event (signal_feed e xs) (fst x) (snd x))"
  by (induction xs arbitrary: e) simp_all

lemma signal_feed_params:
  "se_thresh_delta (signal_feed e xs) = se_thresh_delta e" "se_min_cancel_z (signal_feed e xs) = se_min_cancel_z e"
  by (induction xs arbitrary: e) (simp_all add: signal_on_event_factors)

lemma feed_direction:
  assumes "steady_feed (xs @ [(ev, book)])"
  shows "let e = feed_factors (signal_feed (signal_engine_new thresh min_z) xs) ev book; h = xs @ [(ev, book)]
    in df_acceleration (se_delta e) = Fin (of_int (reference_acceleration h)) \<and>
       cf_z_bid (se_cancel e) = reference_score Bid (map fst h) \<and> cf_z_ask (se_cancel e) = reference_score Offer (map fst h) \<and>
       signal_direction e = reference_direction thresh min_z h"
proof -
  let ?new = "signal_engine_new thresh min_z" and ?h = "xs @ [(ev, book)]"
  let ?fed = "feed_factors (signal_feed ?new xs) ev book"
  have ev: "map fst ?h \<noteq> []" "paced_feed (map fst ?h)" "int (length (map fst ?h)) \<le> 2 ^ 26"
    using steady_paced [OF assms] assms by (simp_all add: steady_feed_def)
  have d: "se_delta ?fed = delta_feed delta_default (priced 0 ?h)" "se_cancel ?fed = cancel_feed cancel_new (map fst ?h)"
    using signal_feed_priced [of ?new ?h] signal_feed_cancel [of ?new ?h]
    by (simp_all add: signal_feed_snoc signal_on_event_factors signal_engine_new_def delta_default_def delta_new_def
        kDefaultWindowNs_def kDefaultBucketNs_def kMaxDeltaBuckets_def)
  have p: "se_thresh_delta (signal_feed ?new xs) = thresh" "se_min_cancel_z (signal_feed ?new xs) = min_z"
    by (simp_all add: signal_feed_params signal_engine_new_def)
  show ?thesis
    using acceleration_exact [OF assms] scores_exact [OF ev] threshold_exact [OF ev(2,3)]
    by (simp add: signal_direction_def reference_direction_def d p Let_def)
qed

lemma feed_signal:
  assumes "steady_feed (xs @ [(ev, book)])"
    and "signal_on_event (signal_feed (signal_engine_new thresh min_z) xs) ev book = (e, fired)"
  shows "(if fired then Some (se_last_signal e) else None) = reference_signal thresh min_z (xs @ [(ev, book)])"
  using feed_direction [OF assms(1), of thresh min_z] assms(2)
  by (auto simp: signal_on_event_def reference_signal_def Let_def split: direction.splits if_splits)

text \<open>
  C3: The engine computes the reference.  After a steady feed the engine fires on an event
  exactly when direct computation from the history gives a direction, and the signal it stores is the
  reference's, price, acceleration and score included; the rings, sums and queues it keeps between
  events lose nothing.
\<close>

theorem engine_matches_reference:
  assumes "steady_feed (xs @ [(ev, book)])"
    and "signal_on_event (signal_feed (signal_engine_new thresh min_z) xs) ev book = (e, fired)"
  shows "(if fired then Some (se_last_signal e) else None) = reference_signal thresh min_z (xs @ [(ev, book)])"
  by (rule feed_signal [OF assms])

section \<open>The backtest counts the reference's signals\<close>

text \<open>Each event with the book right after it, and the signals of all prefixes.\<close>

fun with_books :: "order_book \<Rightarrow> lob_event list \<Rightarrow> (lob_event \<times> order_book) list" where
  "with_books b [] = []"
| "with_books b (ev # evs) = (let b' = book_after b ev in (ev, b') # with_books b' evs)"

definition reference_signals :: "f64 \<Rightarrow> lob_event list \<Rightarrow> signal list" where
  "reference_signals thresh evs =
     List.map_filter (reference_signal thresh (Fin (3 / 2))) (tl (prefixes (with_books book_empty evs)))"

lemma with_books_snoc: "with_books b (evs @ [ev]) = with_books b evs @ [(ev, book_after (book_run b evs) ev)]"
  by (induction evs arbitrary: b) (simp_all add: Let_def book_run_def)

lemma prefixes_not_Nil: "prefixes xs \<noteq> []" by (cases xs) simp_all

lemma reference_signals_snoc:
  "reference_signals thresh (evs @ [ev]) = reference_signals thresh evs @
     (case reference_signal thresh (Fin (3 / 2)) (with_books book_empty (evs @ [ev])) of None \<Rightarrow> [] | Some s \<Rightarrow> [s])"
  by (simp add: reference_signals_def with_books_snoc prefixes_not_Nil map_filter_def split: option.splits)

lemma bt_run_engine: "bt_engine (bt_run b evs) = signal_feed (bt_engine b) (with_books (bt_book b) evs)"
proof (induction evs arbitrary: b)
  case (Cons ev evs)
  have "bt_engine (bt_step b ev) = fst (signal_on_event (bt_engine b) ev (book_after (bt_book b) ev))"
    by (simp add: bt_step_def case_prod_unfold Let_def)
  then show ?case using Cons by (simp add: bt_step_book Let_def)
qed simp

lemma bt_run_books: "bt_book (bt_run b evs) = book_run (bt_book b) evs"
  by (induction evs arbitrary: b) (simp_all add: bt_step_book book_run_def)

lemma judge_counts:
  "br_total_signals (fst (judge_pending now history acc p)) = br_total_signals (fst acc)"
  "br_buy_signals (fst (judge_pending now history acc p)) = br_buy_signals (fst acc)"
  "br_sell_signals (fst (judge_pending now history acc p)) = br_sell_signals (fst acc)"
  by (cases acc; simp add: judge_pending_def score_outcome_def Let_def)+

lemma judge_all_counts:
  assumes "judge_all now history r ps = (r', kept)"
  shows "br_total_signals r' = br_total_signals r" "br_buy_signals r' = br_buy_signals r" "br_sell_signals r' = br_sell_signals r"
proof -
  have "br_total_signals (fst (foldl (judge_pending now history) acc ps)) = br_total_signals (fst acc)"
    "br_buy_signals (fst (foldl (judge_pending now history) acc ps)) = br_buy_signals (fst acc)"
    "br_sell_signals (fst (foldl (judge_pending now history) acc ps)) = br_sell_signals (fst acc)" for acc
    by (induction ps arbitrary: acc) (simp_all add: judge_counts)
  from this [of "(r, [])"] show "br_total_signals r' = br_total_signals r" "br_buy_signals r' = br_buy_signals r"
    "br_sell_signals r' = br_sell_signals r" using assms by (simp_all add: judge_all_def)
qed

definition counts_of :: "signal list \<Rightarrow> bt_result \<Rightarrow> bool" where
  "counts_of sigs r \<longleftrightarrow> br_total_signals r = of_nat (length sigs) \<and>
     br_buy_signals r = of_nat (length (filter (\<lambda>s. sig_direction s = DirBuy) sigs)) \<and>
     br_sell_signals r = of_nat (length (filter (\<lambda>s. sig_direction s = DirSell) sigs))"

lemma bt_step_counts:
  assumes "counts_of sigs (bt_result b)" "signal_on_event (bt_engine b) ev (book_after (bt_book b) ev) = (e, fired)"
  shows "counts_of (sigs @ (if fired then [se_last_signal e] else [])) (bt_result (bt_step b ev))"
proof -
  let ?book = "book_after (bt_book b) ev"
  obtain r kept where j: "judge_all (ev_timestamp_ns ev) (note_price ev ?book (bt_history b)) (bt_result b) (bt_pending b) = (r, kept)"
    by fastforce
  have "counts_of sigs r" using judge_all_counts [OF j] assms(1) by (simp add: counts_of_def)
  then have "counts_of (sigs @ (if fired then [se_last_signal e] else []))
      (if fired then count_signal (sig_direction (se_last_signal e)) r else r)"
    by (auto simp: counts_of_def count_signal_def Let_def)
  then show ?thesis using assms(2) j by (cases fired) (simp_all add: bt_step_def case_prod_unfold Let_def)
qed

lemma backtest_counts:
  "steady_feed (with_books book_empty evs) \<Longrightarrow>
     counts_of (reference_signals thresh evs) (bt_result (bt_run (backtest_init thresh) evs))"
proof (induction evs rule: rev_induct)
  case Nil
  then show ?case
    by (simp add: reference_signals_def map_filter_def counts_of_def backtest_init_def result_init_def)
next
  case (snoc ev evs)
  let ?b = "bt_run (backtest_init thresh) evs"
  obtain e fired where e: "signal_on_event (bt_engine ?b) ev (book_after (bt_book ?b) ev) = (e, fired)" by fastforce
  have b: "bt_book ?b = book_run book_empty evs" "bt_engine ?b = signal_feed (signal_engine_new thresh (Fin (3 / 2))) (with_books book_empty evs)"
    by (simp_all add: bt_run_books bt_run_engine backtest_init_def)
  have steady: "steady_feed (with_books book_empty evs)"
    using steady_butlast [OF snoc.prems] by (simp add: with_books_snoc)
  have "(if fired then Some (se_last_signal e) else None)
      = reference_signal thresh (Fin (3 / 2)) (with_books book_empty (evs @ [ev]))"
    using feed_signal [of "with_books book_empty evs" ev] snoc.prems e by (simp add: b with_books_snoc)
  then show ?case
    using bt_step_counts [OF snoc.IH [OF steady] e]
    by (auto simp: reference_signals_snoc bt_run_snoc split: if_splits option.splits)
qed

text \<open>
  C7: The figures of the backtest are those of the reference.  On a steady recording the replay reports
  as many signals, and as many of each direction, as the history has by direct computation.
\<close>

theorem backtest_counts_reference_signals:
  assumes "steady_feed (with_books book_empty evs)"
  shows "let r = bt_result (bt_run (backtest_init thresh) evs); sigs = reference_signals thresh evs
    in br_total_signals r = of_nat (length sigs) \<and>
       br_buy_signals r = of_nat (length (filter (\<lambda>s. sig_direction s = DirBuy) sigs)) \<and>
       br_sell_signals r = of_nat (length (filter (\<lambda>s. sig_direction s = DirSell) sigs))"
  using backtest_counts [OF assms, of thresh] by (simp add: counts_of_def Let_def)

section \<open>Witnesses\<close>

lemma burst_steady: "steady_feed [(quiet, book_empty), (burst, book_empty), (collapse, book_empty)]"
  by (simp add: steady_feed_def sample_event_defs paced_def grid_index_def kBucketNs_def)

theorem engine_matches_reference_witness:
  "\<exists>s. reference_signal (Fin 1) (Fin (1 / 2)) [(quiet, book_empty), (burst, book_empty), (collapse, book_empty)] = Some s \<and>
     sig_direction s = DirSell \<and> sig_trigger_time_ns s = 1012000000"
proof -
  let ?xs = "[(quiet, book_empty), (burst, book_empty)]"
  obtain e where e: "signal_on_event sample_engine collapse book_empty = (e, True)" "sig_direction (se_last_signal e) = DirSell"
    using sample_fires by blast
  have "signal_on_event (signal_feed (signal_engine_new (Fin 1) (Fin (1 / 2))) ?xs) collapse book_empty = (e, True)"
    using e(1) by (simp add: sample_engine_def)
  from engine_matches_reference [OF _ this]
  have "Some (se_last_signal e) = reference_signal (Fin 1) (Fin (1 / 2)) (?xs @ [(collapse, book_empty)])"
    using burst_steady by simp
  moreover have "sig_trigger_time_ns (se_last_signal e) = 1012000000"
    using e by (auto simp: signal_on_event_def collapse_def delete_at_def Let_def split: if_splits)
  ultimately show ?thesis using e(2) by (metis append_Cons append_Nil)
qed

text \<open>A score of a single deletion among four buckets: the square root of three, rounded.\<close>

lemma sqrt_three_sixteenths: "\<exists>r. f64_sqrt (Fin (3 / 16)) = Fin r \<and> 1 / 4 \<le> r \<and> r \<le> 7 / 16"
proof -
  have e: "expo (3 / 16) = - 3" by (rule expo_unique) (simp_all add: pow2_def)
  let ?s = "isqrt (3 * 2 ^ 120)"
  have "?s * ?s \<le> 3 * 2 ^ 120" using isqrt_correct by blast
  also have "\<dots> < (7 * 2 ^ 58) * (7 * 2 ^ 58)" by simp
  finally have "?s < 7 * 2 ^ 58" by (meson mult_le_mono not_le)
  then have "rat_of_nat (?s + 1) \<le> rat_of_nat (7 * 2 ^ 58)" by (subst of_nat_le_iff) simp
  then have s: "rat_of_nat ?s + 1 \<le> 7 * 2 ^ 58" by simp
  have "nat \<lfloor>3 / 16 * pow2 124\<rfloor> = 3 * 2 ^ 120" by (simp add: pow2_def)
  then have "sqrt_approx (3 / 16) = (if of_nat (?s * ?s) = (3 / 16 :: rat) * pow2 124 then of_nat ?s else of_nat ?s + 1 / 2) / pow2 62"
    by (simp add: sqrt_approx_def e Let_def)
  also have "\<dots> \<le> 7 / 16"
    using s by (simp add: pow2_def divide_le_eq)
  finally have le: "sqrt_approx (3 / 16) \<le> 7 / 16" .
  have f: "is_f53 (7 / 16)" using is_f53_dyadic [of 7 "- 4"] by (simp add: pow2_def)
  have "rnd (sqrt_approx (3 / 16)) \<le> 7 / 16" using rnd_mono [OF le] f by simp
  moreover obtain r where "f64_sqrt (Fin (3 / 16)) = Fin r" "1 / 4 \<le> r"
    using f64_sqrt_at_least [of "- 2" "3 / 16"] by (auto simp: pow2_def)
  ultimately show ?thesis by (intro exI [of _ r]) simp
qed

lemma one_of_four: "\<exists>z. z_of_counts [1, 0, 0, 0] = Fin z \<and> 13 / 8 \<le> z"
proof -
  obtain r where r: "f64_sqrt (Fin (3 / 16)) = Fin r" "1 / 4 \<le> r" "r \<le> 7 / 16" using sqrt_three_sixteenths by blast
  have f: "is_f53 (1 / 4)" "is_f53 (1 / 16)" "is_f53 (3 / 16)" "is_f53 (3 / 4)" "is_f53 (13 / 8)"
    using is_f53_dyadic [of 1 "- 2"] is_f53_dyadic [of 1 "- 4"] is_f53_dyadic [of 3 "- 4"] is_f53_dyadic [of 3 "- 2"]
      is_f53_dyadic [of 13 "- 3"] by (simp_all add: pow2_def)
  have x: "round64 (1 / 4) = Fin (1 / 4)" "round64 (1 / 16) = Fin (1 / 16)" "round64 (3 / 16) = Fin (3 / 16)" "round64 (3 / 4) = Fin (3 / 4)"
    by (simp_all add: round64_moderate f pow2_def)
  have "z_of_counts [1, 0, 0, 0] = round64 (3 / 4 / r)"
    using r x by (simp del: f64_sqrt.simps add: z_of_counts_def z_score_def Let_def minus_f64_def zero_f64_def)
  also have "\<dots> = Fin (rnd (3 / 4 / r))"
    using r by (intro round64_moderate) (simp_all add: divide_le_eq pow2_def)
  finally have "z_of_counts [1, 0, 0, 0] = Fin (rnd (3 / 4 / r))" .
  moreover have "13 / 8 \<le> 3 / 4 / r" using r by (simp add: le_divide_eq)
  then have "13 / 8 \<le> rnd (3 / 4 / r)" using rnd_mono [of "13 / 8" "3 / 4 / r"] f by simp
  ultimately show ?thesis by blast
qed

text \<open>Three quiet buckets, then a trade and a deleted bid in the fourth: one sell signal.\<close>

definition sample_record :: "lob_event list" where
  "sample_record = [trade_at 1000000000 200000 0, trade_at 1010000000 200000 0, trade_at 1020000000 200000 0,
     trade_at 1030000000 200000 5, delete_at 1032000000 Bid]"

lemma sample_steady: "steady_feed (with_books book_empty sample_record)"
  by (simp add: sample_record_def trade_at_def delete_at_def steady_feed_def paced_def grid_index_def kBucketNs_def Let_def)

lemma quantile_index_4: "quantile_index 4 \<le> 2"
proof -
  have f: "is_f53 (31 / 32)" "is_f53 (93 / 32)"
    using is_f53_dyadic [of 31 "- 5"] is_f53_dyadic [of 93 "- 5"] by (simp_all add: pow2_def)
  let ?q = "rnd (95 / 100)"
  have q: "0 \<le> ?q" "?q \<le> 31 / 32" using rnd_nonneg [of "95 / 100"] rnd_mono [of "95 / 100" "31 / 32"] f by simp_all
  then have r: "rnd (?q * 3) \<le> 93 / 32" "0 \<le> rnd (?q * 3)"
    using rnd_mono [of "?q * 3" "93 / 32"] rnd_nonneg [of "?q * 3"] f by simp_all
  have ql: "quantile_level = Fin ?q"
    unfolding quantile_level_def by (rule round64_moderate) (simp_all add: pow2_def)
  have "round64 (?q * 3) = Fin (rnd (?q * 3))"
    by (rule round64_moderate) (use q in \<open>simp_all add: pow2_def\<close>)
  moreover have "f64_of_int (int 4 - 1) = Fin 3" by simp
  ultimately have "quantile_level * f64_of_int (int 4 - 1) = Fin (rnd (?q * 3))"
    by (simp only: ql times_f64.simps)
  moreover have "\<lfloor>rnd (?q * 3)\<rfloor> \<le> 2" using r by linarith
  ultimately show ?thesis
    using r by (simp only: quantile_index_def f64_trunc.simps rat_trunc_def Let_def) (simp add: nat_le_iff)
qed

lemma priced_unquoted:
  "\<forall>x \<in> set xs. best_bid (snd x) = 0 \<Longrightarrow> priced 0 xs = map (\<lambda>x. (0, fst x)) xs"
  by (induction xs) simp_all

lemma sample_prefixes:
  "\<exists>b1 b2 b3 b4 b5. with_books book_empty sample_record = zip sample_record [b1, b2, b3, b4, b5] \<and>
     best_bid b1 = 0 \<and> best_bid b2 = 0 \<and> best_bid b3 = 0 \<and> best_bid b4 = 0 \<and> best_bid b5 = 0 \<and> best_ask b5 = 0"
  by (simp add: sample_record_def trade_at_def delete_at_def Let_def book_apply_def put_entry_def side_add_def
      best_bid_def best_ask_def book_empty_def smap_first_def smap_last_def)

lemma sample_windows:
  "window_imbalance kDefaultWindowNs kDefaultBucketNs (map (Pair 0) (take 1 sample_record)) = 0"
  "window_imbalance kDefaultWindowNs kDefaultBucketNs (map (Pair 0) (take 2 sample_record)) = 0"
  "window_imbalance kDefaultWindowNs kDefaultBucketNs (map (Pair 0) (take 3 sample_record)) = 0"
  "window_imbalance kDefaultWindowNs kDefaultBucketNs (map (Pair 0) (take 4 sample_record)) = 5"
  "window_imbalance kDefaultWindowNs kDefaultBucketNs (map (Pair 0) (take 5 sample_record)) = 5"
  by (simp_all add: sample_record_def window_imbalance_def trade_at_def delete_at_def
      buy_of_def sell_of_def time_of_def grid_index_def kDefaultWindowNs_def kDefaultBucketNs_def)

lemma sample_counts:
  "last_bucket (take 1 sample_record) = 0" "last_bucket (take 2 sample_record) = 1" "last_bucket (take 3 sample_record) = 2"
  "last_bucket (take 4 sample_record) = 3" "last_bucket (take 5 sample_record) = 3"
  "window_counts sd (take 2 sample_record) = [0, 0]" "window_counts sd (take 3 sample_record) = [0, 0, 0]"
  "window_counts sd (take 4 sample_record) = [0, 0, 0, 0]"
  "window_counts sd (take 5 sample_record) = [if sd = Bid then 1 else 0, 0, 0, 0]"
  by (simp_all add: sample_record_def trade_at_def delete_at_def last_bucket_def window_counts_def deletes_in_def
      bucket_total_def deletes_def grid_index_def kBucketNs_def upt_conv_Cons)

lemma sample_bucket_times:
  "bucket_time (take 2 sample_record) = 1010000000" "bucket_time (take 3 sample_record) = 1020000000"
  "bucket_time (take 4 sample_record) = 1030000000" "bucket_time (take 5 sample_record) = 1030000000"
  unfolding bucket_time_def sample_counts
  by (simp_all add: sample_record_def trade_at_def kBucketNs_def)

lemma score_log_take:
  "n < length evs \<Longrightarrow> score_log (take (Suc n) evs) = score_log (take n evs) @
     (if 1 \<le> last_bucket (take (Suc n) evs)
      then [(bucket_time (take (Suc n) evs), z_of_counts (window_counts Bid (take (Suc n) evs)),
             z_of_counts (window_counts Offer (take (Suc n) evs)))] else [])"
  using score_log_snoc [of "take n evs" "evs ! n"] by (simp add: take_Suc_conv_app_nth)

lemma quiet_scores: "z_of_counts [0, 0] = Fin 0" "z_of_counts [0, 0, 0] = Fin 0" "z_of_counts [0, 0, 0, 0] = Fin 0"
  by (rule steady_score; simp)+

lemma sample_score_log:
  "score_log (take 3 sample_record) = [(1010000000, Fin 0, Fin 0), (1020000000, Fin 0, Fin 0)]"
  "score_log (take 4 sample_record) = [(1010000000, Fin 0, Fin 0), (1020000000, Fin 0, Fin 0), (1030000000, Fin 0, Fin 0)]"
  "score_log (take 5 sample_record) = [(1010000000, Fin 0, Fin 0), (1020000000, Fin 0, Fin 0), (1030000000, Fin 0, Fin 0),
     (1030000000, z_of_counts [1, 0, 0, 0], Fin 0)]"
proof -
  have l: "length sample_record = 5" by (simp add: sample_record_def)
  have "score_log (take 1 sample_record) = []"
    using score_log_take [of 0 sample_record] l sample_counts(1) by (simp add: score_log_def)
  then have "score_log (take 2 sample_record) = [(1010000000, Fin 0, Fin 0)]"
    using score_log_take [of 1 sample_record] l sample_counts(2,6) sample_bucket_times(1) quiet_scores
    by (simp add: numeral_2_eq_2)
  then show three: "score_log (take 3 sample_record) = [(1010000000, Fin 0, Fin 0), (1020000000, Fin 0, Fin 0)]"
    using score_log_take [of 2 sample_record] l sample_counts(3,7) sample_bucket_times(2) quiet_scores
    by simp
  then show four: "score_log (take 4 sample_record) = [(1010000000, Fin 0, Fin 0), (1020000000, Fin 0, Fin 0), (1030000000, Fin 0, Fin 0)]"
    using score_log_take [of 3 sample_record] l sample_counts(4,8) sample_bucket_times(3) quiet_scores
    by simp
  then show "score_log (take 5 sample_record) = [(1010000000, Fin 0, Fin 0), (1020000000, Fin 0, Fin 0), (1030000000, Fin 0, Fin 0),
     (1030000000, z_of_counts [1, 0, 0, 0], Fin 0)]"
    using score_log_take [of 4 sample_record] l sample_counts(5,9) sample_bucket_times(4) quiet_scores
    by simp
qed

lemma sample_thresholds:
  "reference_threshold (take 4 sample_record) = Fin 0" "reference_threshold (take 5 sample_record) = Fin 0"
proof -
  obtain z where z: "z_of_counts [1, 0, 0, 0] = Fin z" "13 / 8 \<le> z" using one_of_four by blast
  have suc: "Suc (Suc (Suc 0)) = 3" "Suc (Suc (Suc (Suc 0))) = 4" by simp_all
  have "recent_scores (take 4 sample_record) = score_log (take 4 sample_record)"
    "recent_scores (take 5 sample_record) = score_log (take 5 sample_record)"
    by (simp_all add: recent_scores_def sample_score_log sample_bucket_times kQuantileNs_def)
  moreover have "quantile_index 3 < 3" by (rule quantile_index_less) simp_all
  then have "f64_sort [Fin 0, Fin 0, Fin 0] ! quantile_index 3 = Fin 0"
    by (auto simp: f64_sort_def less_Suc_eq numeral_3_eq_3)
  moreover have "quantile_index 4 \<in> {0, 1, 2}" using quantile_index_4 by auto
  then have "f64_sort [Fin 0, Fin 0, Fin 0, Fin z] ! quantile_index 4 = Fin 0"
    using z by (auto simp: f64_sort_def)
  ultimately show "reference_threshold (take 4 sample_record) = Fin 0" "reference_threshold (take 5 sample_record) = Fin 0"
    using z by (simp_all add: reference_threshold_def sample_score_log std_max_def suc)
qed

lemma record_acceleration:
  assumes "map fst xs = take n sample_record" "\<forall>x \<in> set xs. best_bid (snd x) = 0" "n \<in> {1, 2, 3, 4, 5}"
  shows "reference_acceleration xs = window_imbalance kDefaultWindowNs kDefaultBucketNs (map (Pair 0) (take n sample_record))
    - 2 * (if n - 1 = 0 then 0 else window_imbalance kDefaultWindowNs kDefaultBucketNs (map (Pair 0) (take (n - 1) sample_record)))
    + (if n - 2 = 0 then 0 else window_imbalance kDefaultWindowNs kDefaultBucketNs (map (Pair 0) (take (n - 2) sample_record)))"
proof -
  have imb: "reference_imbalance ys = (if ys = [] then 0 else window_imbalance kDefaultWindowNs kDefaultBucketNs (map (Pair 0) (map fst ys)))"
    if "\<forall>x \<in> set ys. best_bid (snd x) = 0" for ys :: "(lob_event \<times> order_book) list"
    using priced_unquoted [OF that] by (simp add: reference_imbalance_def comp_def)
  have len: "length xs = n" using arg_cong [OF assms(1), of length] assms(3) by (auto simp: sample_record_def)
  have b: "map fst (butlast xs) = take (n - 1) sample_record" "map fst (butlast (butlast xs)) = take (n - 2) sample_record"
  proof -
    have "butlast (take n sample_record) = take (n - 1) sample_record"
      "butlast (butlast (take n sample_record)) = take (n - 2) sample_record"
      using assms(3) by (auto simp: sample_record_def)
    then show "map fst (butlast xs) = take (n - 1) sample_record" "map fst (butlast (butlast xs)) = take (n - 2) sample_record"
      using assms(1) by (simp_all add: map_butlast)
  qed
  have q: "\<forall>x \<in> set (butlast xs). best_bid (snd x) = 0" "\<forall>x \<in> set (butlast (butlast xs)). best_bid (snd x) = 0"
    using assms(2) by (auto dest: in_set_butlastD)
  have ne: "xs \<noteq> []" using len assms(3) by auto
  have "butlast xs = [] \<longleftrightarrow> n - 1 = 0" "butlast (butlast xs) = [] \<longleftrightarrow> n - 2 = 0"
    using len by (simp_all add: numeral_2_eq_2 flip: length_0_conv)
  then show ?thesis
    unfolding reference_acceleration_def imb [OF assms(2)] imb [OF q(1)] imb [OF q(2)] b assms(1) using ne by simp
qed

lemma sample_direction:
  assumes "map fst xs = take n sample_record" "\<forall>x \<in> set xs. best_bid (snd x) = 0" "n \<in> {1, 2, 3, 4, 5}"
  shows "reference_direction (Fin 1) (Fin (3 / 2)) xs = (if n = 5 then DirSell else DirNone)"
proof -
  obtain z where z: "z_of_counts [1, 0, 0, 0] = Fin z" "13 / 8 \<le> z" using one_of_four by blast
  note acc = record_acceleration [OF assms]
  consider "n = 1" | "n = 2" | "n = 3" | "n = 4" | "n = 5" using assms(3) by blast
  then show ?thesis
  proof cases
    case 1
    have "reference_acceleration xs = 0" unfolding acc 1 using sample_windows by simp
    then show ?thesis using 1 by (simp add: reference_direction_def Let_def)
  next
    case 2
    have "reference_acceleration xs = 0" unfolding acc 2 using sample_windows by simp
    then show ?thesis using 2 by (simp add: reference_direction_def Let_def)
  next
    case 3
    have "reference_acceleration xs = 0" unfolding acc 3 using sample_windows by simp
    then show ?thesis using 3 by (simp add: reference_direction_def Let_def)
  next
    case 4
    have a: "reference_acceleration xs = 5" unfolding acc 4 using sample_windows by simp
    have "reference_score Offer (take 4 sample_record) = Fin 0"
      using sample_counts(4,8) quiet_scores by (simp add: reference_score_def)
    then show ?thesis using 4 a sample_thresholds assms(1)
      by (simp add: reference_direction_def Let_def std_max_def)
  next
    case 5
    have a: "reference_acceleration xs = - 5" unfolding acc 5 using sample_windows by simp
    have "reference_score Bid (take 5 sample_record) = Fin z"
      using sample_counts(5,9) z by (simp add: reference_score_def)
    then show ?thesis using 5 a sample_thresholds assms(1) z(2)
      by (simp add: reference_direction_def Let_def std_max_def)
  qed
qed

lemma five_prefixes: "length h = 5 \<Longrightarrow> tl (prefixes h) = map (\<lambda>n. take n h) [1, 2, 3, 4, 5]"
  by (auto simp: length_Suc_conv numeral_eq_Suc)

lemma sample_signals:
  "\<exists>s. reference_signals (Fin 1) sample_record = [s] \<and> sig_direction s = DirSell"
proof -
  obtain b1 b2 b3 b4 b5 where z: "with_books book_empty sample_record = zip sample_record [b1, b2, b3, b4, b5]"
    and b: "best_bid b1 = 0" "best_bid b2 = 0" "best_bid b3 = 0" "best_bid b4 = 0" "best_bid b5 = 0"
    using sample_prefixes by blast
  let ?h = "with_books book_empty sample_record"
  have l: "length ?h = 5" by (simp add: z) (simp add: sample_record_def)
  have d: "reference_direction (Fin 1) (Fin (3 / 2)) (take n ?h) = (if n = 5 then DirSell else DirNone)"
    if "n \<in> {1, 2, 3, 4, 5}" for n
  proof (rule sample_direction [OF _ _ that])
    show "map fst (take n ?h) = take n sample_record"
      by (simp add: z take_zip) (simp add: sample_record_def)
    have "\<forall>x \<in> set ?h. best_bid (snd x) = 0" using b by (auto simp: z dest: set_zip_rightD)
    then show "\<forall>x \<in> set (take n ?h). best_bid (snd x) = 0" using in_set_takeD by fast
  qed
  have none: "reference_signal (Fin 1) (Fin (3 / 2)) (take n ?h) = None" if "n \<in> {1, 2, 3, 4}" for n
    using d [of n] that by (auto simp: reference_signal_def case_prod_unfold)
  obtain s where s: "reference_signal (Fin 1) (Fin (3 / 2)) (take 5 ?h) = Some s" "sig_direction s = DirSell"
    using d [of 5] by (auto simp: reference_signal_def case_prod_unfold Let_def)
  have "tl (prefixes ?h) = map (\<lambda>n. take n ?h) [1, 2, 3, 4, 5]" by (rule five_prefixes [OF l])
  then have "reference_signals (Fin 1) sample_record = [s]"
    using none s(1) by (simp add: reference_signals_def map_filter_def)
  then show ?thesis using s(2) by blast
qed

theorem backtest_counts_reference_signals_witness:
  "steady_feed (with_books book_empty sample_record) \<and>
   br_total_signals (bt_result (bt_run (backtest_init (Fin 1)) sample_record)) = 1 \<and>
   br_sell_signals (bt_result (bt_run (backtest_init (Fin 1)) sample_record)) = 1 \<and>
   br_buy_signals (bt_result (bt_run (backtest_init (Fin 1)) sample_record)) = 0"
proof -
  obtain s where "reference_signals (Fin 1) sample_record = [s]" "sig_direction s = DirSell"
    using sample_signals by blast
  then show ?thesis
    using sample_steady backtest_counts_reference_signals [OF sample_steady, of "Fin 1"] by (simp add: Let_def)
qed

end
