(* ===== verification/Log_Handles.thy ===== *)
theory Log_Handles
  imports Binary_Logger
begin

text \<open>
  What \<open>BinaryLogger\<close> and its \<open>Reader\<close> hold of the operating system
  (\<open>src/log/binary_logger.cpp\<close>): a file descriptor and a mapping each, taken by the
  constructors step by step and given back by the destructors.  C++ does not run the destructor
  of an object whose constructor throws, so every throwing path has to give back by itself what
  it took.  Which descriptor \<open>open\<close> returns, which address \<open>mmap\<close> returns, and when
  the calls fail, is the kernel's: a parameter, of which \<open>posix\<close> is assumed and, where descriptors
  run out, \<open>descriptor_limit\<close> and \<open>memory_free\<close>.
\<close>

section \<open>What a process has open\<close>

record process_files =
  pf_fds :: "nat set"
  pf_maps :: "nat set"

text \<open>The members \<open>fd_\<close> and \<open>mapping_\<close>; \<open>None\<close> for \<open>-1\<close> and for \<open>MAP_FAILED\<close>.\<close>

record file_handles =
  fh_fd :: "nat option"
  fh_mapping :: "nat option"

record kernel =
  kn_open :: "nat set \<Rightarrow> nat option"
  kn_ftruncate :: bool
  kn_fstat :: bool
  kn_mmap :: "nat set \<Rightarrow> nat option"

text \<open>A new descriptor is not open already, a new mapping covers no mapped address.\<close>

definition posix :: "kernel \<Rightarrow> bool" where
  "posix k \<longleftrightarrow> (\<forall>fds fd. kn_open k fds = Some fd \<longrightarrow> fd \<notin> fds) \<and> (\<forall>maps a. kn_mmap k maps = Some a \<longrightarrow> a \<notin> maps)"

text \<open>A mapping of a file does not fail for want of memory.\<close>

definition memory_free :: "kernel \<Rightarrow> bool" where
  "memory_free k \<longleftrightarrow> (\<forall>maps. finite maps \<longrightarrow> kn_mmap k maps \<noteq> None)"

text \<open>At most \<open>limit\<close> descriptors, and as many when nothing else stops \<open>open\<close>.\<close>

definition descriptor_limit :: "nat \<Rightarrow> kernel \<Rightarrow> bool" where
  "descriptor_limit limit k \<longleftrightarrow> (\<forall>fds. finite fds \<longrightarrow> (kn_open k fds = None \<longleftrightarrow> limit \<le> card fds))"

definition close_fd :: "nat \<Rightarrow> process_files \<Rightarrow> process_files" where
  "close_fd fd p = p\<lparr>pf_fds := pf_fds p - {fd}\<rparr>"

definition unmap :: "nat \<Rightarrow> process_files \<Rightarrow> process_files" where
  "unmap a p = p\<lparr>pf_maps := pf_maps p - {a}\<rparr>"

section \<open>Constructors and destructors\<close>

definition logger_construct ::
  "u64 \<Rightarrow> kernel \<Rightarrow> u64 \<Rightarrow> process_files \<Rightarrow> process_files \<times> (log_error + file_handles \<times> log_file)" where
  "logger_construct ps k buffer_size p =
     (if buffer_size = 0 then (p, Inl InvalidArgument)
      else
        (let buf_size = round_up_page ps buffer_size
         in case kn_open k (pf_fds p) of
              None \<Rightarrow> (p, Inl (SystemError ''open''))
            | Some fd \<Rightarrow>
                (let p1 = p\<lparr>pf_fds := insert fd (pf_fds p)\<rparr>
                 in if \<not> kn_ftruncate k then (close_fd fd p1, Inl (SystemError ''ftruncate''))
                    else case kn_mmap k (pf_maps p1) of
                           None \<Rightarrow> (close_fd fd p1, Inl (SystemError ''mmap''))
                         | Some a \<Rightarrow>
                             (p1\<lparr>pf_maps := insert a (pf_maps p1)\<rparr>,
                              Inr (\<lparr> fh_fd = Some fd, fh_mapping = Some a \<rparr>,
                                   \<lparr> lf_header = \<lparr> lh_magic = kLogMagic, lh_version = kLogVersion, lh_reserved = 0,
                                       lh_buffer_size = buf_size, lh_write_pos = 0 \<rparr>,
                                     lf_buf = replicate (unat buf_size) 0 \<rparr>)))))"

text \<open>Unmap, then close; the \<open>msync\<close> of the writer changes no handle.\<close>

definition logger_destroy :: "file_handles \<Rightarrow> process_files \<Rightarrow> process_files" where
  "logger_destroy h p =
     (let p1 = (case fh_mapping h of None \<Rightarrow> p | Some a \<Rightarrow> unmap a p)
      in case fh_fd h of None \<Rightarrow> p1 | Some fd \<Rightarrow> close_fd fd p1)"

definition reader_construct ::
  "kernel \<Rightarrow> log_file option \<Rightarrow> process_files \<Rightarrow> process_files \<times> (log_error + file_handles \<times> log_reader)" where
  "reader_construct k file p =
     (case kn_open k (pf_fds p) of
        None \<Rightarrow> (p, Inl (SystemError ''open''))
      | Some fd \<Rightarrow>
          (let p1 = p\<lparr>pf_fds := insert fd (pf_fds p)\<rparr>
           in if \<not> kn_fstat k then (close_fd fd p1, Inl (SystemError ''fstat''))
              else case file of
                     None \<Rightarrow> (p1, Inl (RuntimeError ''file too small''))
                   | Some f \<Rightarrow>
                       (case kn_mmap k (pf_maps p1) of
                          None \<Rightarrow> (close_fd fd p1, Inl (SystemError ''mmap''))
                        | Some a \<Rightarrow>
                            (let p2 = p1\<lparr>pf_maps := insert a (pf_maps p1)\<rparr>
                             in if lh_magic (lf_header f) \<noteq> kLogMagic then (p2, Inl (RuntimeError ''bad magic''))
                                else
                                  (let buf_size = lh_buffer_size (lf_header f); end_pos = lh_write_pos (lf_header f)
                                   in (p2, Inr (\<lparr> fh_fd = Some fd, fh_mapping = Some a \<rparr>,
                                        \<lparr> rd_buf_size = buf_size, rd_read_pos = oldest_pos buf_size end_pos,
                                          rd_end_pos = end_pos, rd_total_records = 0 \<rparr>)))))))"

definition reader_destroy :: "file_handles \<Rightarrow> process_files \<Rightarrow> process_files" where
  "reader_destroy h p =
     (let p1 = (case fh_mapping h of None \<Rightarrow> p | Some a \<Rightarrow> unmap a p)
      in case fh_fd h of None \<Rightarrow> p1 | Some fd \<Rightarrow> close_fd fd p1)"

text \<open>Opening the same file again and again, as a program that waits for a good one does.\<close>

fun reader_attempts :: "nat \<Rightarrow> kernel \<Rightarrow> log_file option \<Rightarrow> process_files \<Rightarrow> process_files" where
  "reader_attempts 0 k file p = p"
| "reader_attempts (Suc n) k file p = reader_attempts n k file (fst (reader_construct k file p))"

section \<open>Without the handles: the constructors of the file's contents\<close>

definition outcomes :: "kernel \<Rightarrow> process_files \<Rightarrow> system_calls" where
  "outcomes k p = \<lparr> sys_open = (kn_open k (pf_fds p) \<noteq> None), sys_ftruncate = kn_ftruncate k, sys_fstat = kn_fstat k,
     sys_mmap = (kn_mmap k (pf_maps p) \<noteq> None) \<rparr>"

lemma logger_construct_open:
  "map_sum id snd (snd (logger_construct ps k buffer_size p)) = logger_open ps (outcomes k p) buffer_size"
  by (simp add: logger_construct_def logger_open_def outcomes_def Let_def split: option.split)

lemma reader_construct_open:
  "map_sum id snd (snd (reader_construct k file p)) = reader_open (outcomes k p) file"
  by (simp add: reader_construct_def reader_open_def outcomes_def Let_def split: option.split)

section \<open>What is taken is given back, or not\<close>

lemma insert_return [simp]: "fd \<notin> fds \<Longrightarrow> insert fd fds - {fd} = fds" by auto

lemma posix_fresh: "posix k \<Longrightarrow> kn_open k fds = Some fd \<Longrightarrow> fd \<notin> fds" "posix k \<Longrightarrow> kn_mmap k maps = Some a \<Longrightarrow> a \<notin> maps"
  by (simp_all add: posix_def)

lemmas handle_defs = logger_construct_def logger_destroy_def reader_construct_def reader_destroy_def
  close_fd_def unmap_def Let_def

text \<open>
  C27: The writer gives back what it takes.  If its constructor throws, on any path, the process
  has open exactly what it had before; if not, it holds one new descriptor and one new mapping, and the
  destructor gives back exactly these.
\<close>

theorem writer_returns_handles:
  assumes "posix k"
  shows "case logger_construct ps k buffer_size p of
      (p', Inl e) \<Rightarrow> p' = p
    | (p', Inr (h, f)) \<Rightarrow> (\<exists>fd a. h = \<lparr> fh_fd = Some fd, fh_mapping = Some a \<rparr> \<and> fd \<notin> pf_fds p \<and> a \<notin> pf_maps p \<and>
        p' = \<lparr> pf_fds = insert fd (pf_fds p), pf_maps = insert a (pf_maps p) \<rparr>) \<and> logger_destroy h p' = p"
  using posix_fresh [OF assms] by (cases p) (auto simp: handle_defs split: option.split)

text \<open>The reader gives back on every path but two.\<close>

lemma reader_handles:
  assumes "posix k"
  shows "case reader_construct k file p of
      (p', Inr (h, r)) \<Rightarrow> reader_destroy h p' = p
    | (p', Inl (RuntimeError m)) \<Rightarrow> (\<exists>fd. fd \<notin> pf_fds p \<and> pf_fds p' = insert fd (pf_fds p)) \<and>
        (if file = None then pf_maps p' = pf_maps p else \<exists>a. a \<notin> pf_maps p \<and> pf_maps p' = insert a (pf_maps p))
    | (p', Inl e) \<Rightarrow> p' = p"
proof -
  have fresh: "fd \<notin> pf_fds p" if "kn_open k (pf_fds p) = Some fd" for fd using posix_fresh(1) [OF assms that] .
  have "a \<notin> pf_maps p" if "kn_mmap k (pf_maps p) = Some a" for a using posix_fresh(2) [OF assms that] .
  then show ?thesis using fresh by (cases p) (simp add: handle_defs split: option.split, blast)
qed

text \<open>A file the reader rejects: shorter than a header, or without the magic number.\<close>

definition rejected :: "log_file option \<Rightarrow> bool" where
  "rejected file \<longleftrightarrow> (case file of None \<Rightarrow> True | Some f \<Rightarrow> lh_magic (lf_header f) \<noteq> kLogMagic)"

lemma attempt_leaks:
  assumes "posix k" "descriptor_limit limit k" "kn_fstat k" "memory_free k" "rejected file"
    and "finite (pf_fds p)" "finite (pf_maps p)" "card (pf_fds p) < limit"
  shows "finite (pf_fds (fst (reader_construct k file p))) \<and> finite (pf_maps (fst (reader_construct k file p))) \<and>
    card (pf_fds (fst (reader_construct k file p))) = Suc (card (pf_fds p))"
proof -
  obtain fd where fd: "kn_open k (pf_fds p) = Some fd" using assms(2,6,8) by (fastforce simp: descriptor_limit_def)
  obtain a where a: "kn_mmap k (pf_maps p) = Some a" using assms(4,7) by (fastforce simp: memory_free_def)
  have "pf_fds (fst (reader_construct k file p)) = insert fd (pf_fds p)"
    "pf_maps (fst (reader_construct k file p)) \<subseteq> insert a (pf_maps p)"
    using assms(3,5) fd a by (auto simp: reader_construct_def rejected_def Let_def split: option.splits)
  then show ?thesis using posix_fresh(1) [OF assms(1) fd] assms(6,7) finite_subset by fastforce
qed

lemma attempts_leak:
  assumes "posix k" "descriptor_limit limit k" "kn_fstat k" "memory_free k" "rejected file"
  shows "finite (pf_fds p) \<Longrightarrow> finite (pf_maps p) \<Longrightarrow> card (pf_fds p) + n \<le> limit \<Longrightarrow>
    finite (pf_fds (reader_attempts n k file p)) \<and> card (pf_fds (reader_attempts n k file p)) = card (pf_fds p) + n"
  using attempt_leaks [OF assms] by (induction n arbitrary: p) simp_all

text \<open>
  C28: The reader leaks on the files it rejects.  The two paths of its constructor that throw on a short
  file and on a wrong magic number do not close the descriptor, and the destructor does not run:
  each attempt keeps one descriptor, so after as many attempts as descriptors were left no log
  can be opened any more, neither for writing nor a good one for reading.
\<close>

theorem rejected_files_exhaust_descriptors:
  assumes "posix k" "descriptor_limit limit k" "kn_fstat k" "memory_free k" "rejected file"
    and "finite (pf_fds p)" "finite (pf_maps p)" "card (pf_fds p) \<le> limit" "buffer_size \<noteq> 0"
  shows "let p' = reader_attempts (limit - card (pf_fds p)) k file p
    in card (pf_fds p') = limit \<and> snd (logger_construct ps k buffer_size p') = Inl (SystemError ''open'') \<and>
       snd (reader_construct k good p') = Inl (SystemError ''open'')"
proof -
  let ?p = "reader_attempts (limit - card (pf_fds p)) k file p"
  have p: "finite (pf_fds ?p)" "card (pf_fds ?p) = limit"
    using attempts_leak [OF assms(1-5) assms(6,7), of "limit - card (pf_fds p)"] assms(8) by simp_all
  then have "kn_open k (pf_fds ?p) = None" using assms(2) by (simp add: descriptor_limit_def)
  then show ?thesis using p assms(9) by (simp add: logger_construct_def reader_construct_def Let_def)
qed

section \<open>Witnesses\<close>

text \<open>A kernel with four descriptors that hands out the lowest free number.\<close>

definition lowest_free :: "nat set \<Rightarrow> nat option" where
  "lowest_free xs = find (\<lambda>n. n \<notin> xs) [0..<Suc (card xs)]"

definition sample_kernel :: kernel where
  "sample_kernel = \<lparr> kn_open = (\<lambda>fds. if 4 \<le> card fds then None else lowest_free fds), kn_ftruncate = True,
     kn_fstat = True, kn_mmap = lowest_free \<rparr>"

lemma lowest_free_fresh: "lowest_free xs = Some x \<Longrightarrow> x \<notin> xs"
  by (auto simp: lowest_free_def find_Some_iff)

lemma lowest_free_some: "finite xs \<Longrightarrow> lowest_free xs \<noteq> None"
proof
  assume xs: "finite xs" "lowest_free xs = None"
  then have "{0..<Suc (card xs)} \<subseteq> xs" by (fastforce simp: lowest_free_def find_None_iff less_Suc_eq)
  from card_mono [OF xs(1) this] show False by simp
qed

lemma sample_kernel_ok:
  "posix sample_kernel" "descriptor_limit 4 sample_kernel" "kn_fstat sample_kernel" "memory_free sample_kernel"
  using lowest_free_fresh lowest_free_some
  by (auto simp: posix_def descriptor_limit_def memory_free_def sample_kernel_def split: if_splits)

theorem writer_returns_handles_witness:
  "\<exists>h f. logger_construct 4096 sample_kernel 100 \<lparr> pf_fds = {0, 1, 2}, pf_maps = {} \<rparr>
       = (\<lparr> pf_fds = {0, 1, 2, 3}, pf_maps = {0} \<rparr>, Inr (h, f)) \<and>
     logger_destroy h \<lparr> pf_fds = {0, 1, 2, 3}, pf_maps = {0} \<rparr> = \<lparr> pf_fds = {0, 1, 2}, pf_maps = {} \<rparr>"
proof -
  let ?p = "\<lparr> pf_fds = {0, 1, 2}, pf_maps = {} \<rparr>" and ?q = "\<lparr> pf_fds = {0, 1, 2, 3}, pf_maps = {0} \<rparr>"
  obtain h f where "logger_construct 4096 sample_kernel 100 ?p = (?q, Inr (h, f))"
    by (simp add: logger_construct_def sample_kernel_def lowest_free_def Let_def upt_conv_Cons insert_commute numeral_3_eq_3)
  then show ?thesis
    using writer_returns_handles [OF sample_kernel_ok(1), of ?p 4096 100] by auto
qed

theorem rejected_files_exhaust_descriptors_witness:
  "snd (logger_construct 4096 sample_kernel 100 (reader_attempts 1 sample_kernel None \<lparr> pf_fds = {0, 1, 2}, pf_maps = {} \<rparr>))
     = Inl (SystemError ''open'')"
  using rejected_files_exhaust_descriptors [OF sample_kernel_ok, of None "\<lparr> pf_fds = {0, 1, 2}, pf_maps = {} \<rparr>" 100]
  by (simp add: rejected_def Let_def)

end
