(* ===== verification/Engine_Orders.thy ===== *)
theory Engine_Orders
  imports Engine_Main
begin

text \<open>
  Where the messages on the trade session come from, over the whole life of the process
  (\<open>apps/engine/main.cpp\<close>).  The alpha thread may be interrupted between any two of its calls
  by the sessions, the main thread and a signal, so what it knew at one call may no longer
  hold at the next: the history of a run says which of its steps had to come before.
\<close>

section \<open>The last step of the alpha thread\<close>

text \<open>A stretch of the run in which the alpha thread does nothing.\<close>

definition alpha_waits :: "process_event list \<Rightarrow> bool" where
  "alpha_waits evs \<longleftrightarrow> (\<forall>t. AlphaThread t \<notin> set evs)"

lemma alpha_waits_simps [simp]:
  "alpha_waits []" "alpha_waits (xs @ ys) \<longleftrightarrow> alpha_waits xs \<and> alpha_waits ys"
  "alpha_waits (e # evs) \<longleftrightarrow> (\<forall>t. e \<noteq> AlphaThread t) \<and> alpha_waits evs"
  by (auto simp: alpha_waits_def)

text \<open>What no other thread touches: the position in the turn, the signal engine, the order the gate is held for.\<close>

definition alpha_view :: "threads \<Rightarrow> alpha_pc \<times> signal_engine \<times> order" where
  "alpha_view h = (th_alpha h, sy_signals (th_sys h), rk_open_order (om_risk (sy_oms (th_sys h))))"

lemma on_fill_order: "rk_open_order (on_fill r ord now) = rk_open_order r"
  by (simp add: on_fill_def Let_def)

lemma message_order:
  "oms_fromApp q m now s = (s', outs, err) \<Longrightarrow> rk_open_order (om_risk s') = rk_open_order (om_risk s)"
  by (rule fromApp_cases [of q m now s])
    (auto simp: apply_fill_def apply_reject_def on_reject_def on_fill_order Let_def split: if_splits)

lemma handler_view: "thread_step q h (Handler e) = (h', outs) \<Longrightarrow> alpha_view h' = alpha_view h"
proof (erule handler_step)
  fix y os assume s: "system_step q (th_sys h) e = (y, os)" "h' = h\<lparr>th_sys := y\<rparr>" "\<And>t. e \<noteq> AlphaTurn t"
  show "alpha_view h' = alpha_view h"
  proof (cases e)
    case (TradeMessage m now)
    obtain s1 os1 err where "oms_fromApp q m now (sy_oms (th_sys h)) = (s1, os1, err)" by (metis prod_cases3)
    then show ?thesis using message_order s TradeMessage by (auto simp: alpha_view_def)
  qed (use s in \<open>auto simp: alpha_view_def oms_onLogon_def oms_onLogout_def case_prod_unfold Let_def\<close>)
qed simp

lemma other_view:
  assumes "process_step q throws p e = (p', outs)" "\<And>t. e \<noteq> AlphaThread t"
  shows "alpha_view (ep_threads p') = alpha_view (ep_threads p)"
proof (cases e)
  case MainStep
  then show ?thesis using assms(1) main_step_fields [of throws p] by (simp add: process_main_step)
next
  case (Session x)
  obtain h os where "thread_step q (ep_threads p) (Handler x) = (h, os)" by fastforce
  then show ?thesis using assms(1) Session handler_view
    by (auto simp: process_step_def case_prod_unfold Let_def split: main_pc.splits if_splits)
qed (use assms in \<open>auto simp: process_step_def split: main_pc.splits\<close>)

text \<open>Inside a turn the thread is running.\<close>

definition turn_spins :: "engine_process \<Rightarrow> bool" where
  "turn_spins p \<longleftrightarrow> (th_alpha (ep_threads p) \<noteq> AtPop \<and> live p \<longrightarrow> ep_alpha p = Spinning)"

lemma live_step: "process_step q throws p e = (p', outs) \<Longrightarrow> live p' \<Longrightarrow> live p"
  by (auto simp: live_def exited_step)

lemma live_alpha_step: "live p \<Longrightarrow> process_step q throws p (AlphaThread t) = alpha_thread_step q t p"
  by (auto simp: live_def process_step_def split: main_pc.split)

lemma main_keeps_spinning:
  "main_step throws p = (p', outs) \<Longrightarrow> ep_alpha p = Spinning \<Longrightarrow> ep_alpha p' = Spinning"
  by (auto simp: main_step_def unwind_def startup_step_def Let_def split: main_pc.splits startup.splits if_splits)

lemma turn_spins_step:
  assumes "process_step q throws p e = (p', outs)" "turn_spins p"
  shows "turn_spins p'"
proof (cases "live p'")
  case True
  then have l: "live p" using live_step [OF assms(1)] by blast
  show ?thesis
  proof (cases e)
    case MainStep
    then have "main_step throws p = (p', outs)" using assms(1) by (simp add: process_main_step)
    then show ?thesis using assms(2) l main_keeps_spinning main_step_fields(1) [of throws p]
      by (auto simp: turn_spins_def)
  next
    case (AlphaThread t)
    then show ?thesis using assms l
      by (auto simp: live_alpha_step alpha_thread_step_def turn_spins_def case_prod_unfold Let_def split: if_splits)
  next
    case (Session x)
    then have "ep_alpha p' = ep_alpha p" using assms(1) l
      by (auto simp: live_def process_step_def case_prod_unfold Let_def split: main_pc.splits if_splits)
    then show ?thesis using other_view [OF assms(1)] Session assms(2) l by (auto simp: turn_spins_def alpha_view_def)
  next
    case Interrupt
    then show ?thesis using assms l by (auto simp: live_def process_step_def turn_spins_def split: main_pc.splits)
  qed
qed (simp add: turn_spins_def)

text \<open>Wherever the thread stands in a turn, its last step brought it there, and nothing it owns has changed since.\<close>

lemma last_alpha_step:
  assumes "turn_spins p0"
  shows "process_run q throws p0 evs = (p, outs) \<Longrightarrow> live p \<Longrightarrow> th_alpha (ep_threads p0) = AtPop \<Longrightarrow>
    th_alpha (ep_threads p) \<noteq> AtPop \<Longrightarrow>
    \<exists>pre t mid p1 outs1 h os. evs = pre @ AlphaThread t # mid \<and> alpha_waits mid \<and>
      process_run q throws p0 pre = (p1, outs1) \<and> live p1 \<and>
      alpha_step q t (ep_threads p1) = (h, os) \<and> alpha_view h = alpha_view (ep_threads p)"
proof (induction evs arbitrary: p outs rule: rev_induct)
  case (snoc e evs)
  obtain p1 outs1 where r: "process_run q throws p0 evs = (p1, outs1)" by fastforce
  obtain outs2 where s: "process_step q throws p1 e = (p, outs2)"
    using snoc.prems(1) r by (auto simp: prc.run_append case_prod_unfold Let_def prod_eq_iff)
  have l: "live p1" using live_step [OF s snoc.prems(2)] .
  have sp: "turn_spins p1" by (rule prc.run_invariant [OF _ r]) (use turn_spins_step assms in blast)+
  show ?case
  proof (cases "\<exists>t. e = AlphaThread t")
    case True
    then obtain t where e: "e = AlphaThread t" by blast
    have a: "alpha_thread_step q t p1 = (p, outs2)" using s e live_alpha_step [OF l] by simp
    obtain h os where h: "alpha_step q t (ep_threads p1) = (h, os)" by fastforce
    show ?thesis
    proof (cases "ep_alpha p1 = Spinning \<and> (th_alpha (ep_threads p1) \<noteq> AtPop \<or> ep_running p1)")
      case True
      then have "ep_threads p = h" using a h by (auto simp: alpha_thread_step_def)
      then show ?thesis using r l h e
        by (intro exI [of _ evs] exI [of _ t] exI [of _ "[]"] exI [of _ p1] exI [of _ outs1] exI [of _ h] exI [of _ os]) simp
    next
      case False
      then have "ep_threads p = ep_threads p1" using a by (auto simp: alpha_thread_step_def split: if_splits)
      then show ?thesis using False sp l snoc.prems(4) by (auto simp: turn_spins_def)
    qed
  next
    case False
    then have v: "alpha_view (ep_threads p) = alpha_view (ep_threads p1)" using other_view [OF s] by blast
    then have "th_alpha (ep_threads p1) \<noteq> AtPop" using snoc.prems(4) by (simp add: alpha_view_def)
    from snoc.IH [OF r l snoc.prems(3) this] obtain pre t mid p2 outs2 h os
      where i: "evs = pre @ AlphaThread t # mid" "alpha_waits mid" "process_run q throws p0 pre = (p2, outs2)" "live p2"
        "alpha_step q t (ep_threads p2) = (h, os)" "alpha_view h = alpha_view (ep_threads p1)" by blast
    then show ?thesis using False v
      by (intro exI [of _ pre] exI [of _ t] exI [of _ "mid @ [e]"] exI [of _ p2] exI [of _ outs2] exI [of _ h] exI [of _ os]) simp
  qed
qed simp

section \<open>Entry orders\<close>

text \<open>The signal engine fires on the event the thread has popped, with the book of that moment.\<close>

definition signal_fires :: "engine_process \<Rightarrow> lob_event \<Rightarrow> u64 \<Rightarrow> signal \<Rightarrow> bool" where
  "signal_fires p ev now sig \<longleftrightarrow>
     (let h = ep_threads p; (e, fired) = signal_on_event (sy_signals (th_sys h)) ev (gw_book (sy_gateway (th_sys h)))
      in th_alpha h = AtSignal ev now \<and> fired \<and> se_last_signal e = sig)"

text \<open>The thread asks the risk manager for this signal, and nothing speaks against it.\<close>

definition gate_open :: "engine_process \<Rightarrow> u64 \<Rightarrow> signal \<Rightarrow> bool" where
  "gate_open p now sig \<longleftrightarrow>
     (let h = ep_threads p; r = om_risk (sy_oms (th_sys h))
      in th_alpha h = AtCheck now \<and> se_last_signal (sy_signals (th_sys h)) = sig \<and>
         \<not> rk_fused r \<and> \<not> rk_has_position r \<and> \<not> in_cooldown r now)"

lemma to_send:
  "alpha_step q t h = (h', os) \<Longrightarrow> th_alpha h' = AtSend now \<Longrightarrow>
    th_alpha h = AtCheck now \<and> th_sys h' = th_sys h \<and>
    check_signal (om_risk (sy_oms (th_sys h))) (se_last_signal (sy_signals (th_sys h))) now"
  by (auto simp: alpha_step_def pop_step_def cancel_step_def close_step_def signal_step_def send_step_def
      case_prod_unfold Let_def split: alpha_pc.splits option.splits if_splits)

lemma to_check:
  "alpha_step q t h = (h', os) \<Longrightarrow> th_alpha h' = AtCheck now \<Longrightarrow>
    \<exists>ev. th_alpha h = AtSignal ev now \<and>
      signal_on_event (sy_signals (th_sys h)) ev (gw_book (sy_gateway (th_sys h))) = (sy_signals (th_sys h'), True)"
  by (auto simp: alpha_step_def pop_step_def cancel_step_def close_step_def signal_step_def send_step_def
      case_prod_unfold Let_def prod_eq_iff split: alpha_pc.splits option.splits if_splits)

text \<open>A message of a step is one of the alpha thread; of which of its calls, the output says.\<close>

lemma alpha_message:
  assumes "process_step q throws p e = (p', outs)" "ToMarket m sid \<in> set (oms_outs (tradings outs))"
  obtains t os where "e = AlphaThread t" "live p" "alpha_step q t (ep_threads p) = (ep_threads p', os)"
    "outs = map Trading os"
proof -
  have l: "live p" using assms by (auto simp: live_def exited_step)
  show thesis
  proof (cases e)
    case MainStep
    then have "outs = snd (main_step throws p)" using assms(1) by (simp add: process_main_step)
    then show thesis using assms(2) by simp
  next
    case (AlphaThread t)
    obtain h os where "alpha_step q t (ep_threads p) = (h, os)" by fastforce
    then show thesis using AlphaThread that [of t os] assms l
      by (auto simp: live_alpha_step alpha_thread_step_def split: if_splits)
  next
    case (Session x)
    obtain h os where step: "thread_step q (ep_threads p) (Handler x) = (h, os)" by fastforce
    then have h: "thread_step q (ep_threads p) (Handler x) = (h, os)" "tradings outs = os \<or> tradings outs = []"
      using Session assms(1) l by (auto simp: live_def process_step_def simp del: thread_step.simps split: main_pc.splits if_splits)
    have "ToMarket m sid \<notin> set (oms_outs os)"
      using h(1)
    proof (cases rule: handler_step)
      case (handled y ys)
      show ?thesis
      proof (cases x)
        case (TradeMessage msg now)
        obtain s os1 err where "oms_fromApp q msg now (sy_oms (th_sys (ep_threads p))) = (s, os1, err)" by (metis prod_cases3)
        then show ?thesis using message_sends_nothing handled TradeMessage by (auto simp: comp_def)
      qed (use handled in \<open>auto simp: case_prod_unfold Let_def\<close>)
    qed simp
    then show thesis using h(2) assms(2) by auto
  next
    case Interrupt
    then show thesis using assms l by (auto simp: live_def process_step_def split: main_pc.splits)
  qed
qed

text \<open>The call that sends an entry order, and the two that have led to it.\<close>

lemma entry_call:
  assumes "alpha_step q t h = (h', os)" "EntryOut (ToMarket m sid) \<in> set os"
  obtains now utc where "th_alpha h = AtSend now"
    "let i = clordid_of (om_order_seq (sy_oms (th_sys h))); sig = se_last_signal (sy_signals (th_sys h));
         sd = (if sig_direction sig = DirBuy then Buy else Sell)
     in os = [EntryOut (ToMarket m sid)] \<and> m = new_order_single q utc i sd 1 \<and>
        rk_open_order (om_risk (sy_oms (th_sys h'))) = sent_order i sd 1 (sig_l1_price sig) now"
proof -
  from assms obtain now where at: "th_alpha h = AtSend now"
    by (auto simp: alpha_step_def cancel_step_def close_step_def case_prod_unfold Let_def
        split: alpha_pc.splits option.splits if_splits)
  let ?sig = "se_last_signal (sy_signals (th_sys h))"
  obtain s3 os3 i where send: "send_ioc q (tn_entry_net t) (tn_entry_utc t) (if sig_direction ?sig = DirBuy then Buy else Sell) 1
      (sig_l1_price ?sig) now (sy_oms (th_sys h)) = (s3, os3, i)" by (metis prod_cases3)
  then have res: "os = map EntryOut os3" "sy_oms (th_sys h') = s3" using assms(1) at by (auto simp: alpha_step_def send_step_def)
  then have "ToMarket m sid \<in> set os3" using assms(2) by auto
  from that [OF at] send_ioc_outs [OF send this] res show thesis by (simp add: Let_def)
qed

lemma checked_before_send:
  assumes "turn_spins p0" "th_alpha (ep_threads p0) = AtPop" "process_run q throws p0 evs = (p, outs)" "live p"
    and "th_alpha (ep_threads p) = AtSend now"
  defines "sig \<equiv> se_last_signal (sy_signals (th_sys (ep_threads p)))"
  obtains us t mid p2 o2 where "evs = us @ AlphaThread t # mid" "alpha_waits mid" "process_run q throws p0 us = (p2, o2)"
    "live p2" "gate_open p2 now sig"
proof -
  from last_alpha_step [OF assms(1,3,4,2)] assms(5) obtain us t mid p2 o2 h2 os2
    where s: "evs = us @ AlphaThread t # mid" "alpha_waits mid" "process_run q throws p0 us = (p2, o2)" "live p2"
      "alpha_step q t (ep_threads p2) = (h2, os2)" "alpha_view h2 = alpha_view (ep_threads p)" by auto
  have "th_alpha h2 = AtSend now" using s(6) assms(5) by (simp add: alpha_view_def)
  from to_send [OF s(5) this] have "gate_open p2 now sig"
    using s(6) by (auto simp: gate_open_def check_signal_def alpha_view_def sig_def Let_def split: if_splits)
  then show thesis using that s(1-4) by blast
qed

lemma fired_before_check:
  assumes "turn_spins p0" "th_alpha (ep_threads p0) = AtPop" "process_run q throws p0 evs = (p, outs)" "live p"
    and "gate_open p now sig"
  obtains us t mid p1 o1 ev where "evs = us @ AlphaThread t # mid" "alpha_waits mid" "process_run q throws p0 us = (p1, o1)"
    "signal_fires p1 ev now sig"
proof -
  have at: "th_alpha (ep_threads p) = AtCheck now" "se_last_signal (sy_signals (th_sys (ep_threads p))) = sig"
    using assms(5) by (simp_all add: gate_open_def Let_def)
  from last_alpha_step [OF assms(1,3,4,2)] at(1) obtain us t mid p1 o1 h1 os1
    where s: "evs = us @ AlphaThread t # mid" "alpha_waits mid" "process_run q throws p0 us = (p1, o1)"
      "alpha_step q t (ep_threads p1) = (h1, os1)" "alpha_view h1 = alpha_view (ep_threads p)" by auto
  have "th_alpha h1 = AtCheck now" "se_last_signal (sy_signals (th_sys h1)) = sig"
    using s(5) at by (simp_all add: alpha_view_def)
  from to_check [OF s(4) this(1)] this(2) obtain ev where "signal_fires p1 ev now sig"
    by (auto simp: signal_fires_def Let_def)
  then show thesis using that s(1-3) by blast
qed

text \<open>
  C16: Every entry order was asked for.  Over the whole life of the process, however its threads
  interleave, an entry order goes back to two earlier steps of the alpha thread with none of its steps
  in between: the signal engine fired on the event the thread had popped, and then the risk manager was
  asked for that signal with the fuse intact, no order held and no cooldown.  The order is one of
  quantity 1 on the side of the signal, and the risk manager keeps it with the price of the signal
  as its reference.
\<close>

theorem entry_orders_are_checked:
  assumes "th_alpha (ep_threads p0) = AtPop" and "process_run q throws p0 evs = (p, outs0)"
    and "process_step q throws p e = (p', outs)" and "Trading (EntryOut (ToMarket m sid)) \<in> set outs"
  shows "\<exists>pre t1 mid1 t2 mid2 p1 o1 p2 o2 ev now sig utc.
    evs = pre @ AlphaThread t1 # mid1 @ AlphaThread t2 # mid2 \<and> alpha_waits mid1 \<and> alpha_waits mid2 \<and>
    process_run q throws p0 pre = (p1, o1) \<and> signal_fires p1 ev now sig \<and>
    process_run q throws p0 (pre @ AlphaThread t1 # mid1) = (p2, o2) \<and> gate_open p2 now sig \<and>
    (let i = clordid_of (om_order_seq (sy_oms (th_sys (ep_threads p)))); sd = (if sig_direction sig = DirBuy then Buy else Sell)
     in outs = [Trading (EntryOut (ToMarket m sid))] \<and> m = new_order_single q utc i sd 1 \<and>
        rk_open_order (om_risk (sy_oms (th_sys (ep_threads p')))) = sent_order i sd 1 (sig_l1_price sig) now)"
proof -
  have "ToMarket m sid \<in> set (oms_outs (tradings outs))" using assms(4) by (force simp: tradings_def oms_outs_def)
  from alpha_message [OF assms(3) this] obtain t os where e: "live p"
    "alpha_step q t (ep_threads p) = (ep_threads p', os)" "outs = map Trading os" by metis
  have "EntryOut (ToMarket m sid) \<in> set os" using assms(4) e(3) by auto
  then obtain now utc where at: "th_alpha (ep_threads p) = AtSend now"
    "let i = clordid_of (om_order_seq (sy_oms (th_sys (ep_threads p)))); sig = se_last_signal (sy_signals (th_sys (ep_threads p)));
         sd = (if sig_direction sig = DirBuy then Buy else Sell)
     in os = [EntryOut (ToMarket m sid)] \<and> m = new_order_single q utc i sd 1 \<and>
        rk_open_order (om_risk (sy_oms (th_sys (ep_threads p')))) = sent_order i sd 1 (sig_l1_price sig) now"
    by (rule entry_call [OF e(2)])
  let ?sig = "se_last_signal (sy_signals (th_sys (ep_threads p)))"
  have idle: "turn_spins p0" using assms(1) by (simp add: turn_spins_def)
  obtain us t2 mid2 p2 o2 where s2: "evs = us @ AlphaThread t2 # mid2" "alpha_waits mid2" "process_run q throws p0 us = (p2, o2)"
    "live p2" "gate_open p2 now ?sig" by (rule checked_before_send [OF idle assms(1,2) e(1) at(1)])
  obtain pre t1 mid1 p1 o1 ev where s1: "us = pre @ AlphaThread t1 # mid1" "alpha_waits mid1" "process_run q throws p0 pre = (p1, o1)"
    "signal_fires p1 ev now ?sig" by (rule fired_before_check [OF idle assms(1) s2(3-5)])
  show ?thesis
    using s1 s2(2,3,5) at(2) e(3) unfolding s2(1) s1(1)
    by (intro exI [of _ pre] exI [of _ t1] exI [of _ mid1] exI [of _ t2] exI [of _ mid2] exI [of _ p1] exI [of _ o1]
        exI [of _ p2] exI [of _ o2] exI [of _ ev] exI [of _ now] exI [of _ ?sig] exI [of _ utc]) (simp add: Let_def)
qed

section \<open>Cancel requests and closing orders\<close>

definition timeout_strikes :: "engine_process \<Rightarrow> lob_event \<Rightarrow> u64 \<Rightarrow> order \<Rightarrow> bool" where
  "timeout_strikes p ev now o1 \<longleftrightarrow>
     (let h = ep_threads p; r = om_risk (sy_oms (th_sys h))
      in th_alpha h = AtTimer ev now \<and> rk_has_position r \<and> rk_open_order r = o1 \<and>
         position_timeout_ns (rk_cfg r) \<le> now - rk_position_open_ns r)"

lemma count_alpha_simps [simp]:
  "count_alpha [] = 0" "count_alpha (xs @ ys) = count_alpha xs + count_alpha ys" "count_alpha (AlphaThread t # evs) = Suc (count_alpha evs)"
  by (simp_all add: count_alpha_def)

lemma count_alpha_waits: "alpha_waits evs \<Longrightarrow> count_alpha evs = 0"
  by (auto simp: count_alpha_def alpha_waits_def filter_empty_conv split: process_event.split)

lemma to_cancel:
  "alpha_step q t h = (h', os) \<Longrightarrow> th_alpha h' = AtCancel ev now \<Longrightarrow>
    th_alpha h = AtTimer ev now \<and> th_sys h' = th_sys h \<and> on_timer (om_risk (sy_oms (th_sys h))) now \<noteq> None"
  by (auto simp: alpha_step_def pop_step_def cancel_step_def close_step_def signal_step_def send_step_def
      case_prod_unfold Let_def split: alpha_pc.splits option.splits if_splits)

lemma to_close:
  assumes "alpha_step q t h = (h', os)" "th_alpha h' = AtClose ev now"
  shows "th_alpha h = AtCancel ev now \<and>
    rk_open_order (om_risk (sy_oms (th_sys h'))) = rk_open_order (om_risk (sy_oms (th_sys h)))"
  using assms cancel_order_risk
  by (auto simp: alpha_step_def pop_step_def cancel_step_def close_step_def signal_step_def send_step_def Let_def
      split: alpha_pc.splits option.splits if_splits prod.splits)

lemma cancel_order_outs:
  "cancel_order net utc i s = (s', outs) \<Longrightarrow> ToMarket m sid \<in> set outs \<Longrightarrow>
    msg_header m 35 = Some ''F'' \<and> msg_body m 41 = Some i"
  by (auto simp: cancel_order_def next_clordid_def cancel_request_def fix_building Let_def
      split: option.splits send_result.splits)

text \<open>The two calls of the timeout's callback, and what they send.\<close>

lemma closing_call:
  assumes "alpha_step q t h = (h', os)" "ToMarket m sid \<in> set (oms_outs os)" "EntryOut (ToMarket m sid) \<notin> set os"
  shows "let ord = rk_open_order (om_risk (sy_oms (th_sys h)))
    in (\<exists>ev now. th_alpha h = AtCancel ev now \<and> msg_header m 35 = Some ''F'' \<and> msg_body m 41 = Some (ord_clordid ord)) \<or>
       (\<exists>ev now. th_alpha h = AtClose ev now \<and> msg_header m 35 = Some ''D'' \<and>
          msg_body m 54 = Some (side_text (if ord_side ord = Buy then Sell else Buy)) \<and>
          msg_body m 38 = Some (qf_of_double q (f64_of_int (ord_qty ord))))"
proof -
  let ?s = "sy_oms (th_sys h)" and ?sig = "se_last_signal (sy_signals (th_sys h))" and ?b = "gw_book (sy_gateway (th_sys h))"
  let ?o = "rk_open_order (om_risk ?s)"
  show ?thesis
  proof (cases "th_alpha h")
    case (AtCancel ev now)
    obtain s1 os1 where c: "cancel_order (tn_cancel_net t) (tn_cancel_utc t) (ord_clordid ?o) ?s = (s1, os1)" by fastforce
    then have "os = map CloseOut os1" using assms(1) AtCancel by (auto simp: alpha_step_def cancel_step_def)
    then show ?thesis using cancel_order_outs [OF c] assms(2) AtCancel by (simp add: Let_def)
  next
    case (AtClose ev now)
    obtain s1 os1 i where c: "send_ioc q (tn_close_net t) (tn_close_utc t) (close_side ?o) (ord_qty ?o)
        (if ord_side ?o = Buy then best_bid ?b else best_ask ?b) now ?s = (s1, os1, i)" by (metis prod_cases3)
    then have "os = map CloseOut os1" using assms(1) AtClose by (auto simp: alpha_step_def close_step_def)
    then have "ToMarket m sid \<in> set os1" using assms(2) by simp
    from send_ioc_outs [OF c this] show ?thesis using AtClose
      by (cases "ord_side ?o") (simp_all add: new_order_single_def fix_building close_side_def Let_def)
  next
    case (AtSend now)
    obtain s1 os1 i where "send_ioc q (tn_entry_net t) (tn_entry_utc t) (if sig_direction ?sig = DirBuy then Buy else Sell) 1
        (sig_l1_price ?sig) now ?s = (s1, os1, i)" by (metis prod_cases3)
    then show ?thesis using AtSend assms by (auto simp: alpha_step_def send_step_def)
  qed (use assms in \<open>auto simp: alpha_step_def split: option.splits if_splits\<close>)
qed

text \<open>Before the first of them, the timeout has struck; the second comes right after it.\<close>

lemma strike_before:
  assumes "turn_spins p0" "th_alpha (ep_threads p0) = AtPop" "process_run q throws p0 evs = (p, outs)" "live p"
    and "th_alpha (ep_threads p) = AtCancel ev now"
  obtains pre t rest p1 o1 where "evs = pre @ AlphaThread t # rest" "alpha_waits rest" "process_run q throws p0 pre = (p1, o1)"
    "timeout_strikes p1 ev now (rk_open_order (om_risk (sy_oms (th_sys (ep_threads p)))))"
proof -
  from last_alpha_step [OF assms(1,3,4,2)] assms(5) obtain pre t mid p1 o1 h1 os1
    where s: "evs = pre @ AlphaThread t # mid" "alpha_waits mid" "process_run q throws p0 pre = (p1, o1)"
      "alpha_step q t (ep_threads p1) = (h1, os1)" "alpha_view h1 = alpha_view (ep_threads p)" by auto
  have "th_alpha h1 = AtCancel ev now" using s(5) assms(5) by (simp add: alpha_view_def)
  from to_cancel [OF s(4) this] have "timeout_strikes p1 ev now (rk_open_order (om_risk (sy_oms (th_sys (ep_threads p)))))"
    using s(5) by (auto simp: timeout_strikes_def alpha_view_def on_timer_def split: if_splits)
  then show thesis using that s(1-3) by blast
qed

lemma strike_before_close:
  assumes "turn_spins p0" "th_alpha (ep_threads p0) = AtPop" "process_run q throws p0 evs = (p, outs)" "live p"
    and "th_alpha (ep_threads p) = AtClose ev now"
  obtains pre t rest p1 o1 where "evs = pre @ AlphaThread t # rest" "count_alpha rest \<le> 1" "process_run q throws p0 pre = (p1, o1)"
    "timeout_strikes p1 ev now (rk_open_order (om_risk (sy_oms (th_sys (ep_threads p)))))"
proof -
  from last_alpha_step [OF assms(1,3,4,2)] assms(5) obtain us t2 mid p2 o2 h2 os2
    where s: "evs = us @ AlphaThread t2 # mid" "alpha_waits mid" "process_run q throws p0 us = (p2, o2)" "live p2"
      "alpha_step q t2 (ep_threads p2) = (h2, os2)" "alpha_view h2 = alpha_view (ep_threads p)" by auto
  have "th_alpha h2 = AtClose ev now" using s(6) assms(5) by (simp add: alpha_view_def)
  note c = to_close [OF s(5) this]
  from strike_before [OF assms(1,2) s(3,4) conjunct1 [OF c]] obtain pre t rest p1 o1
    where f: "us = pre @ AlphaThread t # rest" "alpha_waits rest" "process_run q throws p0 pre = (p1, o1)"
      "timeout_strikes p1 ev now (rk_open_order (om_risk (sy_oms (th_sys (ep_threads p2)))))" by blast
  have "rk_open_order (om_risk (sy_oms (th_sys (ep_threads p2)))) = rk_open_order (om_risk (sy_oms (th_sys (ep_threads p))))"
    using c s(6) by (simp add: alpha_view_def)
  then show thesis
    using that [of pre t "rest @ AlphaThread t2 # mid" p1 o1] s(1) f count_alpha_waits [OF s(2)] count_alpha_waits [OF f(2)]
    by simp
qed

text \<open>
  C14: Nothing else is ever sent.  Over the whole life of the process every message on the trade session
  that is no entry order goes back to a strike of the position timeout in the same turn, at most one
  step of the alpha thread before: an order was held for at least the timeout, and the message
  is the request to cancel this very order or a market order for the opposite side and
  the same quantity, whatever reports were handled since the strike.
\<close>

theorem closing_orders_follow_timeouts:
  assumes "th_alpha (ep_threads p0) = AtPop" and "process_run q throws p0 evs = (p, outs0)"
    and "process_step q throws p e = (p', outs)"
    and "ToMarket m sid \<in> set (oms_outs (tradings outs))" and "Trading (EntryOut (ToMarket m sid)) \<notin> set outs"
  shows "\<exists>pre t rest p1 o1 ev now ord. evs = pre @ AlphaThread t # rest \<and> count_alpha rest \<le> 1 \<and>
    process_run q throws p0 pre = (p1, o1) \<and> timeout_strikes p1 ev now ord \<and>
    (msg_header m 35 = Some ''F'' \<and> msg_body m 41 = Some (ord_clordid ord) \<or>
     msg_header m 35 = Some ''D'' \<and> msg_body m 54 = Some (side_text (if ord_side ord = Buy then Sell else Buy)) \<and>
     msg_body m 38 = Some (qf_of_double q (f64_of_int (ord_qty ord))))"
proof -
  from alpha_message [OF assms(3,4)] obtain t os where e: "live p"
    "alpha_step q t (ep_threads p) = (ep_threads p', os)" "outs = map Trading os" by metis
  have "ToMarket m sid \<in> set (oms_outs os)" "EntryOut (ToMarket m sid) \<notin> set os" using assms(4,5) e(3) by auto
  note call = closing_call [OF e(2) this]
  have idle: "turn_spins p0" using assms(1) by (simp add: turn_spins_def)
  from call consider (cancel) ev now where "th_alpha (ep_threads p) = AtCancel ev now"
    | (close) ev now where "th_alpha (ep_threads p) = AtClose ev now" by (auto simp: Let_def)
  then show ?thesis
  proof cases
    case cancel
    obtain pre t rest p1 o1 where "evs = pre @ AlphaThread t # rest" "alpha_waits rest" "process_run q throws p0 pre = (p1, o1)"
      "timeout_strikes p1 ev now (rk_open_order (om_risk (sy_oms (th_sys (ep_threads p)))))"
      by (rule strike_before [OF idle assms(1,2) e(1) cancel])
    then show ?thesis using call cancel count_alpha_waits [of rest]
      by (intro exI [of _ pre] exI [of _ t] exI [of _ rest] exI [of _ p1] exI [of _ o1] exI [of _ ev] exI [of _ now]
          exI [of _ "rk_open_order (om_risk (sy_oms (th_sys (ep_threads p))))"]) (simp add: Let_def)
  next
    case close
    obtain pre t rest p1 o1 where "evs = pre @ AlphaThread t # rest" "count_alpha rest \<le> 1" "process_run q throws p0 pre = (p1, o1)"
      "timeout_strikes p1 ev now (rk_open_order (om_risk (sy_oms (th_sys (ep_threads p)))))"
      by (rule strike_before_close [OF idle assms(1,2) e(1) close])
    then show ?thesis using call close
      by (intro exI [of _ pre] exI [of _ t] exI [of _ rest] exI [of _ p1] exI [of _ o1] exI [of _ ev] exI [of _ now]
          exI [of _ "rk_open_order (om_risk (sy_oms (th_sys (ep_threads p))))"]) (simp add: Let_def)
  qed
qed

section \<open>Silence\<close>

text \<open>Fused and idle, and not in the middle of sending.\<close>

definition quiet_threads :: "threads \<Rightarrow> bool" where
  "quiet_threads h \<longleftrightarrow> stopped (sy_oms (th_sys h)) \<and>
     (case th_alpha h of AtCancel _ _ \<Rightarrow> False | AtClose _ _ \<Rightarrow> False | AtSend _ \<Rightarrow> False | _ \<Rightarrow> True)"

lemma quiet_alpha_step:
  "alpha_step q t h = (h', outs) \<Longrightarrow> quiet_threads h \<Longrightarrow> quiet_threads h' \<and> outs = []"
  by (auto simp: quiet_threads_def stopped_def alpha_step_def pop_step_def signal_step_def on_timer_def check_signal_def
      case_prod_unfold Let_def split: alpha_pc.splits option.splits if_splits)

lemma quiet_step:
  assumes "thread_step q h e = (h', outs)" "quiet_threads h"
  shows "quiet_threads h' \<and> no_orders (oms_outs outs)"
proof (cases e)
  case (AlphaStep t)
  then show ?thesis using quiet_alpha_step assms by (fastforce simp: no_orders_def)
next
  case (Handler x)
  from assms(1) [unfolded this] show ?thesis
  proof (cases rule: handler_step)
    case none
    then show ?thesis using assms(2) by (simp add: no_orders_def)
  next
    case (handled y os)
    have "stopped (sy_oms (th_sys h))" using assms(2) by (simp add: quiet_threads_def)
    from stopped_step [OF this handled(1)] show ?thesis using handled assms(2) by (simp add: quiet_threads_def)
  qed
qed

text \<open>
  C15: Once the daily-loss fuse has tripped with no order held, the process sends no message of any
  kind on the trade session, whatever follows in whatever interleaving of the calls of its threads,
  provided the alpha thread is not just then between its question to the risk manager and its
  entry order, or inside the callback of the timeout.
\<close>

theorem fused_process_is_silent:
  assumes "rk_fused (om_risk (sy_oms (th_sys (ep_threads p))))" and "\<not> rk_has_position (om_risk (sy_oms (th_sys (ep_threads p))))"
    and "\<forall>ev now. th_alpha (ep_threads p) \<notin> {AtCancel ev now, AtClose ev now, AtSend now}"
    and "process_run q throws p evs = (p', outs)"
  shows "(\<forall>m sid. ToMarket m sid \<notin> set (oms_outs (tradings outs))) \<and> rk_fused (om_risk (sy_oms (th_sys (ep_threads p'))))"
proof -
  obtain tevs where r: "thread_run q (ep_threads p) tevs = (ep_threads p', tradings outs)"
    using process_run_reaches [OF assms(4)] by (auto simp: threads_reach_def)
  have "quiet_threads (ep_threads p)"
    using assms(1-3) by (auto simp: quiet_threads_def stopped_def split: alpha_pc.split)
  moreover have "quiet_threads (ep_threads p) \<longrightarrow> quiet_threads (ep_threads p') \<and> no_orders (oms_outs (tradings outs))"
    by (rule thr.run_relates [of "\<lambda>h outs h'. quiet_threads h \<longrightarrow> quiet_threads h' \<and> no_orders (oms_outs outs)", OF _ _ _ r])
      (use quiet_step in \<open>force simp: no_orders_def\<close>)+
  ultimately show ?thesis by (simp add: quiet_threads_def stopped_def no_orders_def)
qed

section \<open>After a signal\<close>

text \<open>The messages on the trade session, and how many the rest of a turn may still send.\<close>

definition messages :: "thread_output list \<Rightarrow> nat" where
  "messages outs = length (filter (\<lambda>x. case x of ToMarket _ _ \<Rightarrow> True | _ \<Rightarrow> False) (oms_outs outs))"

fun messages_left :: "alpha_pc \<Rightarrow> nat" where
  "messages_left AtPop = 0"
| "messages_left (AtTimer _ _) = 3"
| "messages_left (AtCancel _ _) = 3"
| "messages_left (AtClose _ _) = 2"
| "messages_left (AtSignal _ _) = 1"
| "messages_left (AtCheck _) = 1"
| "messages_left (AtSend _) = 1"

lemma messages_simps [simp]: "messages [] = 0" "messages (xs @ ys) = messages xs + messages ys"
  by (simp_all add: messages_def)

lemma messages_none: "(\<And>m sid. ToMarket m sid \<notin> set (oms_outs outs)) \<Longrightarrow> messages outs = 0"
  by (auto simp: messages_def filter_empty_conv split: oms_output.split)

lemma send_messages: "send_ioc q net utc sd qty l1 ts s = (s', outs, i) \<Longrightarrow>
    messages (map EntryOut outs) \<le> 1 \<and> messages (map CloseOut outs) \<le> 1"
  by (auto simp: send_ioc_def next_clordid_def messages_def Let_def split: if_splits send_result.splits)

lemma cancel_messages: "cancel_order net utc i s = (s', outs) \<Longrightarrow> messages (map CloseOut outs) \<le> 1"
  by (auto simp: cancel_order_def next_clordid_def messages_def Let_def split: option.splits send_result.splits)

lemma alpha_step_messages:
  assumes "alpha_step q t h = (h', outs)" "th_alpha h \<noteq> AtPop"
  shows "messages outs + messages_left (th_alpha h') \<le> messages_left (th_alpha h) \<and>
    entries outs + (if th_alpha h' = AtPop then 0 else 1) \<le> 1"
proof -
  have e: "entries outs \<le> (if at_send h then 1 else 0)" using alpha_step_entries [OF assms(1)] by blast
  show ?thesis
  proof (cases "th_alpha h")
    case (AtTimer ev now)
    then show ?thesis using assms(1) by (auto simp: alpha_step_def split: option.splits)
  next
    case (AtCancel ev now)
    let ?o = "rk_open_order (om_risk (sy_oms (th_sys h)))"
    obtain s os where c: "cancel_order (tn_cancel_net t) (tn_cancel_utc t) (ord_clordid ?o) (sy_oms (th_sys h)) = (s, os)"
      by fastforce
    then show ?thesis using AtCancel assms(1) e cancel_messages [OF c]
      by (auto simp: alpha_step_def cancel_step_def at_send_def)
  next
    case (AtClose ev now)
    let ?b = "gw_book (sy_gateway (th_sys h))" and ?o = "rk_open_order (om_risk (sy_oms (th_sys h)))"
    obtain s os i where c: "send_ioc q (tn_close_net t) (tn_close_utc t) (close_side ?o) (ord_qty ?o)
      (if ord_side ?o = Buy then best_bid ?b else best_ask ?b) now (sy_oms (th_sys h)) = (s, os, i)" by (metis prod_cases3)
    then show ?thesis using AtClose assms(1) e send_messages [OF c]
      by (auto simp: alpha_step_def close_step_def at_send_def Let_def)
  next
    case (AtSignal ev now)
    then show ?thesis using assms(1)
      by (auto simp: alpha_step_def signal_step_def case_prod_unfold Let_def)
  next
    case (AtCheck now)
    then show ?thesis using assms(1) by (auto simp: alpha_step_def split: if_splits)
  next
    case (AtSend now)
    let ?sig = "se_last_signal (sy_signals (th_sys h))"
    obtain s os i where c: "send_ioc q (tn_entry_net t) (tn_entry_utc t) (if sig_direction ?sig = DirBuy then Buy else Sell) 1
      (sig_l1_price ?sig) now (sy_oms (th_sys h)) = (s, os, i)" by (metis prod_cases3)
    then show ?thesis using AtSend assms(1) send_messages [OF c] send_entries [OF c]
      by (auto simp: alpha_step_def send_step_def Let_def)
  qed (use assms(2) in simp)
qed

text \<open>With the flag down: what a stretch of the run puts out, and what it leaves to be sent.\<close>

definition winds_down :: "engine_process \<Rightarrow> thread_output list \<Rightarrow> engine_process \<Rightarrow> bool" where
  "winds_down p outs p' \<longleftrightarrow> \<not> ep_running p' \<and>
     (let pc = th_alpha (ep_threads p); pc' = th_alpha (ep_threads p')
      in messages outs + messages_left pc' \<le> messages_left pc \<and>
         entries outs + (if pc' = AtPop then 0 else 1) \<le> (if pc = AtPop then 0 else 1) \<and>
         (pc = AtPop \<longrightarrow> pc' = AtPop \<and> sy_signals (th_sys (ep_threads p')) = sy_signals (th_sys (ep_threads p))))"

lemma winds_down_trans: "winds_down p1 o1 p2 \<Longrightarrow> winds_down p2 o2 p3 \<Longrightarrow> winds_down p1 (o1 @ o2) p3"
  by (auto simp: winds_down_def Let_def split: if_splits)

lemma other_outputs:
  assumes "process_step q throws p e = (p', outs)" "\<And>t. e \<noteq> AlphaThread t"
  shows "messages (tradings outs) = 0 \<and> entries (tradings outs) = 0"
proof -
  have none: "ToMarket m sid \<notin> set (oms_outs (tradings outs))" for m sid
    using alpha_message [OF assms(1)] assms(2) by metis
  then have "\<not> is_entry x" if "x \<in> set (tradings outs)" for x
    using that by (force simp: is_entry_def oms_outs_def split: thread_output.splits oms_output.splits)
  then show ?thesis using messages_none none by (simp add: entries_def filter_empty_conv)
qed

lemma winds_down_step:
  assumes "process_step q throws p e = (p', outs)" "\<not> ep_running p"
  shows "winds_down p (tradings outs) p'"
proof (cases "(\<exists>t. e = AlphaThread t) \<and> live p")
  case True
  then obtain t where e: "e = AlphaThread t" by blast
  have a: "alpha_thread_step q t p = (p', outs)" using assms(1) e True live_alpha_step by simp
  show ?thesis
  proof (cases "ep_alpha p = Spinning \<and> th_alpha (ep_threads p) \<noteq> AtPop")
    case True
    obtain h os where h: "alpha_step q t (ep_threads p) = (h, os)" by fastforce
    then have "p' = p\<lparr>ep_threads := h\<rparr>" "tradings outs = os" using a True by (auto simp: alpha_thread_step_def)
    then show ?thesis using alpha_step_messages [OF h] True assms(2) by (simp add: winds_down_def Let_def)
  next
    case False
    then show ?thesis using a assms(2) by (auto simp: alpha_thread_step_def winds_down_def split: if_splits)
  qed
next
  case False
  show ?thesis
  proof (cases "live p")
    case True
    then have n: "\<And>t. e \<noteq> AlphaThread t" using False by blast
    have "ep_running p' = False"
    proof (cases "e = MainStep")
      case True
      then show ?thesis using assms main_step_fields(2) [of throws p] by (simp add: process_main_step)
    qed (use other_step_fields [OF assms(1)] assms(2) in simp)
    then show ?thesis using other_outputs [OF assms(1) n] other_view [OF assms(1) n]
      by (simp add: winds_down_def alpha_view_def Let_def)
  next
    case False
    then show ?thesis using assms by (auto simp: live_def exited_step winds_down_def)
  qed
qed

text \<open>
  C8: A signal ends the trading.  Whatever the process is doing when it is interrupted, in its
  startup, in a turn or in its shutdown, from then on at most the rest of the turn in progress is sent:
  a cancel request, a closing order and one entry order at most, less what the turn has behind it, and
  nothing at all when the alpha thread stands before its loop test; then the signal engine handles
  no event any more either.
\<close>

theorem interrupt_ends_trading:
  assumes "process_run q throws p (Interrupt # evs) = (p', outs)"
  shows "messages (tradings outs) \<le> messages_left (th_alpha (ep_threads p)) \<and>
    entries (tradings outs) \<le> (if th_alpha (ep_threads p) = AtPop then 0 else 1) \<and>
    (th_alpha (ep_threads p) = AtPop \<longrightarrow> sy_signals (th_sys (ep_threads p')) = sy_signals (th_sys (ep_threads p)))"
proof (cases "live p")
  case True
  then have i: "process_step q throws p Interrupt = (p\<lparr>ep_running := False\<rparr>, [])"
    by (auto simp: live_def process_step_def split: main_pc.split)
  then have r: "process_run q throws (p\<lparr>ep_running := False\<rparr>) evs = (p', outs)" using assms by (simp add: case_prod_unfold)
  have "\<not> ep_running (p\<lparr>ep_running := False\<rparr>) \<longrightarrow> winds_down (p\<lparr>ep_running := False\<rparr>) (tradings outs) p'"
    by (rule prc.run_relates [of "\<lambda>p outs p'. \<not> ep_running p \<longrightarrow> winds_down p (tradings outs) p'", OF _ _ _ r])
      (use winds_down_step winds_down_trans in \<open>force simp: winds_down_def\<close>)+
  then show ?thesis by (simp add: winds_down_def Let_def split: if_splits)
next
  case False
  then have "process_run q throws p (Interrupt # evs) = (p, [])" using exited_run by (auto simp: live_def simp del: process_run.simps)
  then have "p' = p" "outs = []" using assms by (simp_all del: process_run.simps)
  then show ?thesis by simp
qed

section \<open>Witnesses\<close>

text \<open>A running process, its thread at a given place.\<close>

definition sample_process :: "trading_system \<Rightarrow> alpha_pc \<Rightarrow> engine_process" where
  "sample_process y pc = \<lparr> ep_threads = \<lparr> th_sys = y, th_alpha = pc \<rparr>, ep_main = AtLoop, ep_running = True,
     ep_alpha = Spinning, ep_trade_up = True, ep_feed_up = True \<rparr>"

lemma sample_process_step:
  "alpha_step q t \<lparr> th_sys = y, th_alpha = pc \<rparr> = (\<lparr> th_sys = y', th_alpha = pc' \<rparr>, outs) \<Longrightarrow>
    process_step q throws (sample_process y pc) (AlphaThread t) = (sample_process y' pc', map Trading outs)"
  by (simp add: process_step_def alpha_thread_step_def sample_process_def)

theorem entry_orders_are_checked_witness:
  "\<exists>p outs0 p' m sid pre p2 o2 sig. process_run sample_quickfix (\<lambda>_. False) (sample_process sample_system AtPop)
       (replicate 4 (AlphaThread sample_turn)) = (p, outs0) \<and>
     process_step sample_quickfix (\<lambda>_. False) p (AlphaThread sample_turn) = (p', [Trading (EntryOut (ToMarket m sid))]) \<and>
     process_run sample_quickfix (\<lambda>_. False) (sample_process sample_system AtPop) pre = (p2, o2) \<and>
     gate_open p2 9000000000 sig \<and> msg_header m 35 = Some ''D''"
proof -
  obtain queue' where pop: "spsc_pop kMdQueueCapacity sample_queue = (queue', Some collapse)"
    by (rule sample_queue_pop)
  obtain e where e: "signal_on_event sample_engine collapse book_empty = (e, True)" using sample_fires by blast
  let ?y = "sample_system\<lparr>sy_gateway := (sy_gateway sample_system)\<lparr>gw_queue := Some queue'\<rparr>\<rparr>"
  let ?p = "sample_process (?y\<lparr>sy_signals := e\<rparr>) (AtSend 9000000000)"
  have run: "process_run sample_quickfix (\<lambda>_. False) (sample_process sample_system AtPop)
      (replicate 4 (AlphaThread sample_turn)) = (?p, [])"
    using pop e sample_system_parts
    by (simp add: eval_nat_numeral process_step_def alpha_thread_step_def sample_process_def alpha_step_def pop_step_def
        signal_step_def sample_turn_def)
  obtain p' m sid where step: "process_step sample_quickfix (\<lambda>_. False) ?p (AlphaThread sample_turn)
      = (p', [Trading (EntryOut (ToMarket m sid))])"
    using sample_system_parts(4)
    by (simp add: process_step_def alpha_thread_step_def sample_process_def alpha_step_def send_step_def send_ioc_def
        next_clordid_def sample_turn_def Let_def)
  have start: "th_alpha (ep_threads (sample_process sample_system AtPop)) = AtPop" by (simp add: sample_process_def)
  from entry_orders_are_checked [OF start run step, of m sid]
  obtain pre p2 o2 now sig utc i sd ord_now where f: "process_run sample_quickfix (\<lambda>_. False) (sample_process sample_system AtPop) pre = (p2, o2)"
    "gate_open p2 now sig" "m = new_order_single sample_quickfix utc i sd 1"
    "rk_open_order (om_risk (sy_oms (th_sys (ep_threads p')))) = sent_order i sd 1 (sig_l1_price sig) now"
    by (auto simp: Let_def)
  have "ord_sent_ts_ns (rk_open_order (om_risk (sy_oms (th_sys (ep_threads p'))))) = 9000000000"
    using step sample_system_parts(4)
    by (auto simp: process_step_def alpha_thread_step_def sample_process_def alpha_step_def send_step_def send_ioc_def
        next_clordid_def on_order_sent_def sent_order_def sample_turn_def Let_def)
  then have "now = 9000000000" using f(4) by (simp add: sent_order_def)
  moreover have "msg_header m 35 = Some ''D''" using f(3) by (simp add: new_order_single_def fix_building Let_def)
  ultimately show ?thesis using run step f(1,2) by blast
qed

text \<open>An order of 1000 ns, unanswered nine seconds later, when the next event comes.\<close>

theorem closing_orders_follow_timeouts_witness:
  "\<exists>p outs0 p' m sid pre p1 o1 ev now. process_run sample_quickfix (\<lambda>_. False)
       (sample_process (sample_system\<lparr>sy_oms := sample_oms\<rparr>) AtPop) (replicate 2 (AlphaThread sample_turn)) = (p, outs0) \<and>
     process_step sample_quickfix (\<lambda>_. False) p (AlphaThread sample_turn) = (p', [Trading (CloseOut (ToMarket m sid))]) \<and>
     process_run sample_quickfix (\<lambda>_. False) (sample_process (sample_system\<lparr>sy_oms := sample_oms\<rparr>) AtPop) pre = (p1, o1) \<and>
     timeout_strikes p1 ev now (sent_order (clordid_of 1) Buy 1 200000 1000) \<and> msg_header m 35 = Some ''F''"
proof -
  let ?start = "sample_process (sample_system\<lparr>sy_oms := sample_oms\<rparr>) AtPop"
  obtain queue' where pop: "spsc_pop kMdQueueCapacity sample_queue = (queue', Some collapse)"
    by (rule sample_queue_pop)
  let ?y = "sample_system\<lparr>sy_oms := sample_oms, sy_gateway := (sy_gateway sample_system)\<lparr>gw_queue := Some queue'\<rparr>\<rparr>"
  let ?p = "sample_process ?y (AtCancel collapse 9000000000)"
  let ?step = "process_step sample_quickfix (\<lambda>_. False)" and ?e = "AlphaThread sample_turn"
  have "?step ?start ?e = (sample_process ?y (AtTimer collapse 9000000000), [])"
    using pop sample_system_parts(1)
    by (simp add: process_step_def alpha_thread_step_def sample_process_def alpha_step_def pop_step_def sample_turn_def)
  moreover have "?step (sample_process ?y (AtTimer collapse 9000000000)) ?e = (?p, [])"
    by (simp add: process_step_def alpha_thread_step_def sample_process_def alpha_step_def on_timer_def
        sample_oms_open on_order_sent_def risk_init_def default_config_def)
  ultimately have run: "process_run sample_quickfix (\<lambda>_. False) ?start (replicate 2 ?e) = (?p, [])"
    by (simp add: numeral_2_eq_2)
  obtain p' m sid where step: "process_step sample_quickfix (\<lambda>_. False) ?p (AlphaThread sample_turn)
      = (p', [Trading (CloseOut (ToMarket m sid))])" and m: "msg_header m 35 = Some ''F''"
      "msg_body m 41 = Some (clordid_of 1)"
    by (simp add: process_step_def alpha_thread_step_def sample_process_def alpha_step_def cancel_step_def cancel_order_def
        sample_oms_open on_order_sent_def sent_order_def next_clordid_def sample_turn_def cancel_request_def fix_building Let_def)
  have start: "th_alpha (ep_threads ?start) = AtPop" by (simp add: sample_process_def)
  have "ToMarket m sid \<in> set (oms_outs (tradings [Trading (CloseOut (ToMarket m sid))]))" by (simp add: tradings_def oms_outs_def)
  from closing_orders_follow_timeouts [OF start run step this]
  obtain pre t rest p1 o1 ev now ord where f: "replicate 2 (AlphaThread sample_turn) = pre @ AlphaThread t # rest"
    "process_run sample_quickfix (\<lambda>_. False) ?start pre = (p1, o1)" "timeout_strikes p1 ev now ord" by auto
  then have "pre = [] \<or> pre = [AlphaThread sample_turn]" by (cases pre) (auto simp: eval_nat_numeral Cons_eq_append_conv)
  then have "sy_oms (th_sys (ep_threads p1)) = sample_oms"
    using f(2) pop sample_system_parts(1)
    by (auto simp: process_step_def alpha_thread_step_def sample_process_def alpha_step_def pop_step_def)
  then have "ord = sent_order (clordid_of 1) Buy 1 200000 1000"
    using f(3) by (simp add: timeout_strikes_def sample_oms_open on_order_sent_def Let_def)
  then show ?thesis using run step m f(2,3) by blast
qed

theorem fused_process_is_silent_witness:
  "\<forall>m sid. ToMarket m sid \<notin> set (oms_outs (tradings (snd (process_run sample_quickfix (\<lambda>_. False)
     (sample_process (sample_system\<lparr>sy_oms := fused_oms\<rparr>) AtPop)
     [AlphaThread sample_turn, Session (TradeMessage (sample_report (clordid_of 1) ''1'') 5000), AlphaThread sample_turn,
      AlphaThread sample_turn, AlphaThread sample_turn]))))"
proof -
  let ?p = "sample_process (sample_system\<lparr>sy_oms := fused_oms\<rparr>) AtPop"
  have "rk_fused (om_risk (sy_oms (th_sys (ep_threads ?p))))" "\<not> rk_has_position (om_risk (sy_oms (th_sys (ep_threads ?p))))"
    "\<forall>ev now. th_alpha (ep_threads ?p) \<notin> {AtCancel ev now, AtClose ev now, AtSend now}"
    by (simp_all add: sample_process_def fused_oms_def risk_init_def)
  from fused_process_is_silent [OF this prod.collapse [symmetric]] show ?thesis by blast
qed

theorem interrupt_ends_trading_witness:
  "messages (tradings (snd (process_run sample_quickfix (\<lambda>_. False) (sample_process sample_system (AtSend 9000000000))
     [Interrupt, AlphaThread sample_turn, AlphaThread sample_turn, MainStep]))) \<le> 1"
  using interrupt_ends_trading [OF prod.collapse [symmetric], of sample_quickfix "\<lambda>_. False"
      "sample_process sample_system (AtSend 9000000000)" "[AlphaThread sample_turn, AlphaThread sample_turn, MainStep]"]
  by (simp add: sample_process_def del: process_run.simps)

end
