(* ===== verification/Spec2Isabelle.thy ===== *)
theory Spec2Isabelle
  imports Std_Map Types Order_Book Spsc_Queue Risk_Manager Order_Manager Delta_Factor Cancel_Factor
    Score_Bounds Signal_Engine Fix_Md_Gateway Binary_Logger Memory_Pool Tsc_Clock Engine Backtest Logger_App
    Machine Engine_Threads App_Main Engine_Main System_Types Number_Text Backtest_Main Logger_Main
    Spsc_Weak Signal_Reference Log_Handles Engine_Orders
begin

text \<open>
  smart_quant: an algorithmic trader for one instrument over two FIX 4.4 sessions.  The
  market-data session feeds an order book, a log and a lock-free queue; the alpha thread pops
  the queue, computes two factors and fires signals; a risk manager gates them; the order
  manager trades them.  A second program only records, a third replays a recording.

  The parts, the theories that model them, and how they correspond to \<open>src/\<close>:
  \<^item> \<open>Prelude\<close>, \<open>Binary64\<close>, \<open>Std_Map\<close>, \<open>Decimal\<close>, \<open>Fix_Message\<close>: the words, IEEE 754 doubles
    (\<open>f64\<close>: rationals of 53 bits with rounding to nearest even written out, infinities and
    NaN; one zero), \<open>std::map\<close> as a sorted association list, printed numbers, and FIX messages as
    maps from tags to texts.  \<open>Machine\<close> is the locale of programs that run over a list of events
    and put out values; the order manager, the engine and the logger interpret it.  Facts on
    rounding and on the square root are shared from here.
  \<^item> \<open>Types\<close> (\<open>common/types.hpp\<close>): events, signals, orders, price conversion.  Quantities and
    prices are \<open>int\<close> with \<open>i64\<close> writing out the wrap of \<open>int64_t\<close>; times and counters are words.
  \<^item> \<open>Order_Book\<close> (\<open>md/order_book\<close>): levels and the map of live entries; the invariant
    \<open>book_consistent\<close> says that the levels are the sums of the entries.
  \<^item> \<open>Spsc_Queue\<close> (\<open>common/spsc_queue.hpp\<close>): the operations as a bounded FIFO (locale
    \<open>bounded_fifo\<close>, interpreted on the code's model), and the two threads' loads, buffer accesses
    and stores as an inductive step relation.  \<open>Spsc_Weak\<close> runs the same steps under the release and
    acquire orders the code names: loads may be stale, vector clocks tell ordered accesses from races.
  \<^item> \<open>Bucket_Ring\<close>, \<open>Delta_Factor\<close>, \<open>Cancel_Factor\<close>, \<open>Score_Bounds\<close> (\<open>alpha/\<close>): the ring of time
    buckets, related to the whole history of the feed (\<open>on_grid\<close>); the imbalance and its
    differences; the deletion counts, scores, and the dynamic threshold; how large scores get.
  \<^item> \<open>Signal_Engine\<close> (\<open>alpha/signal_engine\<close>): both factors and the two strategy conditions.
    \<open>Signal_Reference\<close> computes a signal from the history of the feed alone, without the engine's state.
  \<^item> \<open>Risk_Manager\<close> (\<open>risk/\<close>), \<open>Order_Manager\<close> (\<open>oms/\<close>): gate, fuse, cooldown and timeout;
    orders, reports and the sessions' callbacks, with runs over arbitrary sequences of calls.
  \<^item> \<open>Fix_Md_Gateway\<close> (\<open>md/fix_md_gateway\<close>): the market-data handlers, every exit of them.
  \<^item> \<open>Binary_Logger\<close> (\<open>log/binary_logger\<close>): the memory-mapped byte ring and its reader;
    \<open>Log_Handles\<close> (the same files): the descriptors and mappings that constructors take and
    destructors give back.
  \<^item> \<open>Tsc_Clock\<close>, \<open>Memory_Pool\<close> (\<open>common/\<close>): the calibrated clock; the free list in a slab,
    behind the locale \<open>allocator\<close>.
  \<^item> \<open>Engine\<close>, \<open>Engine_Threads\<close>, \<open>Engine_Main\<close>, \<open>Engine_Orders\<close>, \<open>System_Types\<close> (\<open>apps/engine/main.cpp\<close>): the
    engine at three granularities.  \<open>Engine\<close> composes the gateway, the queue, the signal engine and the
    order manager into one system whose steps are whole alpha turns and session callbacks in any
    order; \<open>Engine_Threads\<close> takes the turn apart into its calls (\<open>alpha_pc\<close> says where the thread
    stands), between which callbacks may come; \<open>Engine_Main\<close> adds the main thread: command line,
    startup with its exceptions, loop, signal handler, shutdown.  \<open>Engine_Orders\<close> follows each message
    on the trade session back to the steps that led to it, over the whole life of the process.
    The comparisons with the backtest, and what a turn of the timeout sends when nothing comes in
    between, use whole turns; what is said of entries, gate, fuse, signals and shutdown holds
    however the calls interleave.  \<open>System_Types\<close> gives every state of the process its C++ types.
  \<^item> \<open>Backtest\<close>, \<open>Number_Text\<close>, \<open>Backtest_Main\<close> (\<open>apps/backtest/main.cpp\<close>): the replay and the
    judgement of signals; doubles read from and written to text; the program around them, with its
    report and CSV file.
  \<^item> \<open>Logger_App\<close>, \<open>App_Main\<close>, \<open>Logger_Main\<close> (\<open>apps/logger/main.cpp\<close>): the recorder's supervising loop;
    exit statuses, \<open>std::stoi\<close> and log names, which the programs share; the program around the loop.
  \<^item> This theory: properties that span components, above all when the backtest replays what
    the live engine did: the book and the cancellation factor as long as the queue has room
    (\<open>tracks\<close>), the whole signal engine when no event waits behind another (\<open>locked\<close>), and either
    only when a snapshot comes to an empty book, as the clearing of a book is not logged.

  What the lemmas show.  Refinement: the book implements its entry map, the rings implement
  window sums over the history, the signal engine and the backtest's counters implement a
  computation from the history alone, gateway, log and queue carry one stream.  Safety: the
  queue neither loses nor reorders, and has no data race with the memory orders of the code, the
  fuse and the gate hold under every interleaving of the calls but for the one already past them,
  every entry order goes back to a signal and an open gate, every other message to a timeout, a
  signal to the process ends the trading, order ids are unique, the pool hands out
  distinct slots.  Types: the engine never leaves the ranges of its integers, doubles and indices.
  Round trips: log records, prices, CSV counters, printed figures.  Bounds: the clock is within a
  nanosecond of its samples, scores stay below \<open>2 ^ 24\<close>, the threshold is the 95th
  percentile.  Termination and liveness: the log reader ends within as many calls as there are
  bytes, the alpha thread drains the queue, the engine can be stopped from every state.  Error
  behaviour: what the code does on reused and unknown ids, after silences, on reports it does
  not recognise, on early logouts, on wrapped logs, on empty sides, when the startup fails, which
  descriptors a rejected log leaks, when the
  feed falls silent, when a report comes between the risk check and the order.

  Bounds chosen.  Exactness of the factors needs totals below \<open>2 ^ 53\<close> (volumes) or feeds of at
  most \<open>2 ^ 26\<close> events (so that sums of squares stay below \<open>2 ^ 53\<close>); a feed is paced when no gap
  exceeds the buckets that are advanced at once (110 ms for the default imbalance, 2 seconds for
  the deletions) and the clock does not wrap; the reference of the signal engine and the exact
  factors hold of paced feeds only.  The score bound holds of any ordered feed with at most 8192 deletions a side in
  10 ms, however long and with any gaps.  The index of the percentile is exact up to \<open>2 ^ 48\<close>
  scores.  The only fuel is that of the log reader, the number of bytes of
  the ring, which is proved to suffice; every other loop is structural or has a measure.

  Parameters.  QuickFIX's field conversions (\<open>quickfix\<close>), the outcome of each send, the kernel's
  answers to the system calls of the log, the texts of UTC stamps and all clock readings are arguments.  \<open>std::sort\<close> is insertion sort on
  lists without NaN, \<open>std::lower_bound\<close> the library's bisection.

  Not modelled.  \<open>LobEventLogger\<close> (named by the build file, absent from the repository; its
  writes are outputs, its reader a list of events); QuickFIX's initiators and sockets;
  \<open>msync\<close>; thread pinning and the set-up of the logging library; the texts of log lines other than
  the backtest's report; build files and tests.  The smallest step of \<open>Engine_Threads\<close> is one call into a component: the
  code shares the book and the order manager between threads without a lock, and races inside
  one such call (on the map of open orders, on the levels of the book) are undefined behaviour
  outside the model.
\<close>

section \<open>The live engine against a replay of its log\<close>

text \<open>What the gateway gave to the logger in a run, and what waits in the queue.\<close>

definition md_logged :: "system_output list \<Rightarrow> lob_event list" where
  "md_logged outs = logged (concat (map (\<lambda>x. case x of MdOut y \<Rightarrow> [y] | _ \<Rightarrow> []) outs))"

definition waiting :: "trading_system \<Rightarrow> nat" where
  "waiting y = (case gw_queue (sy_gateway y) of None \<Rightarrow> 0
     | Some queue \<Rightarrow> length (spsc_contents kMdQueueCapacity queue))"

text \<open>A snapshot clears the gateway's book, but nothing of that goes to the log.\<close>

definition drops_book :: "trading_system \<Rightarrow> system_event \<Rightarrow> bool" where
  "drops_book y e \<longleftrightarrow> (case e of MdMessage m ts \<Rightarrow> msg_header m 35 = Some ''W'' \<and>
       book_clear (gw_book (sy_gateway y)) \<noteq> gw_book (sy_gateway y) | _ \<Rightarrow> False)"

text \<open>
  No message brings more events than the queue has room for, and a snapshot comes only to an
  empty book, as the first one after the start does.
\<close>

fun keeps_up :: "quickfix \<Rightarrow> trading_system \<Rightarrow> system_event list \<Rightarrow> bool" where
  "keeps_up q y [] = True"
| "keeps_up q y (e # evs) =
     (let (y1, outs) = system_step q y e
      in waiting y + length (md_logged outs) \<le> spsc_room kMdQueueCapacity \<and>
         \<not> drops_book y e \<and> keeps_up q y1 evs)"

lemma not_dropped:
  "\<not> drops_book y (MdMessage m ts) \<Longrightarrow> before_entries m (sy_gateway y) = sy_gateway y"
  by (auto simp: drops_book_def before_entries_def)

lemma drops_book_simps [simp]:
  "\<not> drops_book y (AlphaTurn t)" "msg_header m 35 \<noteq> Some ''W'' \<Longrightarrow> \<not> drops_book y (MdMessage m ts)"
  "book_clear (gw_book (sy_gateway y)) = gw_book (sy_gateway y) \<Longrightarrow> \<not> drops_book y (MdMessage m ts)"
  by (simp_all add: drops_book_def)

lemma md_logged_simps [simp]:
  "md_logged [] = []" "md_logged (xs @ ys) = md_logged xs @ md_logged ys"
  "md_logged (map MdOut ms) = logged ms" "md_logged (map TradeOut os) = []"
  by (simp_all add: md_logged_def comp_def) (induction os, simp_all)

text \<open>
  The state of the live engine, given all that was logged: the book has run over all of it,
  the cancellation factor over all but what still waits.
\<close>

definition tracks :: "lob_event list \<Rightarrow> trading_system \<Rightarrow> bool" where
  "tracks recorded y \<longleftrightarrow> gw_book (sy_gateway y) = book_run book_empty recorded \<and>
     (\<exists>queue consumed. gw_queue (sy_gateway y) = Some queue \<and> spsc_inv kMdQueueCapacity queue \<and>
        recorded = consumed @ spsc_contents kMdQueueCapacity queue \<and>
        se_cancel (sy_signals y) = cancel_feed cancel_new consumed)"

lemma alpha_turn_gateway:
  assumes "alpha_turn q t y = (y', outs)" "gw_queue (sy_gateway y) = Some queue"
    "spsc_pop kMdQueueCapacity queue = (queue', Some ev)"
  shows "sy_gateway y' = (sy_gateway y)\<lparr>gw_queue := Some queue'\<rparr> \<and>
    sy_signals y' = fst (signal_on_event (sy_signals y) ev (gw_book (sy_gateway y)))"
  using assms by (auto simp: alpha_turn_def case_prod_unfold Let_def)

lemma turn_tracks:
  assumes "tracks recorded y" "alpha_turn q t y = (y', outs)"
  shows "tracks recorded y'"
proof -
  obtain queue consumed where s: "gw_queue (sy_gateway y) = Some queue" "spsc_inv kMdQueueCapacity queue"
      "recorded = consumed @ spsc_contents kMdQueueCapacity queue"
      "se_cancel (sy_signals y) = cancel_feed cancel_new consumed"
    and b: "gw_book (sy_gateway y) = book_run book_empty recorded" using assms(1) by (auto simp: tracks_def)
  show ?thesis
  proof (cases "spsc_contents kMdQueueCapacity queue")
    case Nil
    then have "y' = y" using assms(2) s(1) spsc.pop_none [OF s(2)] by (simp add: alpha_turn_def)
    then show ?thesis using assms(1) by simp
  next
    case (Cons ev rest)
    obtain queue' where pop: "spsc_pop kMdQueueCapacity queue = (queue', Some ev)"
      and rest: "spsc_contents kMdQueueCapacity queue' = rest"
      using spsc.pop_some [OF s(2) Cons] by (metis prod.collapse)
    have inv: "spsc_inv kMdQueueCapacity queue'" using spsc.inv_pop [OF s(2)] by (simp add: pop)
    note y' = alpha_turn_gateway [OF assms(2) s(1) pop]
    have "se_cancel (sy_signals y') = cancel_feed cancel_new (consumed @ [ev])"
      using y' s(4) by (simp add: signal_on_event_factors feed_factors_def cancel_feed_snoc Let_def)
    moreover have "recorded = (consumed @ [ev]) @ spsc_contents kMdQueueCapacity queue'"
      using s(3) Cons rest by simp
    ultimately show ?thesis using y' inv b unfolding tracks_def by auto
  qed
qed

lemma message_tracks:
  assumes "tracks recorded y" "md_fromApp q m ts (sy_gateway y) = (g, outs, err)"
    "\<not> drops_book y (MdMessage m ts)" "waiting y + length (logged outs) \<le> spsc_room kMdQueueCapacity"
  shows "tracks (recorded @ logged outs) (y\<lparr>sy_gateway := g\<rparr>)"
proof -
  obtain queue consumed where s: "gw_queue (sy_gateway y) = Some queue" "spsc_inv kMdQueueCapacity queue"
      "recorded = consumed @ spsc_contents kMdQueueCapacity queue"
      "se_cancel (sy_signals y) = cancel_feed cancel_new consumed"
    and b: "gw_book (sy_gateway y) = book_run book_empty recorded" using assms(1) by (auto simp: tracks_def)
  let ?queue' = "foldl (\<lambda>q x. fst (spsc_push kMdQueueCapacity q x)) queue (logged outs)"
  have g: "gw_book g = book_run (gw_book (sy_gateway y)) (logged outs)" "gw_queue g = Some ?queue'"
    using fromApp_streamed [OF assms(2)] not_dropped [OF assms(3)] by (simp_all add: s(1) foldl_offer)
  have "spsc_contents kMdQueueCapacity ?queue' = spsc_contents kMdQueueCapacity queue @ logged outs"
    using spsc.contents_push_all [OF s(2), of "logged outs"] assms(4) by (simp add: waiting_def s(1))
  moreover have "gw_book g = book_run book_empty (recorded @ logged outs)"
    unfolding g(1) b by (simp add: book_run_def)
  ultimately show ?thesis
    using s(3,4) g(2) spsc.inv_push_all [OF s(2), of "logged outs"] unfolding tracks_def by auto
qed

lemma session_tracks:
  "gw_book g = gw_book (sy_gateway y) \<Longrightarrow> gw_queue g = gw_queue (sy_gateway y) \<Longrightarrow>
    tracks recorded y \<Longrightarrow> tracks recorded (y\<lparr>sy_gateway := g\<rparr>)"
  by (simp add: tracks_def)

lemma session_keeps:
  "gw_book (fst (md_onLogon net sid now g)) = gw_book g" "gw_queue (fst (md_onLogon net sid now g)) = gw_queue g"
  "gw_book (md_onLogout now g) = gw_book g" "gw_queue (md_onLogout now g) = gw_queue g"
  "gw_book (fst (md_fromAdmin m g)) = gw_book g" "gw_queue (fst (md_fromAdmin m g)) = gw_queue g"
  by (auto simp: md_onLogon_def subscribe_market_data_def md_onLogout_def md_fromAdmin_def
      split: send_result.splits sum.splits option.splits)

lemma logon_logs_nothing: "logged (fst (snd (md_onLogon net sid now g))) = []"
  by (auto simp: md_onLogon_def subscribe_market_data_def split: send_result.splits)

lemma step_tracks:
  assumes "tracks recorded y" "keeps_up q y [e]" "system_step q y e = (y', outs)"
  shows "tracks (recorded @ md_logged outs) y'"
proof (cases e)
  case (AlphaTurn t)
  obtain y1 outs1 where t: "alpha_turn q t y = (y1, outs1)" by fastforce
  show ?thesis using turn_tracks [OF assms(1) t] assms(3) t AlphaTurn by auto
next
  case (MdMessage m ts)
  obtain g outs1 err where m: "md_fromApp q m ts (sy_gateway y) = (g, outs1, err)" by (metis prod_cases3)
  show ?thesis using message_tracks [OF assms(1) m] assms(2,3) m MdMessage by auto
next
  case (MdLogon net sid now)
  then show ?thesis
    using assms(1,3) session_tracks [OF session_keeps(1,2) assms(1)] logon_logs_nothing [of net sid now "sy_gateway y"]
    by (auto simp: case_prod_unfold Let_def)
next
  case (TradeMessage m now)
  then show ?thesis using assms(1,3) by (auto simp: case_prod_unfold Let_def tracks_def)
qed (use assms(1,3) session_tracks session_keeps in \<open>auto simp: tracks_def\<close>)

lemma run_tracks:
  "tracks recorded y \<Longrightarrow> keeps_up q y evs \<Longrightarrow> system_run q y evs = (y', outs) \<Longrightarrow>
    tracks (recorded @ md_logged outs) y'"
proof (induction evs arbitrary: recorded y outs)
  case (Cons e evs)
  obtain y1 outs1 where e: "system_step q y e = (y1, outs1)" by fastforce
  obtain outs2 where r: "system_run q y1 evs = (y', outs2)" "outs = outs1 @ outs2"
    using Cons.prems(3) e by (auto simp: case_prod_unfold Let_def prod_eq_iff)
  have "tracks (recorded @ md_logged outs1) y1"
    using step_tracks [OF Cons.prems(1) _ e] Cons.prems(2) e by (simp add: Let_def)
  from Cons.IH [OF this _ r(1)] show ?case using Cons.prems(2) e r(2) by (simp add: Let_def)
qed simp

lemma init_tracks:
  assumes "length buf = unat kMdQueueCapacity"
  shows "tracks [] (system_init md_settings buf)"
  using spsc_init_inv [OF capacity_2_14(1) assms] spsc_init_contents [OF capacity_2_14(1), of buf]
  by (simp add: tracks_def system_init_def gateway_new_def book_run_def signal_engine_default_def
      signal_engine_new_def cancel_feed_def Let_def)

text \<open>The backtest's book and factors after a log.\<close>

lemma bt_run_book: "bt_book (bt_run b evs) = book_run (bt_book b) evs"
  by (induction evs arbitrary: b) (simp_all add: bt_step_book book_run_def)

lemma bt_step_cancel: "se_cancel (bt_engine (bt_step b ev)) = cancel_on_event ev (se_cancel (bt_engine b))"
  by (simp add: bt_step_def signal_on_event_factors feed_factors_def case_prod_unfold Let_def)

lemma bt_run_cancel: "se_cancel (bt_engine (bt_run b evs)) = cancel_feed (se_cancel (bt_engine b)) evs"
  by (induction evs arbitrary: b) (simp_all add: bt_step_cancel cancel_feed_def)

lemma tracks_replay:
  "tracks recorded y \<Longrightarrow> let b = bt_run (backtest_init th) recorded
    in gw_book (sy_gateway y) = bt_book b \<and>
       (waiting y = 0 \<longrightarrow> se_cancel (sy_signals y) = se_cancel (bt_engine b))"
  by (auto simp: tracks_def waiting_def bt_run_book bt_run_cancel backtest_init_def signal_engine_new_def Let_def)

text \<open>
  C2: The backtest replays the live engine.  In any interleaving of market data, alpha turns,
  trade reports and session events that starts from the initial system, brings snapshots only to
  an empty book and never overflows the queue, the gateway's book equals the book the backtest rebuilds from
  the log, and once the alpha thread has drained the queue its cancellation factor, scores and
  dynamic threshold included, equals the backtest's.
\<close>

theorem backtest_replays_live_engine:
  assumes "length buf = unat kMdQueueCapacity" and "keeps_up q (system_init md_settings buf) evs"
    and "system_run q (system_init md_settings buf) evs = (y, outs)"
  shows "let b = bt_run (backtest_init th) (md_logged outs)
    in gw_book (sy_gateway y) = bt_book b \<and>
       (waiting y = 0 \<longrightarrow> se_cancel (sy_signals y) = se_cancel (bt_engine b))"
proof -
  have "tracks (md_logged outs) y" using run_tracks [OF init_tracks [OF assms(1)] assms(2,3)] by simp
  then show ?thesis by (rule tracks_replay)
qed

text \<open>Alpha turns alone drain the queue, one event each.\<close>

lemma waiting_le: "tracks recorded y \<Longrightarrow> waiting y \<le> length recorded"
  by (auto simp: tracks_def waiting_def)

lemma turn_waiting:
  assumes "tracks recorded y" "alpha_turn q t y = (y', outs)"
  shows "waiting y' = waiting y - 1"
proof -
  obtain queue where s: "gw_queue (sy_gateway y) = Some queue" "spsc_inv kMdQueueCapacity queue"
    using assms(1) by (auto simp: tracks_def)
  show ?thesis
  proof (cases "spsc_contents kMdQueueCapacity queue")
    case Nil
    then have "y' = y" using assms(2) s(1) spsc.pop_none [OF s(2)] by (simp add: alpha_turn_def)
    then show ?thesis using Nil s(1) by (simp add: waiting_def)
  next
    case (Cons ev rest)
    obtain queue' where pop: "spsc_pop kMdQueueCapacity queue = (queue', Some ev)"
      and rest: "spsc_contents kMdQueueCapacity queue' = rest"
      using spsc.pop_some [OF s(2) Cons] by (metis prod.collapse)
    then show ?thesis using alpha_turn_gateway [OF assms(2) s(1) pop] Cons s(1) by (simp add: waiting_def)
  qed
qed

lemma turns_drain:
  "tracks recorded y \<Longrightarrow> system_run q y (map AlphaTurn turns) = (y', outs) \<Longrightarrow>
    tracks recorded y' \<and> waiting y' = waiting y - length turns"
proof (induction turns arbitrary: y outs)
  case (Cons t turns)
  obtain y1 outs1 where t: "alpha_turn q t y = (y1, outs1)" by fastforce
  obtain outs2 where r: "system_run q y1 (map AlphaTurn turns) = (y', outs2)"
    using Cons.prems(2) t by (auto simp: case_prod_unfold Let_def prod_eq_iff)
  show ?case
    using Cons.IH [OF turn_tracks [OF Cons.prems(1) t] r] turn_waiting [OF Cons.prems(1) t] by simp
qed simp

text \<open>
  C25: The alpha thread catches up.  After any run from the initial system that never overflows the
  queue and brings snapshots only to an empty book, as many of its turns as events wait empty the
  queue, and then its cancellation factor is that of the backtest on the whole log.
\<close>

theorem alpha_thread_catches_up:
  assumes "length buf = unat kMdQueueCapacity" and "keeps_up q (system_init md_settings buf) evs"
    and "system_run q (system_init md_settings buf) evs = (y, outs)"
    and "waiting y \<le> length turns" and "system_run q y (map AlphaTurn turns) = (y', outs')"
  shows "waiting y' = 0 \<and> gw_book (sy_gateway y') = bt_book (bt_run (backtest_init th) (md_logged outs)) \<and>
    se_cancel (sy_signals y') = se_cancel (bt_engine (bt_run (backtest_init th) (md_logged outs)))"
proof -
  have "tracks (md_logged outs) y" using run_tracks [OF init_tracks [OF assms(1)] assms(2,3)] by simp
  from turns_drain [OF this assms(5)] have t: "tracks (md_logged outs) y'" and w: "waiting y' = 0"
    using assms(4) by simp_all
  show ?thesis using tracks_replay [OF t] w by (simp add: Let_def)
qed

section \<open>When the alpha thread keeps step\<close>

text \<open>
  The delta factor reads the book at the time an event is handled, not when it was logged.  It
  can agree with the backtest's only when no event waits behind another: each step leaves at most
  one event in the queue.
\<close>

definition in_step :: "trading_system \<Rightarrow> system_event \<Rightarrow> system_output list \<Rightarrow> bool" where
  "in_step y e outs \<longleftrightarrow> waiting y + length (md_logged outs) \<le> 1 \<and> \<not> drops_book y e"

fun lockstep :: "quickfix \<Rightarrow> trading_system \<Rightarrow> system_event list \<Rightarrow> bool" where
  "lockstep q y [] = True"
| "lockstep q y (e # evs) =
     (let (y1, outs) = system_step q y e in in_step y e outs \<and> lockstep q y1 evs)"

text \<open>The whole signal engine is the backtest's, on all events but one that may wait.\<close>

definition locked :: "lob_event list \<Rightarrow> trading_system \<Rightarrow> bool" where
  "locked recorded y \<longleftrightarrow> tracks recorded y \<and> waiting y \<le> 1 \<and>
     sy_signals y = bt_engine (bt_run (backtest_init (Fin 50)) (take (length recorded - waiting y) recorded))"

lemma bt_step_engine:
  "bt_engine (bt_step b ev) = fst (signal_on_event (bt_engine b) ev (book_after (bt_book b) ev))"
  by (simp add: bt_step_def case_prod_unfold Let_def)

text \<open>What a turn does with the oldest waiting event: it is judged with the book of the whole log.\<close>

lemma turn_judges:
  assumes "tracks recorded y" "alpha_turn q t y = (y', outs)" "waiting y = Suc k"
  shows "k < length recorded \<and> sy_signals y' = fst (signal_on_event (sy_signals y)
    (recorded ! (length recorded - Suc k)) (bt_book (bt_run (backtest_init th) recorded)))"
proof -
  obtain queue consumed where s: "gw_queue (sy_gateway y) = Some queue" "spsc_inv kMdQueueCapacity queue"
      "recorded = consumed @ spsc_contents kMdQueueCapacity queue"
    and b: "gw_book (sy_gateway y) = book_run book_empty recorded" using assms(1) by (auto simp: tracks_def)
  obtain ev rest where c: "spsc_contents kMdQueueCapacity queue = ev # rest" "length rest = k"
    using assms(3) s(1) by (auto simp: waiting_def length_Suc_conv)
  obtain queue' where "spsc_pop kMdQueueCapacity queue = (queue', Some ev)"
    using spsc.pop_some [OF s(2) c(1)] by (metis prod.collapse)
  from alpha_turn_gateway [OF assms(2) s(1) this]
  have "sy_signals y' = fst (signal_on_event (sy_signals y) ev (gw_book (sy_gateway y)))" by simp
  moreover have "recorded ! (length recorded - Suc k) = ev" "k < length recorded"
    using s(3) c by (simp_all add: nth_append)
  ultimately show ?thesis using b by (simp add: bt_run_book backtest_init_def)
qed

lemma turn_locked:
  assumes "locked recorded y" "alpha_turn q t y = (y', outs)"
  shows "locked recorded y'"
proof (cases "waiting y")
  case 0
  obtain queue where s: "gw_queue (sy_gateway y) = Some queue" "spsc_inv kMdQueueCapacity queue"
    using assms(1) by (auto simp: locked_def tracks_def)
  then have "y' = y" using assms(2) 0 spsc.pop_none [OF s(2)] by (simp add: alpha_turn_def waiting_def)
  then show ?thesis using assms(1) by simp
next
  case (Suc k)
  have l: "tracks recorded y" "k = 0" using assms(1) Suc by (simp_all add: locked_def)
  let ?n = "length recorded - 1"
  from turn_judges [OF l(1) assms(2) Suc, of "Fin 50"] l(2)
  have "sy_signals y' = fst (signal_on_event (sy_signals y) (recorded ! ?n) (bt_book (bt_run (backtest_init (Fin 50)) recorded)))"
    and r: "recorded \<noteq> []" by auto
  moreover have "sy_signals y = bt_engine (bt_run (backtest_init (Fin 50)) (take ?n recorded))"
    using assms(1) Suc l(2) by (simp add: locked_def)
  moreover have "recorded = take ?n recorded @ [recorded ! ?n]"
    using r by (metis append_butlast_last_id butlast_conv_take last_conv_nth)
  ultimately have "sy_signals y' = bt_engine (bt_run (backtest_init (Fin 50)) recorded)"
    by (metis bt_run_snoc bt_step_book bt_step_engine)
  then show ?thesis
    using turn_tracks [OF l(1) assms(2)] turn_waiting [OF l(1) assms(2)] Suc l(2) by (simp add: locked_def)
qed

lemma message_waiting:
  assumes "tracks recorded y" "md_fromApp q m ts (sy_gateway y) = (g, outs, err)"
    "\<not> drops_book y (MdMessage m ts)" "waiting y + length (logged outs) \<le> spsc_room kMdQueueCapacity"
  shows "waiting (y\<lparr>sy_gateway := g\<rparr>) = waiting y + length (logged outs)"
proof -
  obtain queue where s: "gw_queue (sy_gateway y) = Some queue" "spsc_inv kMdQueueCapacity queue"
    using assms(1) by (auto simp: tracks_def)
  have "gw_queue g = Some (foldl (\<lambda>q x. fst (spsc_push kMdQueueCapacity q x)) queue (logged outs))"
    using fromApp_streamed [OF assms(2)] not_dropped [OF assms(3)] by (simp add: s(1) foldl_offer)
  then show ?thesis
    using spsc.contents_push_all [OF s(2), of "logged outs"] assms(4) by (simp add: waiting_def s(1))
qed

text \<open>Nothing logged, nothing queued: such a step changes neither side of the comparison.\<close>

lemma idle_locked:
  assumes "locked recorded y" "gw_book (sy_gateway y') = gw_book (sy_gateway y)"
    "gw_queue (sy_gateway y') = gw_queue (sy_gateway y)" "sy_signals y' = sy_signals y"
  shows "locked recorded y'"
proof -
  have "tracks recorded y" using assms(1) by (simp add: locked_def)
  then have "tracks recorded y'" using assms(2-4) by (simp add: tracks_def)
  moreover have "waiting y' = waiting y" using assms(3) by (simp add: waiting_def)
  ultimately show ?thesis using assms(1,4) by (simp add: locked_def)
qed

lemma step_locked:
  assumes "locked recorded y" "system_step q y e = (y', outs)" "in_step y e outs"
  shows "locked (recorded @ md_logged outs) y'"
proof (cases e)
  case (AlphaTurn t)
  obtain y1 outs1 where t: "alpha_turn q t y = (y1, outs1)" by fastforce
  show ?thesis using turn_locked [OF assms(1) t] assms(2) t AlphaTurn by auto
next
  case (MdMessage m ts)
  obtain g outs1 err where m: "md_fromApp q m ts (sy_gateway y) = (g, outs1, err)" by (metis prod_cases3)
  have l: "tracks recorded y" using assms(1) by (simp add: locked_def)
  have y': "y' = y\<lparr>sy_gateway := g\<rparr>" "outs = map MdOut outs1" using assms(2) m MdMessage by simp_all
  have i: "\<not> drops_book y (MdMessage m ts)" "waiting y + length (logged outs1) \<le> 1"
    using assms(3) MdMessage y' by (simp_all add: in_step_def)
  then have k: "waiting y + length (logged outs1) \<le> spsc_room kMdQueueCapacity" by (simp add: capacity_2_14)
  show ?thesis
    using message_tracks [OF l m i(1) k] message_waiting [OF l m i(1) k] i(2) y' assms(1) waiting_le [OF l]
    by (simp add: locked_def)
next
  case (MdLogon net sid now)
  then show ?thesis
    using assms(2) idle_locked [OF assms(1), of y'] session_keeps(1,2) logon_logs_nothing [of net sid now "sy_gateway y"]
    by (auto simp: case_prod_unfold Let_def)
next
  case (TradeMessage m now)
  then show ?thesis using assms(2) idle_locked [OF assms(1), of y'] by (auto simp: case_prod_unfold Let_def)
qed (use assms(2) idle_locked [OF assms(1), of y'] session_keeps in auto)

lemma run_locked:
  "locked recorded y \<Longrightarrow> lockstep q y evs \<Longrightarrow> system_run q y evs = (y', outs) \<Longrightarrow>
    locked (recorded @ md_logged outs) y'"
proof (induction evs arbitrary: recorded y outs)
  case (Cons e evs)
  obtain y1 outs1 where e: "system_step q y e = (y1, outs1)" by fastforce
  obtain outs2 where r: "system_run q y1 evs = (y', outs2)" "outs = outs1 @ outs2"
    using Cons.prems(3) e by (auto simp: case_prod_unfold Let_def prod_eq_iff)
  have i: "in_step y e outs1" "lockstep q y1 evs" using Cons.prems(2) e by simp_all
  from Cons.IH [OF step_locked [OF Cons.prems(1) e i(1)] i(2) r(1)] show ?case by (simp add: r(2))
qed simp

lemma init_locked:
  assumes "length buf = unat kMdQueueCapacity"
  shows "locked [] (system_init md_settings buf)"
  using init_tracks [OF assms, of md_settings] waiting_le [OF init_tracks [OF assms, of md_settings]]
  by (simp add: locked_def system_init_def signal_engine_default_def backtest_init_def)

text \<open>
  C5: The backtest reproduces the signals.  When every market-data event is handled before the next
  one arrives, and snapshots come only to an empty book (a later one clears the live book, but not
  that of the replay), the complete state of the live signal engine, both factors
  and the last signal included, is at every moment that of the backtest run with the default
  threshold over the events handled so far, whatever trade reports, session events and idle
  turns come in between.
\<close>

theorem backtest_reproduces_signals:
  assumes "length buf = unat kMdQueueCapacity" and "lockstep q (system_init md_settings buf) evs"
    and "system_run q (system_init md_settings buf) evs = (y, outs)"
  shows "waiting y \<le> 1 \<and> (let seen = take (length (md_logged outs) - waiting y) (md_logged outs)
    in sy_signals y = bt_engine (bt_run (backtest_init (Fin 50)) seen))"
  using run_locked [OF init_locked [OF assms(1)] assms(2,3)] by (simp add: locked_def Let_def)

text \<open>
  C10: An event that waited is judged with a later book.  In any run as above (no overflow of the
  queue, snapshots only to an empty book), when \<open>k\<close> events wait behind the oldest, the
  alpha thread hands the signal engine that oldest event together with the book after all of them, while
  the backtest judges it with the book right after it.
\<close>

theorem queued_events_see_later_book:
  assumes "length buf = unat kMdQueueCapacity" and "keeps_up q (system_init md_settings buf) evs"
    and "system_run q (system_init md_settings buf) evs = (y, outs)"
    and "waiting y = Suc k" and "alpha_turn q t y = (y', outs')"
  shows "let recorded = md_logged outs; n = length recorded - Suc k; b = bt_run (backtest_init th) (take n recorded)
    in sy_signals y' = fst (signal_on_event (sy_signals y) (recorded ! n) (book_run (bt_book b) (drop n recorded))) \<and>
       bt_engine (bt_step b (recorded ! n)) = fst (signal_on_event (bt_engine b) (recorded ! n) (book_after (bt_book b) (recorded ! n)))"
proof -
  have t: "tracks (md_logged outs) y" using run_tracks [OF init_tracks [OF assms(1)] assms(2,3)] by simp
  have "book_run (bt_book (bt_run b (take n recorded))) (drop n recorded) = bt_book (bt_run b recorded)" for n b recorded
    by (simp add: bt_run_book flip: foldl_append) (simp add: book_run_def flip: foldl_append)
  then show ?thesis using turn_judges [OF t assms(5,4), of th] by (simp add: bt_step_engine Let_def)
qed

section \<open>Deletions of unknown orders\<close>

lemma unknown_delete_result:
  assumes "msg_header m 35 = Some ''X''" and "msg_body m 268 = Some s" and "qf_int q s = Some 1"
    and "msg_groups m 268 = [grp]" and "grp 279 = Some a" and "qf_char q a = Some (CHR ''2'')"
    and "ob_entries (gw_book g) (read_entry_id grp) = None"
  obtains g' outs where "md_fromApp q m ts g = (g', outs, None)"
    "logged outs = [(blank_event ts Delete)\<lparr>ev_entry_id := read_entry_id grp\<rparr>]" "gw_book g' = gw_book g"
proof -
  let ?ev = "(blank_event ts Delete)\<lparr>ev_entry_id := read_entry_id grp\<rparr>"
  have e: "incremental_entry q ts (gw_book g) grp = EntryEvent ?ev"
    using assms(5-7) by (simp add: incremental_entry_def read_char_def get_string_def convert_field_def
        action_of_char_def lookup_entry_def blank_event_def Let_def)
  obtain g' outs where d: "deliver ?ev g = (g', outs)" by fastforce
  have r: "md_fromApp q m ts g = (g', outs, None)"
    using assms(1-4) e d by (simp add: md_fromApp_def get_string_def on_incremental_refresh_def read_entries_def
        convert_field_def Let_def)
  have "gw_book g' = book_after (gw_book g) ?ev"
    using deliver_streamed [OF d] by (simp add: streamed_def book_run_def)
  also have "\<dots> = gw_book g" using assms(7) by (simp add: book_apply_def blank_event_def)
  finally show thesis using that [OF r] deliver_streamed [OF d] by blast
qed

text \<open>
  C37: A deletion of an order the book does not know is logged as a bid of price and size zero,
  whatever side its own entry names, changes no level of the book, and is counted by the
  cancellation factor of the live engine, and of the backtest after it, as a cancelled bid.
\<close>

theorem unknown_delete_counts_as_bid:
  assumes "msg_header m 35 = Some ''X''" and "msg_body m 268 = Some s" and "qf_int q s = Some 1"
    and "msg_groups m 268 = [grp]" and "grp 279 = Some a" and "qf_char q a = Some (CHR ''2'')"
    and "ob_entries (gw_book g) (read_entry_id grp) = None" and "md_fromApp q m ts g = (g', outs, err)"
  shows "err = None \<and>
    (\<exists>ev. logged outs = [ev] \<and> ev_action ev = Delete \<and> ev_side ev = Bid \<and> ev_price ev = 0 \<and> ev_qty ev = 0 \<and>
       ob_bids (gw_book g') = ob_bids (gw_book g) \<and> ob_asks (gw_book g') = ob_asks (gw_book g) \<and>
       (\<forall>c. let b = ring_newest (cf_ring c)
         in count_delete ev c =
              c\<lparr>cf_ring := ring_set_newest (b\<lparr>cb_bid_cancels := cb_bid_cancels b + 1\<rparr>) (cf_ring c)\<rparr>))"
proof -
  obtain g1 outs1 where r: "md_fromApp q m ts g = (g1, outs1, None)"
      "logged outs1 = [(blank_event ts Delete)\<lparr>ev_entry_id := read_entry_id grp\<rparr>]" "gw_book g1 = gw_book g"
    by (rule unknown_delete_result [OF assms(1-7)])
  then have "g' = g1" "outs = outs1" "err = None" using assms(8) by simp_all
  then show ?thesis using r by (simp add: count_delete_def blank_event_def Let_def)
qed

section \<open>Witnesses\<close>

text \<open>A deletion of order 7 on the offer side, sent to a system that has seen nothing.\<close>

definition sample_delete :: fix_message where
  "sample_delete = add_group 268 [279 \<mapsto> ''2'', 278 \<mapsto> ''7'', 269 \<mapsto> ''1''] (set_body 268 ''1'' (fix_new ''X''))"

lemma sample_delete_fields:
  "msg_header sample_delete 35 = Some ''X''" "msg_body sample_delete 268 = Some ''1''"
  "qf_int sample_quickfix ''1'' = Some 1" "qf_char sample_quickfix ''2'' = Some (CHR ''2'')"
  "msg_groups sample_delete 268 = [[279 \<mapsto> ''2'', 278 \<mapsto> ''7'', 269 \<mapsto> ''1'']]"
  by (simp_all add: sample_delete_def fix_building sample_quickfix_def is_digit_def digits_value_def)

theorem unknown_delete_counts_as_bid_witness:
  "\<exists>g' outs ev. md_fromApp sample_quickfix sample_delete 1000 sample_gateway = (g', outs, None) \<and>
     logged outs = [ev] \<and> ev_side ev = Bid \<and> ev_price ev = 0"
proof -
  obtain g' outs err where r: "md_fromApp sample_quickfix sample_delete 1000 sample_gateway = (g', outs, err)"
    by (metis prod_cases3)
  have "ob_entries (gw_book sample_gateway) k = None" for k
    by (simp add: sample_gateway_def gateway_new_def book_empty_def)
  from unknown_delete_counts_as_bid [OF sample_delete_fields(1,2,3,5) _ sample_delete_fields(4) this r]
  show ?thesis using r by auto
qed

text \<open>The deletion arrives; the alpha thread has not run yet.\<close>

lemma sample_live_run:
  obtains y outs ev where "system_run sample_quickfix (system_init None sample_cells) [MdMessage sample_delete 1000] = (y, outs)"
    "keeps_up sample_quickfix (system_init None sample_cells) [MdMessage sample_delete 1000]"
    "md_logged outs = [ev]" "tracks [ev] y"
proof -
  let ?y0 = "system_init None sample_cells"
  let ?grp = "[279 \<mapsto> ''2'', 278 \<mapsto> ''7'', 269 \<mapsto> ''1''] :: fix_fields"
  let ?ev = "(blank_event 1000 Delete)\<lparr>ev_entry_id := read_entry_id ?grp\<rparr>"
  have none: "ob_entries (gw_book (sy_gateway ?y0)) (read_entry_id ?grp) = None" and act: "?grp 279 = Some ''2''"
    by (simp_all add: system_init_def gateway_new_def book_empty_def)
  obtain g outs where m: "md_fromApp sample_quickfix sample_delete 1000 (sy_gateway ?y0) = (g, outs, None)"
      and ev: "logged outs = [?ev]"
    by (rule unknown_delete_result [OF sample_delete_fields(1,2,3,5) act sample_delete_fields(4) none], rule that)
  have run: "system_run sample_quickfix ?y0 [MdMessage sample_delete 1000] = (?y0\<lparr>sy_gateway := g\<rparr>, map MdOut outs)"
    using m by simp
  have "waiting ?y0 = 0"
    by (simp add: waiting_def system_init_def gateway_new_def spsc_init_contents capacity_2_14)
  then have k: "keeps_up sample_quickfix ?y0 [MdMessage sample_delete 1000]"
    using m ev sample_delete_fields(1) by (simp add: Let_def capacity_2_14)
  have "tracks [?ev] (?y0\<lparr>sy_gateway := g\<rparr>)"
    using run_tracks [OF init_tracks k run] ev by (simp add: sample_cells_def)
  then show thesis using that [OF run k] ev by simp
qed

theorem backtest_replays_live_engine_witness:
  "\<exists>y outs ev. system_run sample_quickfix (system_init None sample_cells) [MdMessage sample_delete 1000] = (y, outs) \<and>
     md_logged outs = [ev] \<and> gw_book (sy_gateway y) = bt_book (bt_run (backtest_init (Fin 50)) [ev])"
proof -
  obtain y outs ev where r: "system_run sample_quickfix (system_init None sample_cells) [MdMessage sample_delete 1000] = (y, outs)"
    "keeps_up sample_quickfix (system_init None sample_cells) [MdMessage sample_delete 1000]" "md_logged outs = [ev]"
    by (rule sample_live_run)
  have "length sample_cells = unat kMdQueueCapacity" by (simp add: sample_cells_def)
  from backtest_replays_live_engine [OF this r(2,1), of "Fin 50"] show ?thesis using r(1,3) by (auto simp: Let_def)
qed

theorem alpha_thread_catches_up_witness:
  "\<exists>y outs y' outs' ev. system_run sample_quickfix (system_init None sample_cells) [MdMessage sample_delete 1000] = (y, outs) \<and>
     system_run sample_quickfix y (map AlphaTurn [sample_turn]) = (y', outs') \<and> waiting y' = 0 \<and>
     se_cancel (sy_signals y') = se_cancel (bt_engine (bt_run (backtest_init (Fin 50)) [ev]))"
proof -
  obtain y outs ev where r: "system_run sample_quickfix (system_init None sample_cells) [MdMessage sample_delete 1000] = (y, outs)"
    "keeps_up sample_quickfix (system_init None sample_cells) [MdMessage sample_delete 1000]" "md_logged outs = [ev]"
    "tracks [ev] y" by (rule sample_live_run)
  obtain y' outs' where t: "system_run sample_quickfix y (map AlphaTurn [sample_turn]) = (y', outs')" by (metis surj_pair)
  have "length sample_cells = unat kMdQueueCapacity" by (simp add: sample_cells_def)
  from alpha_thread_catches_up [OF this r(2,1) _ t, of "Fin 50"] show ?thesis
    using r(1,3) t waiting_le [OF r(4)] by auto
qed

text \<open>The first snapshot, with one offer; it finds the book of the gateway empty.\<close>

definition sample_first :: fix_message where
  "sample_first = add_group 268 (sample_group ''8'' ''1'' ''2001'' ''3'') (set_body 268 ''1'' (fix_new ''W''))"

definition first_logged :: lob_event where
  "first_logged = (blank_event 1000 New)\<lparr>ev_entry_id := 8, ev_price := 200100, ev_qty := 3, ev_side := Offer\<rparr>"

lemma sample_first_result:
  assumes "gw_book g = book_empty"
  obtains g' outs err where "md_fromApp sample_quickfix sample_first 1000 g = (g', outs, err)"
    and "logged outs = [first_logged]"
proof -
  let ?r = "md_fromApp sample_quickfix sample_first 1000 g"
  have ids: "stoull ''8'' = Some 8" by (simp add: stoull_def is_space_def is_digit_def digits_value_def)
  have "logged (fst (snd ?r)) = [first_logged]"
    using ids sample_prices deliver_streamed
    by (simp add: md_fromApp_def sample_first_def sample_group_def fix_building get_string_def on_snapshot_def
        read_entries_def convert_field_def sample_quickfix_def is_digit_def digits_value_def snapshot_entry_def
        read_char_def side_of_char_def read_entry_id_def read_px_qty_def read_optional_def
        case_prod_unfold Let_def deliver_def first_logged_def blank_event_def)
  then show thesis using that by (metis prod.collapse)
qed

text \<open>One message that logs one event, and the turn that handles it.\<close>

lemma message_and_turn:
  assumes "tracks recorded y" "waiting y = 0" "\<not> drops_book y (MdMessage m ts)"
    and "md_fromApp q m ts (sy_gateway y) = (g, mouts, err)" "logged mouts = [ev]"
  obtains y' outs where "system_run q y [MdMessage m ts, AlphaTurn t] = (y', outs)" "md_logged outs = [ev]"
    "tracks (recorded @ [ev]) y'" "waiting y' = 0" "lockstep q y [MdMessage m ts, AlphaTurn t]"
proof -
  let ?y1 = "y\<lparr>sy_gateway := g\<rparr>"
  have k: "waiting y + length (logged mouts) \<le> spsc_room kMdQueueCapacity" using assms(2,5) by (simp add: capacity_2_14)
  have t1: "tracks (recorded @ [ev]) ?y1" using message_tracks [OF assms(1,4,3) k] assms(5) by simp
  have w1: "waiting ?y1 = 1" using message_waiting [OF assms(1,4,3) k] assms(2,5) by simp
  obtain y2 outs2 where t: "alpha_turn q t ?y1 = (y2, outs2)" by fastforce
  have t2: "tracks (recorded @ [ev]) y2" "waiting y2 = 0" using turn_tracks [OF t1 t] turn_waiting [OF t1 t] w1 by simp_all
  have run: "system_run q y [MdMessage m ts, AlphaTurn t] = (y2, map MdOut mouts @ map TradeOut outs2)"
    using assms(4) t by simp
  have "lockstep q y [MdMessage m ts, AlphaTurn t]" using assms(2-5) t w1 by (simp add: in_step_def)
  from that [OF run _ t2 this] show thesis using assms(5) by simp
qed

lemma lockstep_append:
  "lockstep q y (evs1 @ evs2) \<longleftrightarrow> lockstep q y evs1 \<and> lockstep q (fst (system_run q y evs1)) evs2"
  by (induction evs1 arbitrary: y) (simp_all add: case_prod_unfold Let_def)

theorem backtest_reproduces_signals_witness:
  "\<exists>y outs ev. system_run sample_quickfix (system_init None sample_cells)
       [MdMessage sample_first 1000, AlphaTurn sample_turn, MdMessage sample_delete 1000, AlphaTurn sample_turn] = (y, outs) \<and>
     md_logged outs = [first_logged, ev] \<and>
     sy_signals y = bt_engine (bt_run (backtest_init (Fin 50)) [first_logged, ev])"
proof -
  let ?init = "system_init None sample_cells" and ?turn = "AlphaTurn sample_turn"
  let ?first = "[MdMessage sample_first 1000, ?turn]" and ?second = "[MdMessage sample_delete 1000, ?turn]"
  have l: "length sample_cells = unat kMdQueueCapacity" by (simp add: sample_cells_def)
  have t0: "tracks [] ?init" by (rule init_tracks [OF l])
  have b0: "gw_book (sy_gateway ?init) = book_empty" by (simp add: system_init_def gateway_new_def)
  have w0: "waiting ?init = 0" using waiting_le [OF t0] by simp
  have d0: "\<not> drops_book ?init (MdMessage sample_first 1000)"
    by (simp add: b0 drops_book_def) (simp add: book_clear_def book_empty_def)
  obtain g1 mo1 err1 where m1: "md_fromApp sample_quickfix sample_first 1000 (sy_gateway ?init) = (g1, mo1, err1)"
    "logged mo1 = [first_logged]" by (rule sample_first_result [OF b0])
  obtain y1 outs1 where r1: "system_run sample_quickfix ?init ?first = (y1, outs1)" "md_logged outs1 = [first_logged]"
    "tracks ([] @ [first_logged]) y1" "waiting y1 = 0" "lockstep sample_quickfix ?init ?first"
    by (rule message_and_turn [OF t0 w0 d0 m1])
  let ?grp = "[279 \<mapsto> ''2'', 278 \<mapsto> ''7'', 269 \<mapsto> ''1''] :: fix_fields"
  have "gw_book (sy_gateway y1) = book_run book_empty [first_logged]" using r1(3) by (simp add: tracks_def)
  then have none: "ob_entries (gw_book (sy_gateway y1)) (read_entry_id ?grp) = None"
    by (simp add: book_run_def first_logged_def blank_event_def book_eval read_entry_id_def get_string_def
        stoull_def is_space_def is_digit_def digits_value_def)
  have act: "?grp 279 = Some ''2''" by simp
  obtain g2 mo2 where m2: "md_fromApp sample_quickfix sample_delete 1000 (sy_gateway y1) = (g2, mo2, None)"
    "logged mo2 = [(blank_event 1000 Delete)\<lparr>ev_entry_id := read_entry_id ?grp\<rparr>]"
    by (rule unknown_delete_result [OF sample_delete_fields(1,2,3,5) act sample_delete_fields(4) none])
  have d1: "\<not> drops_book y1 (MdMessage sample_delete 1000)" using sample_delete_fields(1) by simp
  obtain y2 outs2 where r2: "system_run sample_quickfix y1 ?second = (y2, outs2)" "waiting y2 = 0"
    "md_logged outs2 = [(blank_event 1000 Delete)\<lparr>ev_entry_id := read_entry_id ?grp\<rparr>]"
    "lockstep sample_quickfix y1 ?second"
    by (rule message_and_turn [OF r1(3,4) d1 m2])
  have run: "system_run sample_quickfix ?init (?first @ ?second) = (y2, outs1 @ outs2)"
    using r1(1) r2(1) by (simp only: sys.run_append prod.case Let_def)
  have "lockstep sample_quickfix ?init (?first @ ?second)" using r1(1,5) r2(4) by (simp only: lockstep_append fst_conv)
  from backtest_reproduces_signals [OF l this run] show ?thesis
    using run r1(2) r2(2,3) by (simp add: Let_def)
qed

text \<open>A message with two entries: a bid, then an offer.\<close>

definition sample_pair :: fix_message where
  "sample_pair = add_group 268 ((sample_group ''8'' ''1'' ''2001'' ''3'')(279 \<mapsto> ''0''))
     (add_group 268 ((sample_group ''7'' ''0'' ''2000'' ''5'')(279 \<mapsto> ''0'')) (set_body 268 ''2'' (fix_new ''X'')))"


lemma sample_pair_result:
  assumes "gw_book g = book_empty"
  obtains g' outs err where "md_fromApp sample_quickfix sample_pair 1000 g = (g', outs, err)"
    and "logged outs = sample_logged"
proof -
  let ?r = "md_fromApp sample_quickfix sample_pair 1000 g"
  have ids: "stoull ''7'' = Some 7" "stoull ''8'' = Some 8"
    by (simp_all add: stoull_def is_space_def is_digit_def digits_value_def)
  have "logged (fst (snd ?r)) = sample_logged"
    using ids sample_prices deliver_streamed
    by (simp add: md_fromApp_def sample_pair_def sample_group_def fix_building get_string_def on_incremental_refresh_def
        read_entries_def convert_field_def sample_quickfix_def is_digit_def digits_value_def incremental_entry_def
        read_char_def action_of_char_def side_of_char_def read_entry_id_def read_px_qty_def read_optional_def
        case_prod_unfold Let_def deliver_def numeral_2_eq_2 sample_logged_def blank_event_def)
  then show thesis using that by (metis prod.collapse)
qed

lemma sample_pair_header: "msg_header sample_pair 35 = Some ''X''"
  by (simp add: sample_pair_def sample_group_def fix_building)

text \<open>The midprices the live engine and the backtest use for the first entry.\<close>

lemma sample_books:
  "best_bid (book_run book_empty sample_logged) = 200000" "best_ask (book_run book_empty sample_logged) = 200100"
  "best_ask (book_run book_empty [hd sample_logged]) = 0"
  by (simp_all add: sample_logged_def book_run_def blank_event_def book_eval best_bid_def best_ask_def smap_first_def smap_last_def)

lemma sample_midprices:
  "df_midprice (se_delta (fst (signal_on_event e (hd sample_logged) (book_run book_empty sample_logged)))) = 200050"
  "df_midprice (se_delta (fst (signal_on_event e (hd sample_logged) (book_run book_empty [hd sample_logged]))))
     = df_midprice (se_delta e)"
  by (simp_all add: signal_on_event_factors feed_factors_def sample_books set_midprice_def c_div_def i64_def)

theorem queued_events_see_later_book_witness:
  "\<exists>y outs y' outs'. system_run sample_quickfix (system_init None sample_cells) [MdMessage sample_pair 1000] = (y, outs) \<and>
     alpha_turn sample_quickfix sample_turn y = (y', outs') \<and> md_logged outs = sample_logged \<and>
     df_midprice (se_delta (sy_signals y')) = 200050 \<and>
     df_midprice (se_delta (bt_engine (bt_step (backtest_init (Fin 50)) (hd sample_logged)))) = 0"
proof -
  let ?init = "system_init None sample_cells"
  have l: "length sample_cells = unat kMdQueueCapacity" by (simp add: sample_cells_def)
  note t0 = init_tracks [OF l, of None]
  have "gw_book (sy_gateway ?init) = book_empty" by (simp add: system_init_def gateway_new_def)
  then obtain g outs err where m: "md_fromApp sample_quickfix sample_pair 1000 (sy_gateway ?init) = (g, outs, err)"
    and o: "logged outs = sample_logged" by (rule sample_pair_result)
  let ?y1 = "?init\<lparr>sy_gateway := g\<rparr>"
  have run: "system_run sample_quickfix ?init [MdMessage sample_pair 1000] = (?y1, map MdOut outs)" using m by simp
  have w0: "waiting ?init = 0" using waiting_le [OF t0] by simp
  have two: "length sample_logged = 2" by (simp add: sample_logged_def)
  have room: "waiting ?init + length (logged outs) \<le> spsc_room kMdQueueCapacity"
    using w0 o two by (simp add: capacity_2_14)
  have k: "keeps_up sample_quickfix ?init [MdMessage sample_pair 1000]"
    using m room sample_pair_header by (simp add: Let_def)
  have w: "waiting ?y1 = Suc 1"
    using message_waiting [OF t0 m _ room] sample_pair_header w0 o two by simp
  obtain y' outs' where t: "alpha_turn sample_quickfix sample_turn ?y1 = (y', outs')" by fastforce
  from queued_events_see_later_book [OF l k run w t, of "Fin 50"]
  have "sy_signals y' = fst (signal_on_event (sy_signals ?y1) (hd sample_logged) (book_run book_empty sample_logged))"
    using o two by (simp add: Let_def backtest_init_def hd_conv_nth sample_logged_def)
  moreover have "df_midprice (se_delta (bt_engine (bt_step (backtest_init (Fin 50)) (hd sample_logged)))) = 0"
    using sample_midprices(2) by (simp add: bt_step_engine backtest_init_def book_run_def signal_engine_new_def delta_default_def delta_new_def kDefaultBucketNs_def)
  ultimately show ?thesis using run t o sample_midprices(1) by simp
qed

end
